(* ===== verification/Prelude.thy ===== *)
theory Prelude
  imports Main "HOL-Library.Word" "HOL-Library.Monad_Syntax"
begin

text \<open>
  Shared vocabulary of the development: the machine integers of the two targets,
  bounded array access, the loop combinator used for the counted \<open>for\<close> loops
  of the sources, and the small facts about them that every component uses.

  An operation that C leaves undefined (an access outside an array, a call through a
  null pointer) has no value in the model: the definitions are functions into
  \<open>option\<close> and such an operation is \<open>None\<close>.  A theorem that a routine returns
  \<open>Some\<close> therefore includes that it never leaves its arrays.
\<close>

unbundle bit_operations_syntax

section \<open>Machine integers\<close>

type_synonym u8 = "8 word"
type_synonym u16 = "16 word"
type_synonym u32 = "32 word"
type_synonym u64 = "64 word"

named_theorems word_bits \<open>bit-level facts on machine words\<close>
named_theorems array_simps \<open>bounded array access\<close>
named_theorems errno_defs \<open>numerical values of the error codes\<close>

section \<open>Arrays with bounds\<close>

definition rd :: "'a list \<Rightarrow> nat \<Rightarrow> 'a option" where
  "rd xs i = (if i < length xs then Some (xs ! i) else None)"

definition wr :: "'a list \<Rightarrow> nat \<Rightarrow> 'a \<Rightarrow> 'a list option" where
  "wr xs i v = (if i < length xs then Some (xs[i := v]) else None)"

lemma rd_in [array_simps]: "i < length xs \<Longrightarrow> rd xs i = Some (xs ! i)"
  by (simp add: rd_def)

lemma rd_out [array_simps]: "length xs \<le> i \<Longrightarrow> rd xs i = None"
  by (simp add: rd_def)

lemma wr_in [array_simps]: "i < length xs \<Longrightarrow> wr xs i v = Some (xs[i := v])"
  by (simp add: wr_def)

lemma wr_out [array_simps]: "length xs \<le> i \<Longrightarrow> wr xs i v = None"
  by (simp add: wr_def)

lemma rd_Some_iff: "rd xs i = Some v \<longleftrightarrow> i < length xs \<and> v = xs ! i"
  by (auto simp: rd_def)

lemma wr_Some_iff: "wr xs i v = Some ys \<longleftrightarrow> i < length xs \<and> ys = xs[i := v]"
  by (auto simp: wr_def)

lemma length_wr: "wr xs i v = Some ys \<Longrightarrow> length ys = length xs"
  by (auto simp: wr_Some_iff)

section \<open>Counted loops\<close>

text \<open>
  \<open>foldM f xs s\<close> runs the loop body \<open>f\<close> for the values of \<open>xs\<close> in order;
  \<open>for (i = a; i < b; i++)\<close> is \<open>foldM\<close> over \<open>[a..<b]\<close>.  The loop stops with
  \<open>None\<close> at the first undefined access.
\<close>

primrec foldM :: "('i \<Rightarrow> 's \<Rightarrow> 's option) \<Rightarrow> 'i list \<Rightarrow> 's \<Rightarrow> 's option" where
  "foldM f [] s = Some s"
| "foldM f (x # xs) s = (case f x s of None \<Rightarrow> None | Some s' \<Rightarrow> foldM f xs s')"

lemma foldM_append:
  "foldM f (xs @ ys) s = (case foldM f xs s of None \<Rightarrow> None | Some s' \<Rightarrow> foldM f ys s')"
  by (induction xs arbitrary: s) (auto split: option.splits)

lemma foldM_snoc: "foldM f (xs @ [x]) s = (case foldM f xs s of None \<Rightarrow> None | Some s' \<Rightarrow> f x s')"
  by (auto simp: foldM_append split: option.splits)

text \<open>
  The invariant rule for a counted loop: \<open>P i\<close> holds before the iteration with
  index \<open>i\<close>; if every iteration succeeds and keeps it, the loop succeeds.
\<close>

lemma foldM_upt_invariant:
  assumes "a \<le> b" and "P a s"
    and "\<And>i s. a \<le> i \<Longrightarrow> i < b \<Longrightarrow> P i s \<Longrightarrow> \<exists>s'. f i s = Some s' \<and> P (Suc i) s'"
  shows "\<exists>s'. foldM f [a..<b] s = Some s' \<and> P b s'"
  using assms
proof (induction b)
  case 0
  then show ?case by simp
next
  case (Suc b)
  show ?case
  proof (cases "a \<le> b")
    case True
    with Suc obtain s1 where s1: "foldM f [a..<b] s = Some s1" "P b s1"
      by (metis less_SucI)
    with Suc.prems(3)[of b s1] True obtain s2 where "f b s1 = Some s2" "P (Suc b) s2"
      by auto
    with s1 True show ?thesis by (simp add: foldM_snoc)
  next
    case False
    with Suc.prems show ?thesis by (simp add: le_Suc_eq)
  qed
qed

lemma foldM_total:
  assumes "\<And>x s. x \<in> set xs \<Longrightarrow> f x s = Some (g x s)"
  shows "foldM f xs s = Some (fold g xs s)"
  using assms by (induction xs arbitrary: s) auto

lemma foldM_cong:
  assumes "\<And>x s. x \<in> set xs \<Longrightarrow> f x s = g x s"
  shows "foldM f xs s = foldM g xs s"
  using assms by (induction xs arbitrary: s) (auto split: option.splits)

lemma foldM_preserves:
  assumes "foldM f xs s = Some t" and "P s"
    and "\<And>x s s'. x \<in> set xs \<Longrightarrow> P s \<Longrightarrow> f x s = Some s' \<Longrightarrow> P s'"
  shows "P t"
  using assms
proof (induction xs arbitrary: s)
  case Nil
  then show ?case by simp
next
  case (Cons x xs)
  from Cons.prems(1) obtain s' where "f x s = Some s'" "foldM f xs s' = Some t"
    by (auto split: option.splits)
  with Cons show ?case by (meson list.set_intros)
qed

section \<open>Words\<close>

lemma unat_add_1: "x + 1 \<noteq> 0 \<Longrightarrow> unat (x + 1) = Suc (unat x)" for x :: "'a::len word"
  using unatSuc [of x] by (simp add: add.commute [of x])

lemma unat_plus_if_small:
  "unat x + unat y < 2 ^ LENGTH('a) \<Longrightarrow> unat (x + y) = unat x + unat y" for x y :: "'a::len word"
  by (simp add: unat_word_ariths)

lemma unat_u64_lt: "unat x < 2 ^ 64" for x :: u64
  by (rule order_less_le_trans [OF unsigned_less]) simp

lemma unat_u32_lt: "unat x < 2 ^ 32" for x :: u32
  by (rule order_less_le_trans [OF unsigned_less]) simp

lemma unat_le_sub: "y \<le> x \<Longrightarrow> unat (x - y) = unat x - unat y" for x y :: "'a::len word"
  by (simp add: unat_sub)

lemma bit_word_beyond: "64 \<le> n \<Longrightarrow> \<not> bit (x :: u64) n"
  using bit_imp_le_length [of x n] by auto

text \<open>The masks \<open>x AND (2^k - 1)\<close> of the sources take the remainder.\<close>

lemma unat_and_mask: "unat (x AND mask k) = unat x mod 2 ^ k" for x :: "'a::len word"
  by (simp flip: take_bit_eq_mask take_bit_eq_mod add: unsigned_take_bit_eq)

lemma unat_u32_small: "n < 2 ^ 32 \<Longrightarrow> unat (of_nat n :: u32) = n"
  by (simp add: unsigned_of_nat take_bit_nat_eq_self)

lemma unat_u64_small: "n < 2 ^ 64 \<Longrightarrow> unat (of_nat n :: u64) = n"
  by (simp add: unsigned_of_nat take_bit_nat_eq_self)

lemma ucast_u32_less:
  "n < 2 ^ 32 \<Longrightarrow> (ucast (of_nat n :: u32) :: u64) < w \<longleftrightarrow> n < unat w"
  by (simp add: word_less_nat_alt unsigned_ucast_eq unat_u32_small take_bit_nat_eq_self)

lemma ucast_u64_u32: "n < 2 ^ 32 \<Longrightarrow> (ucast (of_nat n :: u64) :: u32) = of_nat n"
  by (simp add: word_unat_eq_iff unsigned_ucast_eq unat_u64_small unat_u32_small
      take_bit_nat_eq_self)

text \<open>Reading a 32-bit word as a signed integer.\<close>

lemma bit_31_iff: "bit (x :: u32) 31 \<longleftrightarrow> 2 ^ 31 \<le> unat x"
proof -
  have b: "unat x < 2 ^ 32" by (rule unat_u32_lt)
  have "bit (unat x) 31 = bit x 31" by (simp add: bit_unsigned_iff)
  then have "bit x 31 = odd (unat x div 2 ^ 31)" by (simp add: bit_iff_odd)
  also have "\<dots> = (2 ^ 31 \<le> unat x)"
  proof (cases "2 ^ 31 \<le> unat x")
    case True
    then have "unat x div 2 ^ 31 = 1" using b by (intro div_nat_eqI) auto
    then show ?thesis using True by simp
  qed simp
  finally show ?thesis .
qed

lemma sint_u32_neg: "sint (x :: u32) < 0 \<longleftrightarrow> 2 ^ 31 \<le> unat x"
  using bit_last_iff [of x] by (simp add: bit_31_iff)

lemma sint_u32_small: "unat x < 2 ^ 31 \<Longrightarrow> sint (x :: u32) = int (unat x)"
proof -
  assume x: "unat x < 2 ^ 31"
  then have "\<not> bit (uint x) 31" using bit_31_iff [of x] by (simp add: bit_unsigned_iff)
  then have "sint x = take_bit 31 (uint x)" by (simp add: sint_uint signed_take_bit_eq_if_positive)
  also have "\<dots> = uint x"
  proof (rule take_bit_int_eq_self)
    have "int (unat x) < int (2 ^ 31)" using x by (simp only: of_nat_less_iff)
    then show "uint x < 2 ^ 31" by simp
  qed simp
  finally show ?thesis by simp
qed

lemma ex_ge_step: "(\<exists>k. i \<le> k \<and> Q k) \<longleftrightarrow> Q i \<or> (\<exists>k. i + 1 \<le> k \<and> Q k)" for i :: nat
proof
  assume "\<exists>k. i \<le> k \<and> Q k"
  then obtain k where "i \<le> k" "Q k" by blast
  then show "Q i \<or> (\<exists>k. i + 1 \<le> k \<and> Q k)" by (cases "k = i") auto
qed (auto dest: Suc_leD)

lemma all_less_3: "(\<forall>k < (3 :: nat). Q k) \<longleftrightarrow> Q 0 \<and> Q 1 \<and> Q 2"
  by (auto simp: numeral_eq_Suc less_Suc_eq)

lemma all_less_4: "(\<forall>k < (4 :: nat). Q k) \<longleftrightarrow> Q 0 \<and> Q 1 \<and> Q 2 \<and> Q 3"
  by (auto simp: numeral_eq_Suc less_Suc_eq)

lemma ex_less_3: "(\<exists>k < (3 :: nat). Q k) \<longleftrightarrow> Q 0 \<or> Q 1 \<or> Q 2"
  by (auto simp: numeral_eq_Suc less_Suc_eq)

text \<open>String literals of the program.\<close>

definition bytes_of :: "string \<Rightarrow> u8 list" where
  "bytes_of str = map of_char str"

section \<open>Bytes in words\<close>

lemma byte_of_int: "ucast (c AND 0xFF) = (ucast c :: u8)" for c :: u32
proof (rule bit_word_eqI)
  fix n assume n: "n < LENGTH(8)"
  have "(0xFF :: u32) = mask 8" by (simp add: mask_eq_exp_minus_1)
  then have "c AND 0xFF = take_bit 8 c" by (simp only: take_bit_eq_mask)
  then show "bit (ucast (c AND 0xFF) :: u8) n = bit (ucast c :: u8) n"
    using n by (simp only:) (auto simp: bit_simps)
qed

lemma ucast_byte: "ucast (ucast c :: u32) = c" for c :: u8
  by (rule bit_word_eqI) (auto simp: bit_simps)

lemma unat_of_nat_le: "unat (of_nat n :: 'a::len word) \<le> n"
  by (simp add: unsigned_of_nat take_bit_nat_less_eq_self)

lemma unat_limit_Suc: "limit \<noteq> - 1 \<Longrightarrow> unat (of_nat (unat limit + 1) :: 32 word) = unat limit + 1" for limit :: "32 word"
proof -
  assume "limit \<noteq> - 1"
  then have "unat limit \<noteq> unat (- 1 :: 32 word)" using word_unat_eq_iff by blast
  moreover have "unat (- 1 :: 32 word) = 4294967295" by (simp add: unsigned_minus_1_eq_mask mask_eq_exp_minus_1)
  ultimately have "unat limit + 1 < 2 ^ 32" using unsigned_less [where w = limit and 'a = nat] by simp
  then show ?thesis unfolding unsigned_of_nat of_nat_id by (simp add: take_bit_nat_eq_self)
qed

end
