(* ===== verification/Rand.thy ===== *)
theory Rand
  imports Prelude
begin

text \<open>
  The pseudo-random generator of \<open>software/c_progs/lib/rand.c\<close>, which the network
  simulation \<open>dtn.c\<close> draws from.  The C global \<open>state\<close> is the value that is
  passed along; \<open>rand\<close> returns the number drawn and the new state.
\<close>

section \<open>The generator\<close>

definition rand_init :: "u64 \<Rightarrow> u64" where
  "rand_init seed = seed"

definition rand :: "u64 \<Rightarrow> u64 \<times> u64" where
  "rand state =
     (let x = state;
          x = x XOR push_bit 13 x;
          x = x XOR drop_bit 7 x;
          x = x XOR push_bit 17 x
      in (x, x))"

section \<open>The contract of a generator that is a permutation\<close>

text \<open>
  What the users of the generator rely on: two states never merge, and the absorbing
  state \<open>dead\<close> (for an xorshift, zero) is not reached from a live seed.
\<close>

locale permuting_generator =
  fixes step :: "'s::finite \<Rightarrow> 's" and dead :: 's
  assumes step_inj: "step x = step y \<Longrightarrow> x = y"
    and step_dead: "step dead = dead"
begin

lemma step_live: "x \<noteq> dead \<Longrightarrow> step x \<noteq> dead"
  using step_inj step_dead by metis

lemma run_live: "x \<noteq> dead \<Longrightarrow> (step ^^ n) x \<noteq> dead"
  by (induction n) (simp_all add: step_live)

lemma run_inj: "(step ^^ n) x = (step ^^ n) y \<Longrightarrow> x = y"
  by (induction n) (auto dest: step_inj)

text \<open>Every run is a cycle through its seed: no state is transient.\<close>

lemma run_returns: "\<exists>n > 0. (step ^^ n) x = x"
proof -
  have "\<not> inj (\<lambda>n. (step ^^ n) x)"
    by (metis finite_code finite_imageD infinite_UNIV_nat finite_subset subset_UNIV)
  then obtain a b where ab: "(step ^^ a) x = (step ^^ b) x" "a < b"
    unfolding inj_def by (metis linorder_neqE_nat)
  then have "(step ^^ a) ((step ^^ (b - a)) x) = (step ^^ a) x"
    by (metis add_diff_inverse_nat comp_apply funpow_add less_imp_le not_le)
  then have "(step ^^ (b - a)) x = x" by (rule run_inj)
  with ab show ?thesis by (intro exI [of _ "b - a"]) auto
qed

end

section \<open>Each xorshift stage is invertible\<close>

lemma xor_shl_fixed: "z = push_bit k z \<Longrightarrow> 0 < k \<Longrightarrow> z = 0" for z :: u64
proof -
  assume z: "z = push_bit k z" and k: "0 < k"
  have "\<not> bit z n" for n
  proof (induction n rule: less_induct)
    case (less n)
    have "bit z n = bit (push_bit k z) n" using z by simp
    then have "bit z n \<longleftrightarrow> k \<le> n \<and> n < 64 \<and> bit z (n - k)"
      by (auto simp: bit_push_bit_iff)
    with less k show ?case by auto
  qed
  then show "z = 0" by (simp add: bit_eq_iff)
qed

lemma xor_shr_fixed: "z = drop_bit k z \<Longrightarrow> 0 < k \<Longrightarrow> z = 0" for z :: u64
proof -
  assume z: "z = drop_bit k z" and k: "0 < k"
  have "m \<le> 64 \<Longrightarrow> \<forall>n \<ge> 64 - m. \<not> bit z n" for m
  proof (induction m)
    case 0
    then show ?case by (simp add: bit_word_beyond)
  next
    case (Suc m)
    show ?case
    proof (intro allI impI)
      fix n assume n: "64 - Suc m \<le> n"
      have "bit z n = bit z (k + n)" using z by (metis bit_drop_bit_eq comp_apply)
      moreover have "\<not> bit z (k + n)" using Suc n k by auto
      ultimately show "\<not> bit z n" by simp
    qed
  qed
  from this [of 64] show "z = 0" by (simp add: bit_eq_iff)
qed

lemma xor_eq_zero: "x XOR y = 0 \<Longrightarrow> x = y" for x y :: u64
  by (auto simp: bit_eq_iff bit_xor_iff)

lemma stage_inj:
  assumes lin: "\<And>x y. h (x XOR y) = h x XOR h y" and fix0: "\<And>z. z = h z \<Longrightarrow> z = (0 :: u64)"
    and eq: "x XOR h x = y XOR h y"
  shows "x = y"
proof -
  have "(x XOR y) XOR h (x XOR y) = (x XOR h x) XOR (y XOR h y)"
    by (simp add: lin ac_simps)
  also have "\<dots> = 0" using eq by simp
  finally have "x XOR y = h (x XOR y)" by (rule xor_eq_zero)
  then have "x XOR y = 0" by (rule fix0)
  then show ?thesis by (rule xor_eq_zero)
qed

lemma stage_shl_inj: "0 < k \<Longrightarrow> x XOR push_bit k x = y XOR push_bit k y \<Longrightarrow> x = y" for x y :: u64
  by (rule stage_inj [where h = "push_bit k"]) (auto simp: push_bit_xor dest: xor_shl_fixed)

lemma stage_shr_inj: "0 < k \<Longrightarrow> x XOR drop_bit k x = y XOR drop_bit k y \<Longrightarrow> x = y" for x y :: u64
  by (rule stage_inj [where h = "drop_bit k"]) (auto simp: drop_bit_xor dest: xor_shr_fixed)

interpretation xorshift: permuting_generator "\<lambda>s. snd (rand s)" 0
proof unfold_locales
  fix x y assume "snd (rand x) = snd (rand y)"
  then have "(x XOR push_bit 13 x) XOR drop_bit 7 (x XOR push_bit 13 x)
      = (y XOR push_bit 13 y) XOR drop_bit 7 (y XOR push_bit 13 y)"
    unfolding rand_def Let_def snd_conv by (rule stage_shl_inj [rotated]) simp
  then have "x XOR push_bit 13 x = y XOR push_bit 13 y"
    by (rule stage_shr_inj [rotated]) simp
  then show "x = y" by (rule stage_shl_inj [rotated]) simp
next
  show "snd (rand 0) = 0" by (simp add: rand_def)
qed

lemma rand_fst: "fst (rand s) = snd (rand s)"
  by (simp add: rand_def Let_def)

section \<open>Properties\<close>

text \<open>
  C40: \<open>rand\<close> never gets stuck and loses no state: from any non-zero seed no number of
  draws produces zero, and the seed itself comes back after finitely many draws (the
  generator is a permutation of the 64-bit states).
\<close>

theorem rand_live_and_periodic:
  assumes "seed \<noteq> 0"
  shows "(\<forall>n. ((\<lambda>s. snd (rand s)) ^^ n) (rand_init seed) \<noteq> 0)
    \<and> (\<exists>n > 0. ((\<lambda>s. snd (rand s)) ^^ n) (rand_init seed) = rand_init seed)"
  using assms xorshift.run_live xorshift.run_returns by (simp add: rand_init_def)

theorem rand_live_and_periodic_witness:
  "((\<lambda>s. snd (rand s)) ^^ 2) (rand_init 0xaddc0defe3d5ee3d) \<noteq> 0"
  using rand_live_and_periodic [of "0xaddc0defe3d5ee3d"] by simp

end
