(* ===== verification/Fifo.thy ===== *)
theory Fifo
  imports Prelude
begin

text \<open>
  The contract of a bounded first-in first-out buffer, as its clients use it: the
  queue of \<open>software/c_progs/lib/queue.c\<close> and the receive and transmit rings of the
  JTAG UART driver are its providers.  What the clients get from it is proved once,
  here: nothing is lost, duplicated or reordered by any sequence of operations.
\<close>

datatype 'a fifo_op = Put 'a | Take nat

locale bounded_fifo =
  fixes ok :: "'q \<Rightarrow> bool"
    and contents :: "'q \<Rightarrow> 'a list"
    and space :: "'q \<Rightarrow> nat"
    and put :: "'a \<Rightarrow> 'q \<Rightarrow> 'q option"
    and advance :: "nat \<Rightarrow> 'q \<Rightarrow> 'q option"
  assumes put_ok: "ok q \<Longrightarrow> 0 < space q \<Longrightarrow>
      \<exists>q'. put v q = Some q' \<and> ok q' \<and> contents q' = contents q @ [v] \<and> space q' = space q - 1"
    and advance_ok: "ok q \<Longrightarrow> n \<le> length (contents q) \<Longrightarrow>
      \<exists>q'. advance n q = Some q' \<and> ok q' \<and> contents q' = drop n (contents q) \<and> space q \<le> space q'"
begin

lemma put_all:
  "ok q \<Longrightarrow> length vs \<le> space q \<Longrightarrow>
   \<exists>q'. foldM put vs q = Some q' \<and> ok q' \<and> contents q' = contents q @ vs
      \<and> space q' = space q - length vs"
proof (induction vs arbitrary: q)
  case Nil
  then show ?case by simp
next
  case (Cons v vs)
  from Cons.prems put_ok [of q v] obtain q1 where q1: "put v q = Some q1" "ok q1"
    "contents q1 = contents q @ [v]" "space q1 = space q - 1" by auto
  with Cons.prems Cons.IH [of q1] show ?case by auto
qed

text \<open>
  A client's session: elements put in, and elements read off the front (a read copies
  the front of the contents, then advances past it).
\<close>

fun session :: "'a fifo_op list \<Rightarrow> 'q \<Rightarrow> ('a list \<times> 'q) option" where
  "session [] q = Some ([], q)"
| "session (Put v # ops) q = (case put v q of None \<Rightarrow> None | Some q' \<Rightarrow> session ops q')"
| "session (Take n # ops) q =
     (case advance n q of None \<Rightarrow> None
      | Some q' \<Rightarrow> map_option (\<lambda>(out, q''). (take n (contents q) @ out, q'')) (session ops q'))"

fun inputs :: "'a fifo_op list \<Rightarrow> 'a list" where
  "inputs [] = []"
| "inputs (Put v # ops) = v # inputs ops"
| "inputs (Take n # ops) = inputs ops"

fun fits :: "'a fifo_op list \<Rightarrow> 'q \<Rightarrow> bool" where
  "fits [] q = True"
| "fits (Put v # ops) q = (0 < space q \<and> (\<forall>q'. put v q = Some q' \<longrightarrow> fits ops q'))"
| "fits (Take n # ops) q =
     (n \<le> length (contents q) \<and> (\<forall>q'. advance n q = Some q' \<longrightarrow> fits ops q'))"

lemma session_conserves:
  "ok q \<Longrightarrow> fits ops q \<Longrightarrow>
   \<exists>out q'. session ops q = Some (out, q') \<and> ok q'
      \<and> out @ contents q' = contents q @ inputs ops"
proof (induction ops q rule: session.induct)
  case (1 q)
  then show ?case by simp
next
  case (2 v ops q)
  then show ?case using put_ok [of q v] by fastforce
next
  case (3 n ops q)
  from 3(2,3) advance_ok [of q n] obtain q1 where q1: "advance n q = Some q1" "ok q1"
    "contents q1 = drop n (contents q)" by auto
  with 3 obtain out q' where "session ops q1 = Some (out, q')" "ok q'"
    "out @ contents q' = drop n (contents q) @ inputs ops" by auto
  then show ?case using q1
    by (auto simp: append_assoc [symmetric] simp del: append_assoc)
       (simp only: append_assoc, simp)
qed

end

end
