(* ===== verification/CQueue.thy ===== *)
theory CQueue
  imports Fifo "HOL-Library.Multiset"
begin

text \<open>
  The array queue of \<open>software/c_progs/lib/queue.c\<close>: a linear buffer of
  \<open>MAX_QUEUE_SIZE\<close> 32-bit entries with indices \<open>first\<close> and \<open>last\<close> and a
  \<open>size\<close>, holding (key, item) pairs in neighbouring cells for \<open>sort\<close> and
  \<open>find\<close>.  The indices are 64-bit unsigned, as \<open>unsigned long\<close> is on the target;
  \<open>last\<close> starts as \<open>-1\<close>, the all-ones word.
\<close>

section \<open>The queue\<close>

definition MAX_QUEUE_SIZE :: nat where
  "MAX_QUEUE_SIZE = 64"

record queue =
  q_data :: "u32 list"
  q_first :: u64
  q_last :: u64
  q_size :: u64

definition queue_init :: "u32 list \<Rightarrow> queue" where
  \<comment> \<open>the entries start with whatever the stack held\<close>
  "queue_init junk = \<lparr>q_data = junk, q_first = 0, q_last = - 1, q_size = 0\<rparr>"

definition is_empty :: "queue \<Rightarrow> bool" where
  "is_empty q \<longleftrightarrow> q_size q = 0"

definition is_full :: "queue \<Rightarrow> bool" where
  "is_full q \<longleftrightarrow> q_size q = of_nat MAX_QUEUE_SIZE"

definition enqueue :: "queue \<Rightarrow> u32 \<Rightarrow> queue option" where
  "enqueue q v =
     (if \<not> is_full q then do {
        let l = q_last q + 1;
        d \<leftarrow> wr (q_data q) (unat l) v;
        Some (q\<lparr>q_data := d, q_last := l, q_size := q_size q + 1\<rparr>)
      } else Some q)"

definition dequeue :: "queue \<Rightarrow> u32 \<Rightarrow> queue" where
  "dequeue q n =
     (if \<not> is_empty q \<and> 0 < n
      then q\<lparr>q_first := q_first q + ucast n, q_size := q_size q - ucast n\<rparr>
      else q)"

definition swap :: "u32 list \<Rightarrow> u32 \<Rightarrow> u32 \<Rightarrow> u32 list option" where
  "swap d i j = do {
     temp \<leftarrow> rd d (unat i);
     dj \<leftarrow> rd d (unat j);
     d \<leftarrow> wr d (unat i) dj;
     wr d (unat j) temp
   }"

text \<open>
  The two loops of \<open>sort\<close>.  The index \<open>j\<close> is a 32-bit unsigned and is compared
  with the 64-bit \<open>last - 1\<close>.  \<open>None\<close> is an access outside \<open>data\<close> or a loop
  that does not end.
\<close>

partial_function (option) sort_pass :: "u32 \<Rightarrow> queue \<Rightarrow> queue option" where
  "sort_pass j q =
     (if (ucast j :: u64) < q_last q - 1 then do {
        later \<leftarrow> rd (q_data q) (unat (j + 2));
        here \<leftarrow> rd (q_data q) (unat j);
        d \<leftarrow> (if later < here
              then do { d \<leftarrow> swap (q_data q) j (j + 2); swap d (j + 1) (j + 3) }
              else Some (q_data q));
        sort_pass (j + 2) (q\<lparr>q_data := d\<rparr>)
      } else Some q)"

partial_function (option) sort_passes :: "u32 \<Rightarrow> queue \<Rightarrow> queue option" where
  "sort_passes i q =
     (if (ucast i :: u64) < drop_bit 1 (q_size q) then do {
        q \<leftarrow> sort_pass (ucast (q_first q)) q;
        sort_passes (i + 1) q
      } else Some q)"

definition sort_queue :: "queue \<Rightarrow> queue option" where
  "sort_queue q = sort_passes 0 q"

text \<open>\<open>INFINITY\<close> is \<open>~0\<close>, as the including program defines it (\<open>dtn.c\<close>).\<close>

partial_function (option) find_loop :: "u32 \<Rightarrow> queue \<Rightarrow> u32 \<Rightarrow> u32 option" where
  "find_loop i q item =
     (if (ucast i :: u64) < q_last q then do {
        v \<leftarrow> rd (q_data q) (unat i);
        if v = item then Some i else find_loop (i + 2) q item
      } else Some (- 1))"

definition find_item :: "queue \<Rightarrow> u32 \<Rightarrow> u32 option" where
  "find_item q item = do {
     index \<leftarrow> find_loop (ucast (q_first q) + 1) q item;
     Some (index - 1)
   }"

section \<open>Well-formed queues and their contents\<close>

definition wf_queue :: "queue \<Rightarrow> bool" where
  "wf_queue q \<longleftrightarrow> length (q_data q) = MAX_QUEUE_SIZE
     \<and> unat (q_first q) + unat (q_size q) \<le> MAX_QUEUE_SIZE
     \<and> q_last q = q_first q + q_size q - 1"

definition live :: "queue \<Rightarrow> u32 list" where
  "live q = take (unat (q_size q)) (drop (unat (q_first q)) (q_data q))"

definition free_cells :: "queue \<Rightarrow> nat" where
  "free_cells q = MAX_QUEUE_SIZE - (unat (q_first q) + unat (q_size q))"

lemma wf_queue_init: "length junk = MAX_QUEUE_SIZE \<Longrightarrow> wf_queue (queue_init junk)"
  by (simp add: wf_queue_def queue_init_def)

lemma live_init: "live (queue_init junk) = []"
  by (simp add: live_def queue_init_def)

lemma length_live: "wf_queue q \<Longrightarrow> length (live q) = unat (q_size q)"
  by (auto simp: live_def wf_queue_def)

lemma wf_last_plus_1:
  "wf_queue q \<Longrightarrow> unat (q_last q + 1) = unat (q_first q) + unat (q_size q)"
  by (simp add: wf_queue_def MAX_QUEUE_SIZE_def unat_plus_if_small)

lemma is_full_iff: "is_full q \<longleftrightarrow> unat (q_size q) = 64"
  by (simp add: is_full_def MAX_QUEUE_SIZE_def word_unat_eq_iff)

lemma enqueue_space:
  assumes "wf_queue q" and "0 < free_cells q"
  shows "\<exists>q'. enqueue q v = Some q' \<and> wf_queue q' \<and> live q' = live q @ [v]
    \<and> free_cells q' = free_cells q - 1"
proof -
  let ?f = "unat (q_first q)" and ?n = "unat (q_size q)"
  have b: "?f + ?n < 64" "length (q_data q) = 64"
    using assms by (auto simp: wf_queue_def free_cells_def MAX_QUEUE_SIZE_def)
  have l: "unat (q_last q + 1) = ?f + ?n" using assms(1) by (rule wf_last_plus_1)
  have s: "unat (q_size q + 1) = Suc ?n"
    using b unat_plus_if_small [of "q_size q" 1] by simp
  have "take (Suc ?n) (drop ?f ((q_data q)[?f + ?n := v])) = take ?n (drop ?f (q_data q)) @ [v]"
    using b by (simp add: drop_update_swap take_Suc_conv_app_nth)
  then show ?thesis using assms b l s
    by (auto simp: enqueue_def is_full_iff wr_in wf_queue_def live_def free_cells_def
        MAX_QUEUE_SIZE_def algebra_simps)
qed

definition dequeue_nat :: "nat \<Rightarrow> queue \<Rightarrow> queue option" where
  "dequeue_nat n q = Some (dequeue q (of_nat n))"

lemma dequeue_ok:
  assumes "wf_queue q" and "n \<le> length (live q)"
  shows "wf_queue (dequeue q (of_nat n)) \<and> live (dequeue q (of_nat n)) = drop n (live q)
    \<and> free_cells (dequeue q (of_nat n)) = free_cells q"
proof (cases "n = 0")
  case True
  then show ?thesis using assms by (simp add: dequeue_def)
next
  case False
  have n: "n \<le> unat (q_size q)" "n \<le> 64" "unat (q_first q) + unat (q_size q) \<le> 64"
    using assms by (auto simp: length_live wf_queue_def MAX_QUEUE_SIZE_def)
  have w: "unat (ucast (of_nat n :: u32) :: u64) = n"
    using n by (simp add: unsigned_ucast_eq unsigned_of_nat take_bit_nat_eq_self)
  have f: "unat (q_first q + ucast (of_nat n :: u32)) = unat (q_first q) + n"
    using n w unat_plus_if_small [of "q_first q" "ucast (of_nat n :: u32)"] by simp
  have s: "unat (q_size q - ucast (of_nat n :: u32)) = unat (q_size q) - n"
    using n w by (simp add: unat_sub word_le_nat_alt)
  have "(of_nat n :: u32) \<noteq> 0" "q_size q \<noteq> 0"
    using False n by (auto simp: word_unat_eq_iff unat_of_nat)
  then have "dequeue q (of_nat n) = q\<lparr>q_first := q_first q + ucast (of_nat n :: u32),
      q_size := q_size q - ucast (of_nat n :: u32)\<rparr>"
    by (simp add: dequeue_def is_empty_def word_gt_0)
  then show ?thesis using assms n f s
    by (auto simp: wf_queue_def live_def free_cells_def MAX_QUEUE_SIZE_def drop_take
        algebra_simps)
qed

interpretation queue_fifo: bounded_fifo wf_queue live free_cells "\<lambda>v q. enqueue q v" dequeue_nat
proof unfold_locales
  show "wf_queue q \<Longrightarrow> 0 < free_cells q \<Longrightarrow> \<exists>q'. enqueue q v = Some q' \<and> wf_queue q'
      \<and> live q' = live q @ [v] \<and> free_cells q' = free_cells q - 1" for q v
    by (rule enqueue_space)
qed (simp add: dequeue_ok dequeue_nat_def)

section \<open>Sorting\<close>

text \<open>
  The reference: one pass of bubble sort over the list of pairs, comparing keys; the
  queue stores the list flattened.
\<close>

fun bubble :: "('k::linorder \<times> 'v) list \<Rightarrow> ('k \<times> 'v) list" where
  "bubble (x # y # zs) = (if fst y < fst x then y # bubble (x # zs) else x # bubble (y # zs))"
| "bubble xs = xs"

fun flat :: "('a \<times> 'a) list \<Rightarrow> 'a list" where
  "flat [] = []"
| "flat ((a, b) # ps) = a # b # flat ps"

lemma length_flat [simp]: "length (flat ps) = 2 * length ps"
  by (induction ps rule: flat.induct) auto

lemma flat_append: "flat (ps @ qs) = flat ps @ flat qs"
  by (induction ps rule: flat.induct) auto

lemma length_bubble [simp]: "length (bubble xs) = length xs"
  by (induction xs rule: bubble.induct) auto

lemma mset_bubble: "mset (bubble xs) = mset xs"
  by (induction xs rule: bubble.induct) (auto simp: add_mset_commute)

lemma bubble_stable: "filter (\<lambda>p. fst p = k) (bubble xs) = filter (\<lambda>p. fst p = k) xs"
  by (induction xs rule: bubble.induct) auto

lemma set_bubble: "set (bubble xs) = set xs"
  using mset_bubble by (metis set_mset_mset)

lemma bubble_last_max: "p \<in> set xs \<Longrightarrow> fst p \<le> fst (last (bubble xs))"
proof (induction xs arbitrary: p rule: bubble.induct)
  case (1 x y zs)
  have ne: "bubble (x # zs) \<noteq> []" "bubble (y # zs) \<noteq> []"
    by (metis length_bubble length_0_conv list.distinct(1))+
  show ?case
  proof (cases "fst y < fst x")
    case True
    then have le: "fst q \<le> fst (last (bubble (x # zs)))" if "q \<in> set (x # zs)" for q
      using 1(1) that by blast
    have "last (bubble (x # y # zs)) = last (bubble (x # zs))" using True ne by simp
    with le [of x] le [of p] 1(3) True show ?thesis by auto
  next
    case False
    then have le: "fst q \<le> fst (last (bubble (y # zs)))" if "q \<in> set (y # zs)" for q
      using 1(2) that by blast
    have "last (bubble (x # y # zs)) = last (bubble (y # zs))" using False ne by simp
    with le [of y] le [of p] 1(3) False show ?thesis by auto
  qed
qed auto

lemma bubble_sorted_id: "sorted (map fst xs) \<Longrightarrow> bubble xs = xs"
  by (induction xs rule: bubble.induct) auto

lemma bubble_append_sorted:
  "\<forall>p \<in> set xs. \<forall>q \<in> set ys. fst p \<le> fst q \<Longrightarrow> sorted (map fst ys)
   \<Longrightarrow> bubble (xs @ ys) = bubble xs @ ys"
proof (induction xs rule: bubble.induct)
  case (1 x y zs)
  then show ?case by auto
next
  case "2_1"
  then show ?case by (simp add: bubble_sorted_id)
next
  case "2_2"
  then show ?case by (cases ys) (auto simp: bubble_sorted_id)
qed

text \<open>After \<open>k\<close> passes the last \<open>k\<close> pairs are in place.\<close>

lemma bubbles_suffix:
  "k \<le> length xs \<Longrightarrow>
   \<exists>zs ys. (bubble ^^ k) xs = zs @ ys \<and> length ys = k \<and> sorted (map fst ys)
     \<and> (\<forall>p \<in> set zs. \<forall>q \<in> set ys. fst p \<le> fst q)"
proof (induction k)
  case 0
  then show ?case by auto
next
  case (Suc k)
  then obtain zs ys where zy: "(bubble ^^ k) xs = zs @ ys" "length ys = k" "sorted (map fst ys)"
    "\<forall>p \<in> set zs. \<forall>q \<in> set ys. fst p \<le> fst q" by auto
  have len: "length ((bubble ^^ k) xs) = length xs"
    by (induction k) auto
  then have "zs \<noteq> []" using Suc.prems zy by auto
  then have ne: "bubble zs \<noteq> []" by (metis length_bubble length_0_conv)
  let ?m = "last (bubble zs)"
  have split: "bubble zs = butlast (bubble zs) @ [?m]" using ne by simp
  have m: "?m \<in> set zs" using ne set_bubble by (metis last_in_set)
  have "(bubble ^^ Suc k) xs = bubble zs @ ys"
    using zy by (simp add: bubble_append_sorted)
  then have "(bubble ^^ Suc k) xs = butlast (bubble zs) @ (?m # ys)"
    using split by (metis append.assoc append_Cons append_Nil)
  moreover have "\<forall>p \<in> set (butlast (bubble zs)). \<forall>q \<in> set (?m # ys). fst p \<le> fst q"
    using zy bubble_last_max m set_bubble by (metis in_set_butlastD set_ConsD)
  ultimately show ?case using zy m by (intro exI [of _ "butlast (bubble zs)"] exI [of _ "?m # ys"]) auto
qed

lemma mset_bubbles: "mset ((bubble ^^ k) xs) = mset xs"
  by (induction k) (auto simp: mset_bubble)

lemma bubbles_stable: "filter (\<lambda>p. fst p = c) ((bubble ^^ k) xs) = filter (\<lambda>p. fst p = c) xs"
  by (induction k) (auto simp: bubble_stable)

lemma length_bubbles [simp]: "length ((bubble ^^ k) xs) = length xs"
  by (induction k) auto

lemma bubbles_sort: "(bubble ^^ length xs) xs = sort_key fst xs"
proof (rule properties_for_sort_key [symmetric])
  show "mset ((bubble ^^ length xs) xs) = mset xs" by (rule mset_bubbles)
  show "filter (\<lambda>p. fst k = fst p) ((bubble ^^ length xs) xs) = filter (\<lambda>p. fst k = fst p) xs" for k
    using bubbles_stable [of "fst k" "length xs" xs] by (simp add: eq_commute [of "fst k"])
  obtain zs ys where zy: "(bubble ^^ length xs) xs = zs @ ys" "length ys = length xs"
    "sorted (map fst ys)"
    using bubbles_suffix [of "length xs" xs] by auto
  then have "zs = []" by (metis add_cancel_left_left length_append length_bubbles length_0_conv)
  with zy show "sorted (map fst ((bubble ^^ length xs) xs))" by simp
qed

text \<open>
  One pass of the code over a segment of the array is \<open>bubble\<close> on its pairs.
\<close>

lemma swap_in:
  "unat i < length d \<Longrightarrow> unat j < length d \<Longrightarrow>
   swap d i j = Some (d[unat i := d ! unat j, unat j := d ! unat i])"
  by (simp add: swap_def array_simps)

lemma sort_pass_segment:
  fixes ps :: "(u32 \<times> u32) list"
  assumes "q_data q = pre @ flat ps @ post" and "ps \<noteq> []"
    and "length pre + 2 * length ps \<le> 64"
    and "unat (q_last q) + 1 = length pre + 2 * length ps"
  shows "sort_pass (of_nat (length pre)) q = Some (q\<lparr>q_data := pre @ flat (bubble ps) @ post\<rparr>)"
  using assms
proof (induction ps arbitrary: pre q rule: bubble.induct)
  case (1 x y zs)
  let ?j = "length pre"
  obtain xa xb where x: "x = (xa, xb)" by (cases x)
  obtain ya yb where y: "y = (ya, yb)" by (cases y)
  have bound: "?j + 4 + 2 * length zs \<le> 64" using 1 by simp
  have idx: "unat (of_nat ?j + k :: u32) = ?j + unat k" if "unat k \<le> 3" for k :: u32
    using bound that unat_plus_if_small [of "of_nat ?j :: u32" k] by (simp add: unat_u32_small)
  have idx': "unat (of_nat ?j :: u32) = ?j" "unat (of_nat ?j + 1 :: u32) = ?j + 1"
    "unat (of_nat ?j + 2 :: u32) = ?j + 2" "unat (of_nat ?j + 3 :: u32) = ?j + 3"
    using idx [of 0] idx [of 1] idx [of 2] idx [of 3] by simp_all
  have step: "(of_nat ?j + 2 :: u32) = of_nat (length (pre @ [c, d]))" for c d :: u32
    by simp
  have last: "unat (q_last q - 1) = ?j + 2 + 2 * length zs"
    using 1(6) by (simp add: unat_le_sub word_le_nat_alt)
  have guard: "(ucast (of_nat ?j :: u32) :: u64) < q_last q - 1"
    using bound last by (simp add: ucast_u32_less)
  define m where "m = (if fst y < fst x then y else x)"
  define w where "w = (if fst y < fst x then x else y)"
  have bub: "bubble (x # y # zs) = m # bubble (w # zs)" by (simp add: m_def w_def)
  obtain ma mb where m: "m = (ma, mb)" by (cases m)
  have dat: "q_data q = pre @ xa # xb # ya # yb # flat zs @ post" using 1 x y by simp
  have body: "sort_pass (of_nat ?j) q = sort_pass (of_nat ?j + 2)
      (q\<lparr>q_data := (pre @ [ma, mb]) @ flat (w # zs) @ post\<rparr>)"
    using guard dat m x y
    by (subst sort_pass.simps)
       (simp add: idx' rd_in swap_in nth_append list_update_append m_def w_def split: if_splits)
  have "sort_pass (of_nat (length (pre @ [ma, mb]))) (q\<lparr>q_data := (pre @ [ma, mb]) @ flat (w # zs) @ post\<rparr>)
     = Some (q\<lparr>q_data := (pre @ [ma, mb]) @ flat (w # zs) @ post\<rparr>
               \<lparr>q_data := (pre @ [ma, mb]) @ flat (bubble (w # zs)) @ post\<rparr>)"
  proof (cases "fst y < fst x")
    case True
    then show ?thesis using 1(4,5,6)
        1(1) [OF True, of "q\<lparr>q_data := (pre @ [ma, mb]) @ flat (w # zs) @ post\<rparr>" "pre @ [ma, mb]"]
      by (simp add: w_def)
  next
    case False
    then show ?thesis using 1(4,5,6)
        1(2) [OF False, of "q\<lparr>q_data := (pre @ [ma, mb]) @ flat (w # zs) @ post\<rparr>" "pre @ [ma, mb]"]
      by (simp add: w_def)
  qed
  then show ?case using body bub m by (simp add: add.commute [of 2] del: bubble.simps)
next
  case "2_1"
  then show ?case by simp
next
  case "2_2"
  have "unat (q_last q) = length pre + 1" using "2_2" by simp
  then have "\<not> (ucast (of_nat (length pre) :: u32) :: u64) < q_last q - 1"
    using "2_2" by (simp add: ucast_u32_less unat_le_sub word_le_nat_alt)
  then show ?case using "2_2" by (subst sort_pass.simps) simp
qed

lemma sort_passes_segment:
  assumes "q_data q = pre @ flat ps @ post" and "length pre + 2 * length ps \<le> 64"
    and "unat (q_last q) + 1 = length pre + 2 * length ps"
    and "q_first q = of_nat (length pre)" and "unat (q_size q) = 2 * length ps"
    and "k \<le> length ps"
  shows "sort_passes (of_nat (length ps - k)) q
    = Some (q\<lparr>q_data := pre @ flat ((bubble ^^ k) ps) @ post\<rparr>)"
  using assms
proof (induction k arbitrary: ps q)
  case 0
  have "unat (drop_bit 1 (q_size q)) = length ps"
    using 0 by (simp add: drop_bit_eq_div unat_div_distrib)
  then have "\<not> (ucast (of_nat (length ps) :: u32) :: u64) < drop_bit 1 (q_size q)"
    using 0 by (simp add: ucast_u32_less)
  then show ?case using 0 by (subst sort_passes.simps) simp
next
  case (Suc k)
  let ?i = "length ps - Suc k"
  have "ps \<noteq> []" using Suc.prems by auto
  have "unat (drop_bit 1 (q_size q)) = length ps"
    using Suc.prems by (simp add: drop_bit_eq_div unat_div_distrib)
  then have guard: "(ucast (of_nat ?i :: u32) :: u64) < drop_bit 1 (q_size q)"
    using Suc.prems by (subst ucast_u32_less) (simp_all del: of_nat_diff)
  have start: "(ucast (q_first q) :: u32) = of_nat (length pre)"
    using Suc.prems by (simp add: ucast_u64_u32)
  have next_i: "of_nat ?i + 1 = (of_nat (length ps - k) :: u32)"
    using Suc.prems by (metis Suc_diff_Suc Suc_le_lessD add.commute of_nat_Suc)
  let ?q1 = "q\<lparr>q_data := pre @ flat (bubble ps) @ post\<rparr>"
  have pass: "sort_pass (ucast (q_first q)) q = Some ?q1"
    unfolding start using Suc.prems \<open>ps \<noteq> []\<close> by (intro sort_pass_segment) simp_all
  have "sort_passes (of_nat ?i) q = sort_passes (of_nat (length ps - k)) ?q1"
    by (subst sort_passes.simps) (simp only: guard if_True pass bind.bind_lunit next_i)
  also have "\<dots> = Some (q\<lparr>q_data := pre @ flat ((bubble ^^ k) (bubble ps)) @ post\<rparr>)"
    using Suc.IH [of ?q1 "bubble ps"] Suc.prems by simp
  finally show ?case by (simp add: funpow_swap1)
qed

section \<open>Searching\<close>

fun find_index :: "('a \<Rightarrow> bool) \<Rightarrow> 'a list \<Rightarrow> nat option" where
  "find_index P [] = None"
| "find_index P (x # xs) = (if P x then Some 0 else map_option Suc (find_index P xs))"

lemma find_index_None: "(find_index P xs = None) = (\<forall>x \<in> set xs. \<not> P x)"
  by (induction xs) auto

lemma find_index_Some:
  "find_index P xs = Some k \<Longrightarrow> k < length xs \<and> P (xs ! k) \<and> (\<forall>j < k. \<not> P (xs ! j))"
proof (induction xs arbitrary: k)
  case (Cons x xs)
  then show ?case by (cases k) (auto split: if_splits simp: nth_Cons' Suc_less_eq2)
qed simp

lemma find_loop_segment:
  fixes ps :: "(u32 \<times> u32) list"
  assumes "q_data q = pre @ flat ps @ post" and "ps \<noteq> []"
    and "length pre + 2 * length ps \<le> 64"
    and "unat (q_last q) + 1 = length pre + 2 * length ps"
  shows "find_loop (of_nat (length pre + 1)) q item
     = Some (case find_index (\<lambda>p. snd p = item) (butlast ps) of None \<Rightarrow> - 1
             | Some k \<Rightarrow> of_nat (length pre + 2 * k + 1))"
  using assms
proof (induction ps arbitrary: pre)
  case Nil
  then show ?case by simp
next
  case (Cons p ps)
  obtain a b where p: "p = (a, b)" by (cases p)
  let ?i = "length pre + 1"
  have i: "unat (of_nat ?i :: u32) = ?i" using Cons.prems by (subst unat_u32_small) auto
  have guard: "(ucast (of_nat ?i :: u32) :: u64) < q_last q \<longleftrightarrow> ps \<noteq> []"
    using Cons.prems by (subst ucast_u32_less) auto
  show ?case
  proof (cases "ps = []")
    case True
    then show ?thesis using guard by (subst find_loop.simps) simp
  next
    case False
    have cell: "rd (q_data q) ?i = Some b" using Cons.prems p by (simp add: rd_def nth_append)
    have IH: "find_loop (of_nat (?i + 2)) q item
      = Some (case find_index (\<lambda>p. snd p = item) (butlast ps) of None \<Rightarrow> - 1
             | Some k \<Rightarrow> of_nat (length pre + 2 + 2 * k + 1))"
      using Cons.IH [of "pre @ [a, b]"] Cons.prems False p
      by (simp add: algebra_simps split: option.splits)
    have "find_loop (of_nat ?i) q item
       = (if b = item then Some (of_nat ?i) else find_loop (of_nat (?i + 2)) q item)"
      using guard False i cell by (subst find_loop.simps) (simp add: ac_simps)
    then show ?thesis using IH False p by (auto split: option.splits)
  qed
qed

section \<open>Properties\<close>

text \<open>
  C29: \<open>sort\<close> is correct: on a well-formed queue whose cells hold the pairs \<open>ps\<close>
  (an even number of entries), the double loop of the code terminates, stays inside the
  array, leaves the cells outside the live region and the indices alone, and leaves the
  pairs stably sorted by their keys.
\<close>

theorem sort_queue_sorts:
  assumes "q_data q = pre @ flat ps @ post" and "length (q_data q) = MAX_QUEUE_SIZE"
    and "q_first q = of_nat (length pre)" and "q_size q = of_nat (2 * length ps)"
    and "q_last q = q_first q + q_size q - 1" and "ps \<noteq> []"
  shows "sort_queue q = Some (q\<lparr>q_data := pre @ flat (sort_key fst ps) @ post\<rparr>)"
proof -
  have b: "length pre + 2 * length ps \<le> 64" using assms by (simp add: MAX_QUEUE_SIZE_def)
  have s: "unat (q_size q) = 2 * length ps"
    using assms(4) b unat_u64_small [of "2 * length ps"] by simp
  have l: "unat (q_last q) + 1 = length pre + 2 * length ps"
  proof -
    have "q_last q + 1 = of_nat (length pre + 2 * length ps)" using assms(3-5) by simp
    then have "unat (q_last q + 1) = length pre + 2 * length ps"
      using b unat_u64_small [of "length pre + 2 * length ps"] by simp
    moreover have "q_last q + 1 \<noteq> 0"
      using calculation assms(6) by (metis add_is_0 length_0_conv mult_is_0 unat_0 zero_neq_numeral)
    ultimately show ?thesis by (simp add: unat_add_1)
  qed
  show ?thesis
    using sort_passes_segment [of q pre ps post "length ps"] assms b s l
    by (simp add: sort_queue_def bubbles_sort)
qed

lemma sort_queue_sorts_witness:
  "sort_queue \<lparr>q_data = [] @ flat [(3, 10), (1, 11), (3, 9), (2, 12)] @ replicate 56 0,
      q_first = 0, q_last = 7, q_size = 8\<rparr>
   = Some \<lparr>q_data = [1, 11, 2, 12, 3, 10, 3, 9] @ replicate 56 0,
      q_first = 0, q_last = 7, q_size = 8\<rparr>"
  by (subst sort_queue_sorts [where pre = "[]" and ps = "[(3, 10), (1, 11), (3, 9), (2, 12)]"
        and post = "replicate 56 0"])
     (simp_all add: MAX_QUEUE_SIZE_def sort_key_def word_le_nat_alt)

text \<open>
  C37: entries leave the queue in the order they were put in: as long as there is room
  behind \<open>last\<close>, enqueuing \<open>vs\<close> appends them to the contents, and dequeuing \<open>n\<close>
  drops the \<open>n\<close> oldest.
\<close>

theorem queue_is_fifo:
  assumes "wf_queue q" and "length vs \<le> free_cells q" and "n \<le> length (live q @ vs)"
  shows "\<exists>q'. foldM (\<lambda>v q. enqueue q v) vs q = Some q' \<and> wf_queue q'
    \<and> live q' = live q @ vs \<and> live (dequeue q' (of_nat n)) = drop n (live q @ vs)"
proof -
  obtain q' where q': "foldM (\<lambda>v q. enqueue q v) vs q = Some q'" "wf_queue q'"
    "live q' = live q @ vs"
    using queue_fifo.put_all [OF assms(1,2)] by blast
  with dequeue_ok [of q' n] assms(3) show ?thesis by simp
qed

lemma queue_is_fifo_witness:
  "\<exists>q'. foldM (\<lambda>v q. enqueue q v) [7, 8, 9] (queue_init (replicate 64 0)) = Some q'
     \<and> wf_queue q' \<and> live q' = [7, 8, 9] \<and> live (dequeue q' 2) = [9]"
proof -
  have "drop 2 [7, 8, 9] = [9 :: u32]" by (simp add: numeral_2_eq_2)
  then show ?thesis
    using queue_is_fifo [of "queue_init (replicate 64 0)" "[7, 8, 9]" 2]
      wf_queue_init [of "replicate 64 0"] live_init [of "replicate 64 0"]
    by (simp add: MAX_QUEUE_SIZE_def free_cells_def queue_init_def del: drop_Cons_numeral)
qed

text \<open>
  every outcome of \<open>enqueue\<close> on a well-formed queue.  A full queue ignores the
  value.  A queue whose live region reaches the end of the array but which is not full
  (possible after any \<open>dequeue\<close>, since the indices never wrap) makes \<open>enqueue\<close>
  write one cell past \<open>data\<close>: the guard tests \<open>size\<close>, the write uses \<open>last\<close>.
\<close>

theorem enqueue_outcomes:
  assumes "wf_queue q"
  shows "enqueue q v =
    (if unat (q_size q) = MAX_QUEUE_SIZE then Some q
     else if unat (q_first q) + unat (q_size q) = MAX_QUEUE_SIZE then None
     else Some (q\<lparr>q_data := (q_data q)[unat (q_first q) + unat (q_size q) := v],
                 q_last := q_first q + q_size q, q_size := q_size q + 1\<rparr>))"
proof -
  have l: "q_last q + 1 = q_first q + q_size q" using assms by (simp add: wf_queue_def)
  have "unat (q_first q + q_size q) = unat (q_first q) + unat (q_size q)"
    "unat (q_first q) + unat (q_size q) \<le> 64" "length (q_data q) = 64"
    using wf_last_plus_1 [OF assms] l assms by (auto simp: wf_queue_def MAX_QUEUE_SIZE_def)
  then show ?thesis by (auto simp: enqueue_def is_full_iff MAX_QUEUE_SIZE_def l wr_def)
qed

lemma enqueue_outcomes_witness:
  "enqueue \<lparr>q_data = replicate 64 0, q_first = 2, q_last = 63, q_size = 62\<rparr> 5 = None"
  using enqueue_outcomes [of "\<lparr>q_data = replicate 64 0, q_first = 2, q_last = 63, q_size = 62\<rparr>" 5]
  by (simp add: wf_queue_def MAX_QUEUE_SIZE_def)

text \<open>
  what \<open>find\<close> computes: the index of the key of the first pair holding the item
  among all pairs but the last, and \<open>INFINITY - 1\<close> if there is none.  The bound
  \<open>i < last\<close> excludes the cell \<open>last\<close> itself, so an item stored in the last pair only
  is reported as absent.
\<close>

theorem find_item_skips_last_pair:
  assumes "q_data q = pre @ flat ps @ post" and "length (q_data q) = MAX_QUEUE_SIZE"
    and "q_first q = of_nat (length pre)"
    and "unat (q_last q) + 1 = length pre + 2 * length ps" and "ps \<noteq> []"
  shows "find_item q item
    = Some (case find_index (\<lambda>p. snd p = item) (butlast ps) of
              None \<Rightarrow> 0xFFFFFFFE | Some k \<Rightarrow> of_nat (length pre + 2 * k))"
proof -
  have b: "length pre + 2 * length ps \<le> 64" using assms by (simp add: MAX_QUEUE_SIZE_def)
  have "ucast (q_first q) + 1 = (of_nat (length pre + 1) :: u32)"
    using assms(3) b by (simp add: ucast_u64_u32 add.commute)
  moreover have "find_loop (of_nat (length pre + 1)) q item
     = Some (case find_index (\<lambda>p. snd p = item) (butlast ps) of None \<Rightarrow> - 1
             | Some k \<Rightarrow> of_nat (length pre + 2 * k + 1))"
    using assms b by (intro find_loop_segment)
  ultimately show ?thesis by (simp only: find_item_def bind.bind_lunit) (simp split: option.splits)
qed

lemma find_item_skips_last_pair_witness:
  "find_item \<lparr>q_data = [] @ flat [(4, 21), (6, 22)] @ replicate 60 0,
      q_first = 0, q_last = 3, q_size = 4\<rparr> 22 = Some 0xFFFFFFFE
   \<and> find_item \<lparr>q_data = [] @ flat [(4, 21), (6, 22)] @ replicate 60 0,
      q_first = 0, q_last = 3, q_size = 4\<rparr> 21 = Some 0"
  using find_item_skips_last_pair [of "\<lparr>q_data = [] @ flat [(4, 21), (6, 22)] @ replicate 60 0,
      q_first = 0, q_last = 3, q_size = 4\<rparr>" "[]" "[(4, 21), (6, 22)]" "replicate 60 0"]
  by (simp add: MAX_QUEUE_SIZE_def)

end
