(* ===== verification/CPrograms.thy ===== *)
theory CPrograms
  imports Prelude
begin

text \<open>
  The two benchmark kernels that are loaded into the softcore for fault injection,
  \<open>csum/csum.c\<close> and \<open>cmatmul/cmatmul.c\<close>, and the \<open>memcpy\<close> of
  \<open>lib/compile_helpers.c\<close> they are linked with.  \<open>long\<close> and \<open>unsigned long\<close> are 64 bits
  on the RV64I target; signed sums and products wrap there.
\<close>

section \<open>Sum of the first numbers\<close>

partial_function (option) sum_loop :: "u64 \<Rightarrow> u64 \<Rightarrow> u64 \<Rightarrow> u64 option" where
  "sum_loop n i result = (if i \<le> n then sum_loop n (i + 1) (result + i) else Some result)"

definition sum_upto :: "u64 \<Rightarrow> u64 option" where
  "sum_upto n = sum_loop n 1 0"

definition csum_main :: "u64 option" where
  "csum_main = sum_upto 0xdc0de"

lemma sum_loop_steps:
  "unat i + d = Suc (unat n) \<Longrightarrow> unat n < 2 ^ 64 - 1
   \<Longrightarrow> sum_loop n i r = Some (r + of_nat (\<Sum>k = unat i..unat n. k))"
proof (induction d arbitrary: i r)
  case 0
  then have "\<not> i \<le> n" by (simp add: word_le_nat_alt)
  then show ?case using 0 by (subst sum_loop.simps) simp
next
  case (Suc d)
  then have le: "i \<le> n" by (simp add: word_le_nat_alt)
  have i1: "unat (i + 1) = Suc (unat i)"
    using Suc.prems unat_plus_if_small [of i 1] by simp
  have "sum_loop n i r = sum_loop n (i + 1) (r + i)"
    using le by (subst sum_loop.simps) simp
  also have "\<dots> = Some (r + i + of_nat (\<Sum>k = Suc (unat i)..unat n. k))"
    using Suc.IH [of "i + 1" "r + i"] Suc.prems i1 by simp
  also have "\<dots> = Some (r + of_nat (\<Sum>k = unat i..unat n. k))"
  proof -
    have "(\<Sum>k = unat i..unat n. k) = unat i + (\<Sum>k = Suc (unat i)..unat n. k)"
      using le by (simp add: sum.atLeast_Suc_atMost word_le_nat_alt)
    then have "of_nat (\<Sum>k = unat i..unat n. k)
        = (i + of_nat (\<Sum>k = Suc (unat i)..unat n. k) :: u64)"
      by simp
    then show ?thesis by (simp add: add.assoc)
  qed
  finally show ?case .
qed

lemma sum_loop_diverges: "sum_loop n i r = Some y \<Longrightarrow> n \<noteq> - 1"
proof (rule sum_loop.raw_induct [where P = "\<lambda>n i r y. n \<noteq> - 1"])
  fix f :: "u64 \<Rightarrow> u64 \<Rightarrow> u64 \<Rightarrow> u64 option" and n i r y
  assume IH: "\<And>n i r y. f n i r = Some y \<Longrightarrow> n \<noteq> - 1"
    and eq: "(if i \<le> n then f n (i + 1) (r + i) else Some r) = Some y"
  show "n \<noteq> - 1"
    using eq IH by (cases "i \<le> n") auto
qed

lemma sum_upto_eq:
  "sum_upto n = (if n = - 1 then None else Some (of_nat (unat n * (unat n + 1) div 2)))"
proof (cases "n = - 1")
  case True
  then show ?thesis
    by (metis sum_upto_def sum_loop_diverges option.exhaust)
next
  case False
  then have "unat n \<noteq> unat (- 1 :: u64)" by (simp only: word_unat_eq_iff [symmetric] not_False_eq_True)
  moreover have "unat (- 1 :: u64) = 2 ^ 64 - 1"
    by (simp add: unsigned_minus_1_eq_mask mask_eq_exp_minus_1)
  ultimately have "unat n \<noteq> 2 ^ 64 - 1" by simp
  moreover have "unat n < 2 ^ 64" by (rule unat_u64_lt)
  ultimately have n: "unat n < 2 ^ 64 - 1" by linarith
  have "(\<Sum>k = 1..m. k) = m * (m + 1) div 2" for m :: nat
    by (induction m) auto
  then show ?thesis using False sum_loop_steps [of 1 "unat n" n 0] n
    by (simp add: sum_upto_def)
qed

text \<open>
  C38: \<open>sum\<close> of \<open>csum.c\<close>: for every argument except the largest 64-bit value the loop
  ends with \<open>n (n + 1) / 2\<close> (modulo \<open>2^64\<close>); for \<open>n = ULONG_MAX\<close> the test
  \<open>i <= n\<close> never fails and the loop does not end.
\<close>

theorem sum_upto_correct:
  "sum_upto n = (if n = - 1 then None else Some (of_nat (unat n * (unat n + 1) div 2)))"
  by (rule sum_upto_eq)

section \<open>Matrix product\<close>

definition MN :: nat where
  "MN = 5"

definition mul_cell :: "u64 list \<Rightarrow> u64 list \<Rightarrow> nat \<Rightarrow> nat \<Rightarrow> nat \<Rightarrow> u64 list \<Rightarrow> u64 list option" where
  "mul_cell a b i j k mul = do {
     x \<leftarrow> rd a (i * MN + k);
     y \<leftarrow> rd b (k * MN + j);
     m \<leftarrow> rd mul (i * MN + j);
     wr mul (i * MN + j) (m + x * y)
   }"

definition mul_entry :: "u64 list \<Rightarrow> u64 list \<Rightarrow> nat \<Rightarrow> nat \<Rightarrow> u64 list \<Rightarrow> u64 list option" where
  "mul_entry a b i j mul = do {
     mul \<leftarrow> wr mul (i * MN + j) 0;
     foldM (mul_cell a b i j) [0..<MN] mul
   }"

definition matrix_mul :: "u64 list \<Rightarrow> u64 list \<Rightarrow> u64 list \<Rightarrow> u64 list option" where
  "matrix_mul a b mul =
     foldM (\<lambda>i mul. foldM (\<lambda>j mul. mul_entry a b i j mul) [0..<MN] mul) [0..<MN] mul"

definition cmatmul_a :: "u64 list" where
  "cmatmul_a = [424, 244, 510, 763, 695, 293, 599, 12, 95,
                745, 179, 415, 404, 745, 61, 298, 973, 257,
                769, 600, 426, 89, 281, 256, 634]"

definition cmatmul_b :: "u64 list" where
  "cmatmul_b = [346, 149, 312, 852, 570, 435, 302, 89, 420,
                260, 892, 123, 960, 213, 357, 334, 693, 263,
                729, 889, 20, 445, 633, 736, 34]"

definition cmatmul_main :: "(u64 list \<times> u64) option" where
  "cmatmul_main = do {
     mul \<leftarrow> foldM (\<lambda>i mul. wr mul i 1) [0..<MN * MN] (replicate (MN * MN) 0);
     mul \<leftarrow> matrix_mul cmatmul_a cmatmul_b mul;
     pad \<leftarrow> rd mul 0;
     Some (mul, pad)
   }"

definition dot :: "u64 list \<Rightarrow> u64 list \<Rightarrow> nat \<Rightarrow> nat \<Rightarrow> nat \<Rightarrow> u64" where
  "dot a b i j n = (\<Sum>k < n. a ! (i * MN + k) * b ! (k * MN + j))"

definition product_cell :: "u64 list \<Rightarrow> u64 list \<Rightarrow> nat \<Rightarrow> u64" where
  "product_cell a b p = dot a b (p div MN) (p mod MN) MN"

lemma cell_bound: "i < MN \<Longrightarrow> j < MN \<Longrightarrow> i * MN + j < MN * MN"
  by (simp add: MN_def)

lemma dot_loop:
  assumes "length a = MN * MN" "length b = MN * MN" "length mul = MN * MN" "i < MN" "j < MN"
  shows "n \<le> MN \<Longrightarrow> foldM (mul_cell a b i j) [0..<n] mul
     = Some (mul[i * MN + j := mul ! (i * MN + j) + dot a b i j n])"
proof (induction n)
  case 0
  then show ?case by (simp add: dot_def)
next
  case (Suc n)
  then have "i * MN + n < MN * MN" "n * MN + j < MN * MN" "i * MN + j < MN * MN"
    using assms cell_bound by simp_all
  then show ?case using Suc assms
    by (simp add: foldM_snoc rd_in wr_in dot_def add.assoc mul_cell_def)
qed

lemma entry_loop:
  assumes "length a = MN * MN" "length b = MN * MN" "length mul = MN * MN" "i < MN" "j < MN"
  shows "mul_entry a b i j mul = Some (mul[i * MN + j := product_cell a b (i * MN + j)])"
proof -
  have "(i * MN + j) div MN = i" "(i * MN + j) mod MN = j" using assms by simp_all
  moreover have "i * MN + j < MN * MN" using assms cell_bound by simp
  ultimately show ?thesis using assms
      dot_loop [of a b "mul[i * MN + j := 0]" i j MN, OF _ _ _ _ _ order_refl]
    by (simp add: mul_entry_def wr_in product_cell_def)
qed

definition filled :: "u64 list \<Rightarrow> u64 list \<Rightarrow> nat \<Rightarrow> u64 list \<Rightarrow> bool" where
  "filled a b n mul \<longleftrightarrow> length mul = MN * MN \<and> (\<forall>p < n. mul ! p = product_cell a b p)"

lemma row_loop:
  assumes "length a = MN * MN" "length b = MN * MN" "i < MN" "filled a b (i * MN) mul"
  shows "\<exists>mul'. foldM (\<lambda>j mul. mul_entry a b i j mul) [0..<MN] mul = Some mul'
    \<and> filled a b (i * MN + MN) mul'"
proof (rule foldM_upt_invariant [where P = "\<lambda>j. filled a b (i * MN + j)"])
  fix j mul assume j: "j < MN" and f: "filled a b (i * MN + j) mul"
  have "i * MN + j < MN * MN" using assms j cell_bound by simp
  with f j assms show "\<exists>mul'. mul_entry a b i j mul = Some mul' \<and> filled a b (i * MN + Suc j) mul'"
    by (auto simp: entry_loop filled_def nth_list_update less_Suc_eq)
qed (use assms in simp_all)

text \<open>
  C39: \<open>matrix_mul\<close> is the matrix product: on 5 by 5 row-major arrays the triple loop
  never leaves its arrays and cell \<open>(i, j)\<close> of the result is the sum over \<open>k\<close> of
  \<open>a(i, k) b(k, j)\<close>, whatever \<open>mul\<close> held before.
\<close>

theorem matrix_mul_correct:
  assumes "length a = MN * MN" "length b = MN * MN" "length mul = MN * MN"
  shows "matrix_mul a b mul = Some (map (\<lambda>p. \<Sum>k < MN. a ! (p div MN * MN + k) * b ! (k * MN + p mod MN))
    [0..<MN * MN])"
proof -
  have "\<exists>mul'. matrix_mul a b mul = Some mul' \<and> filled a b (MN * MN) mul'"
    unfolding matrix_mul_def
  proof (rule foldM_upt_invariant [where P = "\<lambda>i. filled a b (i * MN)"])
    show "filled a b (0 * MN) mul" using assms by (simp add: filled_def)
    fix i mul assume "i < MN" "filled a b (i * MN) mul"
    with row_loop [of a b i mul] assms
    show "\<exists>mul'. foldM (\<lambda>j mul. mul_entry a b i j mul) [0..<MN] mul = Some mul'
        \<and> filled a b (Suc i * MN) mul'"
      by (simp add: add.commute)
  qed simp
  then show ?thesis
    by (auto simp: filled_def product_cell_def dot_def intro!: nth_equalityI)
qed

lemma matrix_mul_correct_witness:
  "\<exists>c. matrix_mul (replicate 25 2) (replicate 25 3) (replicate 25 1) = Some c \<and> c ! 7 = 30"
  using matrix_mul_correct [of "replicate 25 2" "replicate 25 3" "replicate 25 1"]
  by (simp add: MN_def lessThan_nat_numeral)

text \<open>
  the program's own test: \<open>main\<close> leaves in \<open>mul\<close> exactly the matrix that the
  comment in \<open>cmatmul.c\<close> lists as expected.
\<close>

theorem cmatmul_main_expected:
  "cmatmul_main = Some (
     [976506, 1037628, 1284208, 1640105, 1189127,
      419277, 623391, 652817, 1121347, 436819,
      852877, 745123, 715171, 1000861, 1018537,
      1024453, 1169776, 1008340, 1719498, 1218630,
      534947, 584453, 879243, 1113433, 615417], 976506)"
  by code_simp

text \<open>
  the value the softcore must show for \<open>csum\<close>: \<open>main\<close> computes the sum of the
  first \<open>0xdc0de\<close> numbers, with no overflow.
\<close>

theorem csum_main_value: "csum_main = Some 406209151153"
  by (simp add: csum_main_def sum_upto_eq)

section \<open>memcpy\<close>

type_synonym memory = "u64 \<Rightarrow> u8"

definition copy_byte :: "u64 \<Rightarrow> u64 \<Rightarrow> nat \<Rightarrow> memory \<Rightarrow> memory" where
  "copy_byte dest src i mem = mem(dest + of_nat i := mem (src + of_nat i))"

definition memcpy :: "u64 \<Rightarrow> u64 \<Rightarrow> u64 \<Rightarrow> memory \<Rightarrow> u64 \<times> memory" where
  "memcpy dest src n mem =
     (dest, fold (copy_byte dest src) [0..<unat n] mem)"

lemma memcpy_steps:
  fixes src dest a :: u64 and mem :: memory
  assumes "\<And>k l. k < m \<Longrightarrow> l < k \<Longrightarrow> src + of_nat k \<noteq> dest + of_nat l"
    and "m \<le> 2 ^ 64"
  shows "fold (copy_byte dest src) [0..<m] mem a
    = (if unat (a - dest) < m then mem (src + (a - dest)) else mem a)"
  using assms
proof (induction m arbitrary: a)
  case 0
  then show ?case by simp
next
  case (Suc m)
  let ?f = "fold (copy_byte dest src) [0..<m] mem"
  have IH: "?f b = (if unat (b - dest) < m then mem (src + (b - dest)) else mem b)" for b
    by (rule Suc.IH) (use Suc.prems in simp_all)
  have m: "unat (of_nat m :: u64) = m" using Suc.prems by (intro unat_u64_small) simp
  have at: "a = dest + of_nat m \<longleftrightarrow> unat (a - dest) = m"
  proof
    show "a = dest + of_nat m \<Longrightarrow> unat (a - dest) = m" using m by simp
    show "unat (a - dest) = m \<Longrightarrow> a = dest + of_nat m" by (metis add.commute diff_add_cancel of_nat_unat ucast_id)
  qed
  have src_clean: "?f (src + of_nat m) = mem (src + of_nat m)"
  proof (cases "unat (src + of_nat m - dest) < m")
    case True
    let ?l = "unat (src + of_nat m - dest)"
    have "src + of_nat m = dest + of_nat ?l" by simp
    with Suc.prems(1) [of m ?l] True show ?thesis by simp
  next
    case False
    then show ?thesis using IH by simp
  qed
  have "fold (copy_byte dest src) [0..<Suc m] mem a
      = (if a = dest + of_nat m then ?f (src + of_nat m) else ?f a)"
    by (simp add: copy_byte_def [of dest src m])
  also have "\<dots> = (if unat (a - dest) < Suc m then mem (src + (a - dest)) else mem a)"
    using src_clean IH [of a] at by (auto simp: less_Suc_eq)
  finally show ?case .
qed

text \<open>
  \<open>memcpy\<close> copies: when neither range wraps and either the ranges are disjoint or
  the destination starts below the source, afterwards the destination range holds the
  bytes the source range had, every other byte is unchanged, and \<open>dest\<close> is returned.
\<close>

theorem memcpy_copies:
  assumes "unat src + unat n \<le> 2 ^ 64" and "unat dest + unat n \<le> 2 ^ 64"
    and "unat dest \<le> unat src \<or> unat src + unat n \<le> unat dest"
  shows "memcpy dest src n mem
    = (dest, \<lambda>a. if unat (a - dest) < unat n then mem (src + (a - dest)) else mem a)"
proof -
  have sep: "src + of_nat k \<noteq> dest + of_nat l" if "k < unat n" "l < k" for k l
  proof -
    have k: "unat (of_nat k :: u64) = k" and l: "unat (of_nat l :: u64) = l"
      using that unat_u64_lt [of n] by (auto intro!: unat_u64_small)
    have "unat (src + of_nat k) = unat src + k" "unat (dest + of_nat l) = unat dest + l"
      using unat_plus_if_small [of src "of_nat k"] unat_plus_if_small [of dest "of_nat l"]
        assms that k l by auto
    with assms that show ?thesis by auto
  qed
  have "unat n \<le> 2 ^ 64" using unat_u64_lt [of n] by simp
  then have "snd (memcpy dest src n mem) a
      = (if unat (a - dest) < unat n then mem (src + (a - dest)) else mem a)" for a
    using memcpy_steps [of "unat n" src dest mem a] sep by (simp add: memcpy_def)
  then show ?thesis by (intro prod_eqI ext) (simp_all add: memcpy_def)
qed

lemma memcpy_copies_witness:
  "snd (memcpy 16 8 4 (\<lambda>a. ucast a)) 18 = 10 \<and> snd (memcpy 16 8 4 (\<lambda>a. ucast a)) 20 = 20"
  using memcpy_copies [of 8 4 16 "\<lambda>a. ucast a"] by simp

end
