(* ===== verification/Dtn.thy ===== *)
theory Dtn
  imports Rand
begin

text \<open>
  The delay-tolerant network simulation \<open>software/c_progs/dtn/dtn.c\<close>: a layered network
  of \<open>NET_LEVELS\<close> levels with \<open>NET_NODES\<close> nodes each, a receiver (index 16) behind the
  last level and a sender (index 17) before the first.  \<open>greedy_path\<close> routes one message;
  when every node of the next level is down it moves along its own level and has the next
  level drawn again.

  The state is the network array and the state of the generator.  \<open>None\<close> is an access
  outside the network or the cost arrays; running past the caller's \<open>path\<close> array is the
  separate outcome \<open>Path_overflow\<close>.
\<close>

section \<open>State\<close>

abbreviation NET_NODES :: nat where "NET_NODES \<equiv> 4"
abbreviation NET_LEVELS :: nat where "NET_LEVELS \<equiv> 4"
abbreviation NET_SIZE :: nat where "NET_SIZE \<equiv> 18"
abbreviation SENDER_INDEX :: nat where "SENDER_INDEX \<equiv> 17"
abbreviation RECIEVER_INDEX :: nat where "RECIEVER_INDEX \<equiv> 16"
abbreviation PATH_MAX_SIZE :: nat where "PATH_MAX_SIZE \<equiv> 54"
abbreviation RUN_COUNT :: nat where "RUN_COUNT \<equiv> 10"

record node =
  up :: bool
  neighbor_cost :: "u64 list"

record dtn =
  net :: "node list"
  rng :: u64

definition umod2 :: "u64 \<Rightarrow> nat \<Rightarrow> u64" where
  "umod2 n bits = n AND (push_bit bits 1 - 1)"

definition get_level :: "u64 \<Rightarrow> u64" where
  "get_level index = drop_bit 2 index"

section \<open>Drawing the network\<close>

text \<open>\<open>network[i].neighbor_cost[j] = UMOD2(rand(), 10)\<close>\<close>

definition draw_cost :: "nat \<Rightarrow> nat \<Rightarrow> dtn \<Rightarrow> dtn option" where
  "draw_cost i j st = (let (r, g) = rand (rng st) in do {
     n \<leftarrow> rd (net st) i;
     c \<leftarrow> wr (neighbor_cost n) j (umod2 r 10);
     w \<leftarrow> wr (net st) i (n\<lparr>neighbor_cost := c\<rparr>);
     Some \<lparr>net = w, rng = g\<rparr>
   })"

text \<open>\<open>network[i].up = b\<close>\<close>

definition set_up :: "nat \<Rightarrow> bool \<Rightarrow> dtn \<Rightarrow> dtn option" where
  "set_up i b st = do {
     n \<leftarrow> rd (net st) i;
     w \<leftarrow> wr (net st) i (n\<lparr>up := b\<rparr>);
     Some (st\<lparr>net := w\<rparr>)
   }"

text \<open>\<open>network[i].up = UMOD2(rand(), 10) >= 973\<close>, then the four costs.\<close>

definition random_node :: "nat \<Rightarrow> dtn \<Rightarrow> dtn option" where
  "random_node i st = (let (r, g) = rand (rng st) in do {
     st \<leftarrow> set_up i (973 \<le> umod2 r 10) (st\<lparr>rng := g\<rparr>);
     foldM (draw_cost i) [0..<NET_NODES] st
   })"

definition count_down :: "nat \<Rightarrow> node list \<Rightarrow> u8 \<Rightarrow> u8 option" where
  "count_down i network c = do {
     n \<leftarrow> rd network i;
     Some (c + (if up n then 0 else 1))
   }"

definition random_status_all :: "dtn \<Rightarrow> dtn option" where
  "random_status_all st = do {
     st \<leftarrow> foldM random_node [0..<NET_SIZE - 2] st;
     down_count \<leftarrow> foldM (\<lambda>i. count_down i (net st)) [0..<NET_NODES] 0;
     st \<leftarrow> (if down_count = of_nat NET_NODES
            then (let (r, g) = rand (rng st)
                  in set_up (unat (umod2 r 2)) True (st\<lparr>rng := g\<rparr>))
            else Some st);
     foldM (draw_cost SENDER_INDEX) [0..<NET_NODES] st
   }"

definition random_status_level :: "u64 \<Rightarrow> dtn \<Rightarrow> dtn option" where
  "random_status_level level st =
     foldM (\<lambda>i. random_node (unat (level * of_nat NET_NODES + of_nat i))) [0..<NET_NODES] st"

definition init_node :: "nat \<Rightarrow> dtn \<Rightarrow> dtn option" where
  "init_node i st = do {
     st \<leftarrow> set_up i True st;
     foldM (draw_cost i) [0..<NET_NODES] st
   }"

definition init_endpoint_cost :: "nat \<Rightarrow> dtn \<Rightarrow> dtn option" where
  "init_endpoint_cost j st = do {
     n \<leftarrow> rd (net st) RECIEVER_INDEX;
     c \<leftarrow> wr (neighbor_cost n) j (- 1);
     w \<leftarrow> wr (net st) RECIEVER_INDEX (n\<lparr>neighbor_cost := c\<rparr>);
     draw_cost SENDER_INDEX j (st\<lparr>net := w\<rparr>)
   }"

definition network_init :: "dtn \<Rightarrow> dtn option" where
  "network_init st = do {
     st \<leftarrow> foldM init_node [0..<NET_SIZE - 2] st;
     st \<leftarrow> set_up RECIEVER_INDEX True st;
     st \<leftarrow> set_up SENDER_INDEX True st;
     foldM init_endpoint_cost [0..<NET_NODES] st
   }"

section \<open>Routing\<close>

text \<open>
  The two selection loops.  The first keeps the triple (\<open>current_node\<close>, \<open>min_cost\<close>,
  \<open>current_cost\<close>), the second the pair (\<open>next_node\<close>, \<open>min_cost\<close>).
\<close>

definition first_step :: "dtn \<Rightarrow> nat \<Rightarrow> u64 \<times> u64 \<times> u64 \<Rightarrow> (u64 \<times> u64 \<times> u64) option" where
  "first_step st i s = (case s of (current_node, min_cost, current_cost) \<Rightarrow> do {
     n \<leftarrow> rd (net st) i;
     if up n then do {
       snd_n \<leftarrow> rd (net st) SENDER_INDEX;
       c \<leftarrow> rd (neighbor_cost snd_n) i;
       Some (if c < min_cost then (of_nat i, c, c) else (current_node, min_cost, current_cost))
     } else Some (current_node, min_cost, current_cost)
   })"

definition next_step :: "dtn \<Rightarrow> u64 \<Rightarrow> nat \<Rightarrow> u64 \<times> u64 \<Rightarrow> (u64 \<times> u64) option" where
  "next_step st current_node i s = (case s of (next_node, min_cost) \<Rightarrow> do {
     let neighbor_index = (get_level current_node + 1) * of_nat NET_NODES + of_nat i;
     n \<leftarrow> rd (net st) (unat neighbor_index);
     if up n then do {
       cur \<leftarrow> rd (net st) (unat current_node);
       c \<leftarrow> rd (neighbor_cost cur) i;
       Some (if c < min_cost then (neighbor_index, c) else (next_node, min_cost))
     } else Some (next_node, min_cost)
   })"

datatype 'a run = Finished 'a | Path_overflow

record route =
  r_cost :: u64
  r_path :: "u64 list"
  r_index :: nat
  r_state :: dtn

partial_function (option) route_loop :: "u64 \<Rightarrow> route \<Rightarrow> route run option" where
  "route_loop current_node r =
     (if get_level current_node \<noteq> of_nat NET_LEVELS then do {
        let st = r_state r;
        let neighbor_count = (if get_level current_node < of_nat (NET_LEVELS - 1) then NET_NODES else 1);
        (next_node, min_cost) \<leftarrow> foldM (next_step st current_node) [0..<neighbor_count] (current_node, - 1);
        if next_node = current_node then do {
          let here = get_level current_node * of_nat NET_NODES + umod2 (current_node + 1) 2;
          st \<leftarrow> random_status_level (get_level here + 1) st;
          if r_index r < length (r_path r)
          then route_loop here (r\<lparr>r_cost := r_cost r + 10, r_path := (r_path r)[r_index r := here],
                                  r_index := r_index r + 1, r_state := st\<rparr>)
          else Some Path_overflow
        } else
          if r_index r < length (r_path r)
          then route_loop next_node (r\<lparr>r_cost := r_cost r + min_cost,
                 r_path := (r_path r)[r_index r := next_node], r_index := r_index r + 1\<rparr>)
          else Some Path_overflow
      } else Some (Finished r))"

declare route_loop.simps [code]

definition greedy_path :: "u64 list \<Rightarrow> dtn \<Rightarrow> route run option" where
  "greedy_path path st = do {
     (current_node, min_cost, current_cost) \<leftarrow>
        foldM (first_step st) [0..<NET_NODES] (of_nat SENDER_INDEX, - 1, 0);
     if 0 < length path
     then route_loop current_node
            \<lparr>r_cost = current_cost, r_path = path[0 := current_node], r_index = 1, r_state = st\<rparr>
     else Some Path_overflow
   }"

section \<open>The program\<close>

definition one_run :: "nat \<Rightarrow> u64 list \<times> u64 list \<times> dtn \<Rightarrow> (u64 list \<times> u64 list \<times> dtn) option" where
  "one_run i s = (case s of (cost, paths, st) \<Rightarrow> do {
     path \<leftarrow> foldM (\<lambda>j path. wr path j (- 1)) [0..<PATH_MAX_SIZE] (replicate PATH_MAX_SIZE 0);
     out \<leftarrow> greedy_path path st;
     (case out of
        Path_overflow \<Rightarrow> None
      | Finished r \<Rightarrow> do {
          cost \<leftarrow> wr cost i (r_cost r);
          paths \<leftarrow> foldM (\<lambda>j paths. do {
              p \<leftarrow> rd (r_path r) j;
              wr paths (i * PATH_MAX_SIZE + j) p
            }) [0..<PATH_MAX_SIZE] paths;
          st \<leftarrow> random_status_all (r_state r);
          Some (cost, paths, st)
        })
   })"

definition dtn_runs :: "nat \<Rightarrow> u64 \<Rightarrow> node list \<Rightarrow> (u64 list \<times> u64 list \<times> dtn) option" where
  "dtn_runs runs seed junk = do {
     st \<leftarrow> network_init \<lparr>net = junk, rng = rand_init seed\<rparr>;
     foldM one_run [0..<runs] (replicate RUN_COUNT 0, replicate (RUN_COUNT * PATH_MAX_SIZE) 0, st)
   }"

definition dtn_main :: "node list \<Rightarrow> (u64 list \<times> u64 list \<times> dtn) option" where
  "dtn_main junk = dtn_runs RUN_COUNT 0xaddc0defe3d5ee3d junk"

section \<open>The network keeps its shape\<close>

definition net_shape :: "node list \<Rightarrow> bool" where
  "net_shape w \<longleftrightarrow> length w = NET_SIZE \<and> (\<forall>i < NET_SIZE. length (neighbor_cost (w ! i)) = NET_NODES)"

definition small_costs :: "node \<Rightarrow> bool" where
  "small_costs n \<longleftrightarrow> (\<forall>j < NET_NODES. unat (neighbor_cost n ! j) < 1024)"

definition wf_net :: "node list \<Rightarrow> bool" where
  "wf_net w \<longleftrightarrow> net_shape w \<and> up (w ! RECIEVER_INDEX)
     \<and> (\<forall>i < NET_SIZE. i \<noteq> RECIEVER_INDEX \<longrightarrow> small_costs (w ! i))"

text \<open>\<open>only S w w'\<close>: at most the nodes of \<open>S\<close> differ.\<close>

definition only :: "nat set \<Rightarrow> node list \<Rightarrow> node list \<Rightarrow> bool" where
  "only S w w' \<longleftrightarrow> (\<forall>k < NET_SIZE. k \<notin> S \<longrightarrow> w' ! k = w ! k)"

named_theorems net_defs \<open>unfolding the predicates on networks\<close>

declare net_shape_def [net_defs] small_costs_def [net_defs] only_def [net_defs]

lemma unat_umod2: "b < 64 \<Longrightarrow> unat (umod2 r b) = unat r mod 2 ^ b"
  using unat_and_mask [of r b] by (simp add: umod2_def mask_eq_exp_minus_1)

lemma umod2_10: "unat (umod2 r 10) < 1024"
  by (simp add: unat_umod2)

lemma umod2_2: "unat (umod2 r 2) < 4"
  by (simp add: unat_umod2)

lemma get_level_of_nat: "u < 2 ^ 64 \<Longrightarrow> get_level (of_nat u) = of_nat (u div 4)"
  by (simp add: get_level_def word_unat_eq_iff drop_bit_eq_div unat_div unat_u64_small)

lemma draw_cost_ok:
  assumes "net_shape (net st)" "i < NET_SIZE" "j < NET_NODES"
  shows "\<exists>st' c. draw_cost i j st = Some st' \<and> net_shape (net st') \<and> only {i} (net st) (net st')
    \<and> net st' ! i = (net st ! i)\<lparr>neighbor_cost := (neighbor_cost (net st ! i))[j := c]\<rparr>
    \<and> unat c < 1024"
proof -
  obtain r g where r: "rand (rng st) = (r, g)" by (cases "rand (rng st)")
  show ?thesis using assms umod2_10 [of r]
    by (auto simp: draw_cost_def r net_defs rd_in wr_in nth_list_update
        intro!: exI [of _ "umod2 r 10"])
qed

lemma draw_costs_ok:
  fixes st :: dtn
  assumes "net_shape (net st)" "i < NET_SIZE"
  shows "\<exists>st'. foldM (draw_cost i) [0..<NET_NODES] st = Some st' \<and> net_shape (net st')
    \<and> only {i} (net st) (net st') \<and> up (net st' ! i) = up (net st ! i) \<and> small_costs (net st' ! i)"
proof -
  let ?P = "\<lambda>m (st' :: dtn). net_shape (net st') \<and> only {i} (net st) (net st')
    \<and> up (net st' ! i) = up (net st ! i)
    \<and> (\<forall>j < m. unat (neighbor_cost (net st' ! i) ! j) < 1024)"
  have "\<exists>st'. foldM (draw_cost i) [0..<NET_NODES] st = Some st' \<and> ?P NET_NODES st'"
  proof (rule foldM_upt_invariant)
    show "?P 0 st" using assms by (simp add: only_def)
    fix j s assume j: "j < NET_NODES" and P: "?P j s"
    then obtain s' c where s': "draw_cost i j s = Some s'" "net_shape (net s')"
      "only {i} (net s) (net s')"
      "net s' ! i = (net s ! i)\<lparr>neighbor_cost := (neighbor_cost (net s ! i))[j := c]\<rparr>" "unat c < 1024"
      using draw_cost_ok [of s i j] assms by auto
    have "length (neighbor_cost (net s ! i)) = 4" using P assms by (simp add: net_shape_def)
    with s' P j show "\<exists>s'. draw_cost i j s = Some s' \<and> ?P (Suc j) s'"
      by (auto simp: only_def nth_list_update less_Suc_eq)
  qed simp
  then show ?thesis by (auto simp: small_costs_def)
qed

lemma set_up_ok:
  "net_shape (net st) \<Longrightarrow> i < NET_SIZE \<Longrightarrow>
   \<exists>st'. set_up i b st = Some st' \<and> net_shape (net st') \<and> only {i} (net st) (net st')
     \<and> net st' ! i = (net st ! i)\<lparr>up := b\<rparr> \<and> rng st' = rng st"
  by (auto simp: set_up_def net_defs rd_in wr_in nth_list_update)

lemma only_trans: "only S w w' \<Longrightarrow> only S w' w'' \<Longrightarrow> only S w w''"
  by (auto simp: only_def)

lemma only_mono: "only S w w' \<Longrightarrow> S \<subseteq> T \<Longrightarrow> only T w w'"
  by (auto simp: only_def)

lemma random_node_ok:
  assumes "net_shape (net st)" "i < NET_SIZE"
  shows "\<exists>st'. random_node i st = Some st' \<and> net_shape (net st')
    \<and> only {i} (net st) (net st') \<and> small_costs (net st' ! i)"
proof -
  obtain r g where r: "rand (rng st) = (r, g)" by (cases "rand (rng st)")
  obtain s1 where s1: "set_up i (973 \<le> umod2 r 10) (st\<lparr>rng := g\<rparr>) = Some s1"
    "net_shape (net s1)" "only {i} (net st) (net s1)"
    using set_up_ok [of "st\<lparr>rng := g\<rparr>" i "973 \<le> umod2 r 10"] assms by auto
  moreover obtain s2 where s2: "foldM (draw_cost i) [0..<NET_NODES] s1 = Some s2" "net_shape (net s2)"
    "only {i} (net s1) (net s2)" "small_costs (net s2 ! i)"
    using draw_costs_ok [of s1 i] assms s1 by auto
  moreover have "only {i} (net st) (net s2)" by (rule only_trans [OF s1(3) s2(3)])
  ultimately show ?thesis by (simp add: random_node_def r)
qed

lemma init_node_ok:
  assumes "net_shape (net st)" "i < NET_SIZE"
  shows "\<exists>st'. init_node i st = Some st' \<and> net_shape (net st')
    \<and> only {i} (net st) (net st') \<and> small_costs (net st' ! i) \<and> up (net st' ! i)"
proof -
  obtain s1 where s1: "set_up i True st = Some s1"
    "net_shape (net s1)" "only {i} (net st) (net s1)" "up (net s1 ! i)"
    using set_up_ok [of st i True] assms by auto
  moreover obtain s2 where s2: "foldM (draw_cost i) [0..<NET_NODES] s1 = Some s2" "net_shape (net s2)"
    "only {i} (net s1) (net s2)" "small_costs (net s2 ! i)" "up (net s2 ! i) = up (net s1 ! i)"
    using draw_costs_ok [of s1 i] assms s1 by auto
  moreover have "only {i} (net st) (net s2)" by (rule only_trans [OF s1(3) s2(3)])
  ultimately show ?thesis by (simp add: init_node_def)
qed

text \<open>A loop that redraws the nodes \<open>base\<close>, \<open>base + 1\<close>, \dots{} one after another.\<close>

lemma redraw_loop:
  fixes f :: "nat \<Rightarrow> dtn \<Rightarrow> dtn option"
  assumes body: "\<And>i st. net_shape (net st) \<Longrightarrow> i < m \<Longrightarrow>
      \<exists>st'. f i st = Some st' \<and> net_shape (net st') \<and> only {base + i} (net st) (net st')
        \<and> Q (net st' ! (base + i))"
    and "net_shape (net st)" "base + m \<le> NET_SIZE"
  shows "\<exists>st'. foldM f [0..<m] st = Some st' \<and> net_shape (net st')
    \<and> only {base..<base + m} (net st) (net st') \<and> (\<forall>i < m. Q (net st' ! (base + i)))"
proof -
  let ?P = "\<lambda>k (s :: dtn). net_shape (net s) \<and> only {base..<base + k} (net st) (net s)
    \<and> (\<forall>i < k. Q (net s ! (base + i)))"
  have "\<exists>st'. foldM f [0..<m] st = Some st' \<and> ?P m st'"
  proof (rule foldM_upt_invariant)
    show "?P 0 st" using assms by (simp add: only_def)
    fix k s assume k: "k < m" and P: "?P k s"
    then obtain s' where s': "f k s = Some s'" "net_shape (net s')"
      "only {base + k} (net s) (net s')" "Q (net s' ! (base + k))"
      using body [of s k] by auto
    then have "?P (Suc k) s'" using P k assms(3)
      by (auto simp: only_def less_Suc_eq)
    with s' show "\<exists>s'. f k s = Some s' \<and> ?P (Suc k) s'" by blast
  qed simp
  then show ?thesis by blast
qed

lemma index_cases: "i < NET_SIZE \<Longrightarrow> i < 16 \<or> i = 16 \<or> i = 17" for i :: nat
  by linarith

lemma wf_netI:
  "net_shape w \<Longrightarrow> up (w ! 16) \<Longrightarrow> (\<And>i. i < 16 \<Longrightarrow> small_costs (w ! i)) \<Longrightarrow> small_costs (w ! 17)
   \<Longrightarrow> wf_net w"
  unfolding wf_net_def by (metis index_cases)

lemma wf_netD:
  "wf_net w \<Longrightarrow> net_shape w"
  "wf_net w \<Longrightarrow> up (w ! 16)"
  "wf_net w \<Longrightarrow> i < 16 \<or> i = 17 \<Longrightarrow> small_costs (w ! i)"
  by (auto simp: wf_net_def)

lemma down_count_4:
  assumes "length w = NET_SIZE"
  shows "\<exists>c. foldM (\<lambda>i. count_down i w) [0..<NET_NODES] 0 = Some c
    \<and> (c = of_nat NET_NODES \<longleftrightarrow> (\<forall>i < NET_NODES. \<not> up (w ! i)))"
proof -
  have four: "(\<forall>i < NET_NODES. \<not> up (w ! i)) \<longleftrightarrow> \<not> up (w ! 0) \<and> \<not> up (w ! 1) \<and> \<not> up (w ! 2) \<and> \<not> up (w ! 3)"
    by (auto simp: less_Suc_eq numeral_eq_Suc)
  have "[0..<NET_NODES] = [0, 1, 2, 3]" by (simp add: upt_conv_Cons)
  then show ?thesis unfolding four using assms
    by (auto simp: count_down_def rd_in)
qed

lemma random_status_all_ok:
  fixes st :: dtn
  assumes "wf_net (net st)"
  shows "\<exists>st'. random_status_all st = Some st' \<and> wf_net (net st')
    \<and> (\<exists>i < NET_NODES. up (net st' ! i))"
proof -
  have "\<exists>s1. foldM random_node [0..<16] st = Some s1 \<and> net_shape (net s1)
      \<and> only {0..<0 + 16} (net st) (net s1) \<and> (\<forall>i < 16. small_costs (net s1 ! (0 + i)))"
    by (rule redraw_loop) (use assms random_node_ok wf_netD in auto)
  then obtain s1 where s1: "foldM random_node [0..<16] st = Some s1" "net_shape (net s1)"
    "only {0..<16} (net st) (net s1)" "\<forall>i < 16. small_costs (net s1 ! i)" by auto
  then have frame: "net s1 ! 16 = net st ! 16" "net s1 ! 17 = net st ! 17"
    by (simp_all add: only_def)
  obtain c where c: "foldM (\<lambda>i. count_down i (net s1)) [0..<NET_NODES] 0 = Some c"
    "c = of_nat NET_NODES \<longleftrightarrow> (\<forall>i < NET_NODES. \<not> up (net s1 ! i))"
    using down_count_4 [of "net s1"] s1 by (auto simp: net_shape_def)
  define pick where "pick = (if c = of_nat NET_NODES
            then (let (r, g) = rand (rng s1)
                  in set_up (unat (umod2 r 2)) True (s1\<lparr>rng := g\<rparr>))
            else Some s1)"
  have "\<exists>s2. pick = Some s2 \<and> net_shape (net s2) \<and> only {0..<4} (net s1) (net s2)
      \<and> (\<forall>i < 16. small_costs (net s2 ! i)) \<and> (\<exists>i < NET_NODES. up (net s2 ! i))"
  proof (cases "c = of_nat NET_NODES")
    case False
    with c s1 show ?thesis by (auto simp: pick_def only_def)
  next
    case True
    obtain r g where r: "rand (rng s1) = (r, g)" by (cases "rand (rng s1)")
    let ?i = "unat (umod2 r 2)"
    have i: "?i < 4" by (rule umod2_2)
    obtain s2 where s2: "set_up ?i True (s1\<lparr>rng := g\<rparr>) = Some s2" "net_shape (net s2)"
      "only {?i} (net s1) (net s2)" "net s2 ! ?i = (net s1 ! ?i)\<lparr>up := True\<rparr>"
      using set_up_ok [of "s1\<lparr>rng := g\<rparr>" ?i True] s1 i by auto
    have "small_costs (net s2 ! k)" if "k < 16" for k
      using that s1 s2 i by (cases "k = ?i") (auto simp: only_def small_costs_def)
    moreover have "only {0..<4} (net s1) (net s2)" using s2 i by (auto simp: only_def)
    moreover have "\<exists>i < NET_NODES. up (net s2 ! i)" using s2 i by auto
    ultimately show ?thesis using s2 True r by (auto simp: pick_def)
  qed
  then obtain s2 where s2: "pick = Some s2" "net_shape (net s2)" "only {0..<4} (net s1) (net s2)"
    "\<forall>i < 16. small_costs (net s2 ! i)" "\<exists>i < NET_NODES. up (net s2 ! i)" by blast
  obtain s3 where s3: "foldM (draw_cost 17) [0..<NET_NODES] s2 = Some s3" "net_shape (net s3)"
    "only {17} (net s2) (net s3)" "small_costs (net s3 ! 17)"
    using draw_costs_ok [of s2 17] s2 by auto
  have same: "net s3 ! i = net s2 ! i" if "i < 17" for i using s3(3) that by (simp add: only_def)
  have "net s2 ! 16 = net s1 ! 16" using s2(3) by (simp add: only_def)
  then have "wf_net (net s3)"
    using s3 s2 same frame assms by (intro wf_netI) (auto simp: wf_netD)
  moreover have "\<exists>i < NET_NODES. up (net s3 ! i)" using s2(5) same by auto
  ultimately show ?thesis using s1 c s2 s3
    by (simp add: random_status_all_def pick_def)
qed

lemma random_status_level_ok:
  fixes st :: dtn
  assumes "wf_net (net st)" and "l < NET_LEVELS"
  shows "\<exists>st'. random_status_level (of_nat l) st = Some st' \<and> wf_net (net st')"
proof -
  have idx: "unat (of_nat l * of_nat NET_NODES + of_nat i :: u64) = l * 4 + i" if "i < 4" for i
    using assms(2) that unat_u64_small [of "l * 4 + i"] by simp
  have "\<exists>s1. foldM (\<lambda>i. random_node (unat (of_nat l * of_nat NET_NODES + of_nat i :: u64))) [0..<NET_NODES] st = Some s1
      \<and> net_shape (net s1) \<and> only {l * 4..<l * 4 + 4} (net st) (net s1)
      \<and> (\<forall>i < 4. small_costs (net s1 ! (l * 4 + i)))"
    by (rule redraw_loop) (use assms random_node_ok wf_netD idx in auto)
  then obtain s1 where s1: "random_status_level (of_nat l) st = Some s1" "net_shape (net s1)"
    "only {l * 4..<l * 4 + 4} (net st) (net s1)" "\<forall>i < 4. small_costs (net s1 ! (l * 4 + i))"
    by (auto simp: random_status_level_def)
  have frame: "net s1 ! k = net st ! k" if "k < 18" "\<not> (l * 4 \<le> k \<and> k < l * 4 + 4)" for k
    using s1(3) that by (auto simp: only_def)
  have "small_costs (net s1 ! k)" if "k < 16" for k
  proof (cases "l * 4 \<le> k \<and> k < l * 4 + 4")
    case True
    then have "k = l * 4 + (k - l * 4)" "k - l * 4 < 4" by auto
    then show ?thesis using s1(4) by metis
  next
    case False
    then show ?thesis using frame that assms by (simp add: wf_netD)
  qed
  with s1 frame assms show ?thesis by (auto intro!: wf_netI simp: wf_netD)
qed

lemma init_endpoint_cost_ok:
  fixes st :: dtn
  assumes "net_shape (net st)" "j < NET_NODES"
  shows "\<exists>st' c. init_endpoint_cost j st = Some st' \<and> net_shape (net st')
    \<and> only {16, 17} (net st) (net st') \<and> up (net st' ! 16) = up (net st ! 16)
    \<and> net st' ! 17 = (net st ! 17)\<lparr>neighbor_cost := (neighbor_cost (net st ! 17))[j := c]\<rparr>
    \<and> unat c < 1024"
proof -
  let ?s = "st\<lparr>net := (net st)[16 := (net st ! 16)\<lparr>neighbor_cost := (neighbor_cost (net st ! 16))[j := - 1]\<rparr>]\<rparr>"
  have "net_shape (net ?s)" using assms by (auto simp: net_shape_def nth_list_update)
  then obtain s1 c where "draw_cost 17 j ?s = Some s1" "net_shape (net s1)" "only {17} (net ?s) (net s1)"
    "net s1 ! 17 = (net ?s ! 17)\<lparr>neighbor_cost := (neighbor_cost (net ?s ! 17))[j := c]\<rparr>" "unat c < 1024"
    using draw_cost_ok [of ?s 17 j] assms by auto
  with assms show ?thesis
    by (auto simp: init_endpoint_cost_def rd_in wr_in net_shape_def only_def nth_list_update)
qed

lemma network_init_ok:
  fixes st :: dtn
  assumes "net_shape (net st)"
  shows "\<exists>st'. network_init st = Some st' \<and> wf_net (net st') \<and> (\<forall>i < NET_SIZE. up (net st' ! i))"
proof -
  have "\<exists>s1. foldM init_node [0..<16] st = Some s1 \<and> net_shape (net s1)
      \<and> only {0..<0 + 16} (net st) (net s1)
      \<and> (\<forall>i < 16. small_costs (net s1 ! (0 + i)) \<and> up (net s1 ! (0 + i)))"
    by (rule redraw_loop) (use assms init_node_ok in auto)
  then obtain s1 where s1: "foldM init_node [0..<16] st = Some s1" "net_shape (net s1)"
    "\<forall>i < 16. small_costs (net s1 ! i) \<and> up (net s1 ! i)" by auto
  obtain s2 where s2: "set_up 16 True s1 = Some s2" "net_shape (net s2)" "only {16} (net s1) (net s2)"
    "up (net s2 ! 16)" using set_up_ok [of s1 16 True] s1 by auto
  obtain s3 where s3: "set_up 17 True s2 = Some s3" "net_shape (net s3)" "only {17} (net s2) (net s3)"
    "up (net s3 ! 17)" using set_up_ok [of s2 17 True] s2 by auto
  let ?P = "\<lambda>m (s :: dtn). net_shape (net s) \<and> only {16, 17} (net s3) (net s)
    \<and> up (net s ! 16) \<and> up (net s ! 17)
    \<and> (\<forall>j < m. unat (neighbor_cost (net s ! 17) ! j) < 1024)"
  have "\<exists>s4. foldM init_endpoint_cost [0..<NET_NODES] s3 = Some s4 \<and> ?P NET_NODES s4"
  proof (rule foldM_upt_invariant)
    show "?P 0 s3" using s2 s3 by (simp add: only_def)
    fix j s assume j: "j < NET_NODES" and P: "?P j s"
    then obtain s' c where s': "init_endpoint_cost j s = Some s'" "net_shape (net s')"
      "only {16, 17} (net s) (net s')" "up (net s' ! 16) = up (net s ! 16)"
      "net s' ! 17 = (net s ! 17)\<lparr>neighbor_cost := (neighbor_cost (net s ! 17))[j := c]\<rparr>"
      "unat c < 1024"
      using init_endpoint_cost_ok [of s j] by auto
    moreover have "length (neighbor_cost (net s ! 17)) = 4" using P by (simp add: net_shape_def)
    ultimately show "\<exists>s'. init_endpoint_cost j s = Some s' \<and> ?P (Suc j) s'" using P j
      by (auto simp: only_def nth_list_update less_Suc_eq)
  qed simp
  then obtain s4 where s4: "foldM init_endpoint_cost [0..<NET_NODES] s3 = Some s4" "?P NET_NODES s4"
    by blast
  have frame: "net s4 ! i = net s1 ! i" if "i < 16" for i
    using that s2(3) s3(3) s4(2) by (auto simp: only_def)
  have "small_costs (net s4 ! 17)" using s4(2) by (simp add: small_costs_def)
  then have "wf_net (net s4)" using s4(2) frame s1(3) by (intro wf_netI) auto
  moreover have "up (net s4 ! i)" if "i < NET_SIZE" for i
    using index_cases [OF that] frame [of i] s1(3) s4(2) by auto
  ultimately show ?thesis using s1 s2 s3 s4 by (auto simp: network_init_def)
qed

section \<open>The selection loops pick the cheapest node that is up\<close>

fun cheapest :: "(nat \<Rightarrow> bool) \<Rightarrow> (nat \<Rightarrow> u64) \<Rightarrow> nat \<Rightarrow> nat option" where
  "cheapest ok cost 0 = None"
| "cheapest ok cost (Suc m) =
     (case cheapest ok cost m of
        None \<Rightarrow> if ok m then Some m else None
      | Some b \<Rightarrow> if ok m \<and> cost m < cost b then Some m else Some b)"

lemma cheapest_None: "cheapest ok cost m = None \<longleftrightarrow> (\<forall>k < m. \<not> ok k)"
  by (induction m) (auto simp: less_Suc_eq split: option.splits)

lemma cheapest_Some:
  "cheapest ok cost m = Some b \<Longrightarrow>
   b < m \<and> ok b \<and> (\<forall>k < m. ok k \<longrightarrow> cost b \<le> cost k \<and> (k < b \<longrightarrow> cost b < cost k))"
proof (induction m arbitrary: b)
  case (Suc m)
  then show ?case
    by (auto simp: less_Suc_eq cheapest_None split: option.splits if_splits
        dest: less_trans order.strict_trans1)
qed simp

abbreviation next_base :: "nat \<Rightarrow> nat" where
  "next_base u \<equiv> (u div 4 + 1) * 4"

abbreviation fanout :: "nat \<Rightarrow> nat" where
  "fanout u \<equiv> (if u div 4 < 3 then 4 else 1)"

definition next_up :: "node list \<Rightarrow> nat \<Rightarrow> nat \<Rightarrow> bool" where
  "next_up w u i = up (w ! (next_base u + i))"

definition next_cost :: "node list \<Rightarrow> nat \<Rightarrow> nat \<Rightarrow> u64" where
  "next_cost w u i = neighbor_cost (w ! u) ! i"

definition choose_next :: "node list \<Rightarrow> nat \<Rightarrow> nat option" where
  "choose_next w u = cheapest (next_up w u) (next_cost w u) (fanout u)"

lemma below_infinity: "unat c < 1024 \<Longrightarrow> c < (- 1 :: u64)"
  by (simp add: word_less_nat_alt unsigned_minus_1_eq_mask mask_eq_exp_minus_1)

lemma next_cost_small: "wf_net w \<Longrightarrow> u < 16 \<Longrightarrow> i < 4 \<Longrightarrow> unat (next_cost w u i) < 1024"
  using wf_netD(3) [of w u] by (auto simp: next_cost_def small_costs_def)

lemma next_loop:
  assumes "wf_net (net st)" "u < 16" "m \<le> fanout u"
  shows "foldM (next_step st (of_nat u)) [0..<m] (of_nat u, - 1)
    = Some (case cheapest (next_up (net st) u) (next_cost (net st) u) m of
              None \<Rightarrow> (of_nat u, - 1)
            | Some i \<Rightarrow> (of_nat (next_base u + i), next_cost (net st) u i))"
  using assms(3)
proof (induction m)
  case 0
  then show ?case by simp
next
  case (Suc m)
  have "u div 4 \<le> 3" using assms(2) by linarith
  then have m: "m < 4" "next_base u + m < 18" using Suc.prems by (auto split: if_splits)
  have idx: "(get_level (of_nat u) + 1) * of_nat NET_NODES + of_nat m = (of_nat (next_base u + m) :: u64)"
    using assms(2) by (simp add: get_level_of_nat)
  have shape: "length (net st) = 18" "length (neighbor_cost (net st ! u)) = 4"
    using assms wf_netD(1) by (auto simp: net_shape_def)
  have inf: "next_cost (net st) u m < - 1"
    by (rule below_infinity [OF next_cost_small]) (use assms m in auto)
  have u: "unat (of_nat u :: u64) = u" "unat (of_nat (next_base u + m) :: u64) = next_base u + m"
    using assms(2) m unat_u64_small [of u] unat_u64_small [of "next_base u + m"] by auto
  have step: "next_step st (of_nat u) m (nx, c)
      = Some (if next_up (net st) u m \<and> next_cost (net st) u m < c
              then (of_nat (next_base u + m), next_cost (net st) u m) else (nx, c))" for nx c
    unfolding next_step_def idx Let_def u
    using shape m assms(2) by (simp add: rd_in next_up_def next_cost_def)
  have "m \<le> fanout u" using Suc.prems by simp
  then show ?case using Suc.IH inf by (simp add: foldM_snoc step split: option.splits)
qed

definition first_cost :: "node list \<Rightarrow> nat \<Rightarrow> u64" where
  "first_cost w i = neighbor_cost (w ! SENDER_INDEX) ! i"

definition choose_first :: "node list \<Rightarrow> nat option" where
  "choose_first w = cheapest (\<lambda>i. up (w ! i)) (first_cost w) NET_NODES"

lemma first_loop:
  assumes "wf_net (net st)"
  shows "m \<le> NET_NODES \<Longrightarrow> foldM (first_step st) [0..<m] (of_nat SENDER_INDEX, - 1, 0)
    = Some (case cheapest (\<lambda>i. up (net st ! i)) (first_cost (net st)) m of
              None \<Rightarrow> (of_nat SENDER_INDEX, - 1, 0)
            | Some i \<Rightarrow> (of_nat i, first_cost (net st) i, first_cost (net st) i))"
proof (induction m)
  case 0
  then show ?case by simp
next
  case (Suc m)
  have shape: "length (net st) = 18" "length (neighbor_cost (net st ! 17)) = 4"
    using assms wf_netD(1) by (auto simp: net_shape_def)
  have "unat (first_cost (net st) m) < 1024"
    using assms Suc.prems wf_netD(3) [of "net st" 17] by (simp add: first_cost_def small_costs_def)
  then have inf: "first_cost (net st) m < - 1" by (rule below_infinity)
  have step: "first_step st m (cur, c, total)
      = Some (if up (net st ! m) \<and> first_cost (net st) m < c
              then (of_nat m, first_cost (net st) m, first_cost (net st) m) else (cur, c, total))"
    for cur c total
    using shape Suc.prems by (simp add: first_step_def rd_in first_cost_def)
  have "m \<le> NET_NODES" using Suc.prems by simp
  then show ?case using Suc.IH inf by (simp add: foldM_snoc step split: option.splits)
qed

section \<open>One iteration of the routing loop\<close>

definition wait_node :: "nat \<Rightarrow> nat" where
  "wait_node u = u div 4 * 4 + (u + 1) mod 4"

text \<open>A hop is a step to the next level, or, below the last level, along the own level.\<close>

definition hop :: "nat \<Rightarrow> nat \<Rightarrow> bool" where
  "hop u v \<longleftrightarrow> u < 16 \<and>
     (if u div 4 < 3 then v = wait_node u \<or> v div 4 = u div 4 + 1 else v = RECIEVER_INDEX)"

lemma wait_node_level: "u < 16 \<Longrightarrow> wait_node u div 4 = u div 4 \<and> wait_node u < 16"
proof -
  assume "u < 16"
  then have "u div 4 \<le> 3" "(u + 1) mod 4 < 4" by simp_all
  then show ?thesis by (simp add: wait_node_def)
qed

lemma word_small_eq: "u < 2 ^ 64 \<Longrightarrow> v < 2 ^ 64 \<Longrightarrow> (of_nat u = (of_nat v :: u64)) = (u = v)"
  by (metis unat_u64_small)

lemma wait_word:
  "u < 16 \<Longrightarrow> get_level (of_nat u) * of_nat NET_NODES + umod2 (of_nat u + 1) 2 = of_nat (wait_node u)"
proof -
  assume u: "u < 16"
  have "unat (of_nat u + 1 :: u64) = u + 1" using u unat_u64_small [of "u + 1"] by (simp add: add.commute)
  then have "umod2 (of_nat u + 1) 2 = of_nat ((u + 1) mod 4)"
    by (simp add: word_unat_eq_iff unat_umod2 unat_u64_small)
  with u show ?thesis by (simp add: get_level_of_nat wait_node_def)
qed

lemma choose_next_last_level:
  "wf_net w \<Longrightarrow> u < 16 \<Longrightarrow> \<not> u div 4 < 3 \<Longrightarrow> choose_next w u = Some 0 \<and> next_base u = 16"
proof -
  assume w: "wf_net w" and u: "u < 16" "\<not> u div 4 < 3"
  then have "u div 4 = 3" by linarith
  then show ?thesis using w by (simp add: choose_next_def next_up_def wf_netD)
qed

lemma loop_guards:
  assumes "u < 16"
  shows "get_level (of_nat u) \<noteq> of_nat NET_LEVELS"
    and "(if get_level (of_nat u) < of_nat (NET_LEVELS - 1) then NET_NODES else 1) = fanout u"
  using assms word_small_eq [of "u div 4" 4]
  by (simp_all add: get_level_of_nat word_less_nat_alt unat_u64_small)

lemma choose_next_bounds:
  assumes "choose_next w u = Some i" "u < 16"
  shows "i < fanout u" "i < 4" "(next_base u + i) div 4 = u div 4 + 1" "next_base u + i < 17"
    "hop u (next_base u + i)"
proof -
  show i: "i < fanout u" using assms(1) cheapest_Some by (auto simp: choose_next_def)
  then show "i < 4" by (simp split: if_splits)
  have "u div 4 \<le> 3" using assms(2) by linarith
  then show "(next_base u + i) div 4 = u div 4 + 1" "next_base u + i < 17" "hop u (next_base u + i)"
    using i assms(2) by (auto simp: hop_def split: if_splits)
qed

text \<open>With a node of the next level up, the loop moves to the cheapest of them.\<close>

lemma route_step_next:
  assumes "wf_net (net (r_state r))" "u < 16" "choose_next (net (r_state r)) u = Some i"
  shows "route_loop (of_nat u) r =
        (if r_index r < length (r_path r)
         then route_loop (of_nat (next_base u + i)) (r\<lparr>r_cost := r_cost r + next_cost (net (r_state r)) u i,
                r_path := (r_path r)[r_index r := of_nat (next_base u + i)],
                r_index := r_index r + 1, r_state := r_state r\<rparr>)
         else Some Path_overflow)"
proof -
  note loop = next_loop [OF assms(1,2) order_refl, folded choose_next_def]
  note lvl = choose_next_bounds [OF assms(3,2)]
  have ne: "of_nat (next_base u + i) \<noteq> (of_nat u :: u64)"
    using lvl assms(2) word_small_eq [of "next_base u + i" u] by auto
  show ?thesis
    by (subst route_loop.simps)
       (simp only: loop_guards [OF assms(2)] loop assms(3) option.case bind.bind_lunit Let_def
          prod.case if_True if_False simp_thms ne, simp)
qed

lemma route_step_wait:
  assumes "wf_net (net (r_state r))" "u < 16" "choose_next (net (r_state r)) u = None"
    and "random_status_level (of_nat (u div 4 + 1)) (r_state r) = Some st'"
  shows "route_loop (of_nat u) r =
        (if r_index r < length (r_path r)
         then route_loop (of_nat (wait_node u)) (r\<lparr>r_cost := r_cost r + 10,
                r_path := (r_path r)[r_index r := of_nat (wait_node u)], r_index := r_index r + 1, r_state := st'\<rparr>)
         else Some Path_overflow)"
proof -
  note loop = next_loop [OF assms(1,2) order_refl, folded choose_next_def]
  have here: "get_level (of_nat (wait_node u)) + 1 = of_nat (u div 4 + 1)"
    using wait_node_level [OF assms(2)] by (simp add: get_level_of_nat)
  show ?thesis
    by (subst route_loop.simps)
       (simp only: loop_guards [OF assms(2)] loop assms(3) option.case bind.bind_lunit Let_def
          prod.case if_True simp_thms wait_word [OF assms(2)] here assms(4))
qed

lemma route_step:
  assumes "wf_net (net (r_state r))" "u < 16"
  shows "\<exists>v c st'. hop u v \<and> wf_net (net st')
    \<and> (v div 4 = u div 4 + 1 \<and> unat c < 1024 \<or> v div 4 = u div 4 \<and> c = 10)
    \<and> route_loop (of_nat u) r =
        (if r_index r < length (r_path r)
         then route_loop (of_nat v) (r\<lparr>r_cost := r_cost r + c,
                r_path := (r_path r)[r_index r := of_nat v], r_index := r_index r + 1, r_state := st'\<rparr>)
         else Some Path_overflow)"
proof (cases "choose_next (net (r_state r)) u")
  case None
  then have l: "u div 4 < 3" using choose_next_last_level [OF assms] by fastforce
  obtain st' where st': "random_status_level (of_nat (u div 4 + 1)) (r_state r) = Some st'" "wf_net (net st')"
    using random_status_level_ok [OF assms(1), of "u div 4 + 1"] l by auto
  show ?thesis using route_step_wait [OF assms None st'(1)] l st' assms(2) wait_node_level [OF assms(2)]
    by (intro exI [of _ "wait_node u"] exI [of _ 10] exI [of _ st']) (simp add: hop_def)
next
  case (Some i)
  note i = choose_next_bounds [OF Some assms(2)]
  have "unat (next_cost (net (r_state r)) u i) < 1024" using assms i by (intro next_cost_small)
  then show ?thesis using route_step_next [OF assms Some] i assms(1)
    by (intro exI [of _ "next_base u + i"] exI [of _ "next_cost (net (r_state r)) u i"]
          exI [of _ "r_state r"]) simp
qed

section \<open>Whole routes\<close>

lemma unat_add_le: "unat (a + b) \<le> unat a + unat b" for a b :: u64
  by (simp add: unat_word_ariths)

text \<open>
  The invariant of the routing loop at node \<open>u\<close>: the part of the path written so far is
  a walk from the first level to \<open>u\<close>; every level left so far was paid for with less
  than 1024, every wait with 10.
\<close>

definition on_route :: "nat list \<Rightarrow> nat \<Rightarrow> route \<Rightarrow> bool" where
  "on_route p u r \<longleftrightarrow> wf_net (net (r_state r)) \<and> r_index r \<le> length (r_path r)
     \<and> take (r_index r) (r_path r) = map of_nat p \<and> p \<noteq> [] \<and> hd p < NET_NODES
     \<and> successively hop p \<and> last p = u \<and> (u < 16 \<or> u = 16) \<and> u div 4 + 1 \<le> length p
     \<and> unat (r_cost r) \<le> 1023 * (u div 4 + 1) + 10 * (length p - (u div 4 + 1))"

lemma on_route_length: "on_route p u r \<Longrightarrow> length p = r_index r"
proof -
  assume "on_route p u r"
  then have "length (take (r_index r) (r_path r)) = length (map of_nat p :: u64 list)"
    and "r_index r \<le> length (r_path r)" by (simp_all add: on_route_def)
  then show ?thesis by simp
qed

lemma on_route_step:
  assumes "on_route p u r" "hop u v" "wf_net (net st')" "r_index r < length (r_path r)"
    and "v div 4 = u div 4 + 1 \<and> unat c < 1024 \<or> v div 4 = u div 4 \<and> c = 10"
  shows "on_route (p @ [v]) v (r\<lparr>r_cost := r_cost r + c,
      r_path := (r_path r)[r_index r := of_nat v], r_index := r_index r + 1, r_state := st'\<rparr>)"
proof -
  have "v < 16 \<or> v = 16"
  proof -
    have "u div 4 \<le> 3" "u < 16" using assms(2) by (auto simp: hop_def)
    then show ?thesis using assms(2) wait_node_level [of u] by (auto simp: hop_def split: if_splits)
  qed
  moreover have "take (Suc (r_index r)) ((r_path r)[r_index r := of_nat v]) = map of_nat (p @ [v])"
    using assms(1,4) by (simp add: take_Suc_conv_app_nth on_route_def)
  moreover have "unat (r_cost r + c) \<le> 1023 * (v div 4 + 1) + 10 * (Suc (length p) - (v div 4 + 1))"
    using assms(1,5) unat_add_le [of "r_cost r" c] by (auto simp: on_route_def)
  ultimately show ?thesis using assms
    by (auto simp: on_route_def successively_append_iff)
qed

definition complete_route :: "u64 list \<Rightarrow> route \<Rightarrow> bool" where
  "complete_route path r \<longleftrightarrow> (\<exists>p. on_route p RECIEVER_INDEX r) \<and> length (r_path r) = length path"

lemma route_loop_ok:
  assumes "on_route p u r" "length (r_path r) - r_index r = d"
  shows "\<exists>out. route_loop (of_nat u) r = Some out
    \<and> (\<forall>r'. out = Finished r' \<longrightarrow> complete_route (r_path r) r')"
  using assms
proof (induction d arbitrary: p u r)
  case 0
  show ?case
  proof (cases "u = 16")
    case True
    then show ?thesis using 0
      by (subst route_loop.simps) (auto simp: get_level_def complete_route_def)
  next
    case False
    then have u: "u < 16" "wf_net (net (r_state r))" "\<not> r_index r < length (r_path r)"
      using 0 by (auto simp: on_route_def)
    then show ?thesis using route_step [of r u] by auto
  qed
next
  case (Suc d)
  show ?case
  proof (cases "u = 16")
    case True
    then show ?thesis using Suc.prems
      by (subst route_loop.simps) (auto simp: get_level_def complete_route_def)
  next
    case False
    then have u: "u < 16" "wf_net (net (r_state r))" "r_index r < length (r_path r)"
      using Suc.prems by (auto simp: on_route_def)
    obtain v c st' where v: "hop u v" "wf_net (net st')"
      "v div 4 = u div 4 + 1 \<and> unat c < 1024 \<or> v div 4 = u div 4 \<and> c = 10"
      "route_loop (of_nat u) r = route_loop (of_nat v) (r\<lparr>r_cost := r_cost r + c,
          r_path := (r_path r)[r_index r := of_nat v], r_index := r_index r + 1, r_state := st'\<rparr>)"
      using route_step [OF u(2,1)] u(3) by auto
    from Suc.IH [OF on_route_step [OF Suc.prems(1) v(1,2) u(3) v(3)]] Suc.prems(2)
    show ?thesis unfolding v(4) by (simp add: complete_route_def)
  qed
qed

lemma first_route:
  assumes "wf_net (net st)" "choose_first (net st) = Some i" "0 < length path"
  shows "on_route [i] i \<lparr>r_cost = first_cost (net st) i, r_path = path[0 := of_nat i], r_index = 1, r_state = st\<rparr>"
proof -
  have i: "i < 4" using assms(2) cheapest_Some by (fastforce simp: choose_first_def)
  have "unat (first_cost (net st) i) < 1024"
    using assms(1) i wf_netD(3) [of "net st" 17] by (simp add: first_cost_def small_costs_def)
  then show ?thesis using assms i by (cases path) (auto simp: on_route_def)
qed

lemma greedy_path_ok:
  assumes "wf_net (net st)" "0 < length path"
  shows "\<exists>out. greedy_path path st = Some out
    \<and> (\<forall>r. out = Finished r \<and> (\<exists>i < NET_NODES. up (net st ! i)) \<longrightarrow> complete_route path r)"
proof (cases "choose_first (net st)")
  case None
  then have "\<not> (\<exists>i < NET_NODES. up (net st ! i))" by (simp add: choose_first_def cheapest_None)
  then show ?thesis using None first_loop [OF assms(1) order_refl] assms(2)
    by (auto simp: greedy_path_def choose_first_def route_loop.simps get_level_def)
next
  case (Some i)
  then show ?thesis
    using first_loop [OF assms(1) order_refl] assms(2)
      route_loop_ok [OF first_route [OF assms(1) Some assms(2)] refl]
    by (auto simp: greedy_path_def choose_first_def complete_route_def)
qed

section \<open>Routes through a network that is up\<close>

text \<open>\<open>v\<close> is the cheapest neighbour of \<open>u\<close> in the next level; its cost is \<open>link\<close>.\<close>

definition link :: "node list \<Rightarrow> nat \<Rightarrow> nat \<Rightarrow> u64" where
  "link w u v = neighbor_cost (w ! u) ! (v mod 4)"

definition cheapest_link :: "node list \<Rightarrow> nat \<Rightarrow> nat \<Rightarrow> bool" where
  "cheapest_link w u v \<longleftrightarrow> v div 4 = u div 4 + 1 \<and> v \<le> RECIEVER_INDEX
     \<and> (\<forall>i < fanout u. link w u v \<le> neighbor_cost (w ! u) ! i)"

fun route_cost :: "node list \<Rightarrow> nat list \<Rightarrow> u64" where
  "route_cost w (u # v # p) = link w u v + route_cost w (v # p)"
| "route_cost w p = 0"

lemma choose_next_up:
  assumes "\<forall>i < NET_SIZE. up (w ! i)" "u < 16"
  shows "\<exists>i. choose_next w u = Some i \<and> cheapest_link w u (next_base u + i)
    \<and> next_cost w u i = link w u (next_base u + i)"
proof (cases "choose_next w u")
  case None
  then have "\<forall>k < fanout u. \<not> up (w ! (next_base u + k))"
    by (simp add: choose_next_def cheapest_None next_up_def)
  then have "\<not> up (w ! (next_base u))" by (auto dest: spec [of _ 0] split: if_splits)
  moreover have "u div 4 \<le> 3" using assms(2) by linarith
  then have "next_base u < 18" by simp
  ultimately show ?thesis using assms(1) by simp
next
  case (Some i)
  note b = choose_next_bounds [OF Some assms(2)]
  have "next_up w u k" if "k < fanout u" for k
  proof -
    have "u div 4 \<le> 3" using assms(2) by linarith
    then have "next_base u + k < NET_SIZE" using that by (simp split: if_splits)
    then show ?thesis using assms(1) by (simp add: next_up_def)
  qed
  then have "\<forall>k < fanout u. next_cost w u i \<le> next_cost w u k"
    using cheapest_Some [OF Some [unfolded choose_next_def]] by auto
  moreover have "(next_base u + i) mod 4 = i" using b(2) by presburger
  ultimately show ?thesis using Some b by (simp add: cheapest_link_def link_def next_cost_def)
qed

lemma unobstructed_loop:
  assumes "wf_net (net (r_state r))" "\<forall>i < NET_SIZE. up (net (r_state r) ! i)"
    and "u < 16 \<or> u = 16" "d = 4 - u div 4" "r_index r + d \<le> length (r_path r)"
  shows "\<exists>p r'. route_loop (of_nat u) r = Some (Finished r') \<and> r_state r' = r_state r
    \<and> r_index r' = r_index r + d \<and> length (r_path r') = length (r_path r)
    \<and> take (r_index r') (r_path r') = take (r_index r) (r_path r) @ map of_nat p
    \<and> length p = d \<and> last (u # p) = 16 \<and> successively (cheapest_link (net (r_state r))) (u # p)
    \<and> r_cost r' = r_cost r + route_cost (net (r_state r)) (u # p)"
  using assms
proof (induction d arbitrary: u r)
  case 0
  then have "u = 16" by auto
  then show ?case by (subst route_loop.simps) (simp add: get_level_def)
next
  case (Suc d)
  then have u: "u < 16" by auto
  let ?w = "net (r_state r)"
  obtain i where i: "choose_next ?w u = Some i" "cheapest_link ?w u (next_base u + i)"
    "next_cost ?w u i = link ?w u (next_base u + i)"
    using choose_next_up [OF Suc.prems(2) u] by blast
  let ?v = "next_base u + i"
  let ?r = "r\<lparr>r_cost := r_cost r + next_cost ?w u i, r_path := (r_path r)[r_index r := of_nat ?v],
      r_index := r_index r + 1, r_state := r_state r\<rparr>"
  note b = choose_next_bounds [OF i(1) u]
  have step: "route_loop (of_nat u) r = route_loop (of_nat ?v) ?r"
    using route_step_next [OF Suc.prems(1) u i(1)] Suc.prems(5) by simp
  have "\<exists>p r'. route_loop (of_nat ?v) ?r = Some (Finished r') \<and> r_state r' = r_state ?r
    \<and> r_index r' = r_index ?r + d \<and> length (r_path r') = length (r_path ?r)
    \<and> take (r_index r') (r_path r') = take (r_index ?r) (r_path ?r) @ map of_nat p
    \<and> length p = d \<and> last (?v # p) = 16 \<and> successively (cheapest_link (net (r_state ?r))) (?v # p)
    \<and> r_cost r' = r_cost ?r + route_cost (net (r_state ?r)) (?v # p)"
  proof (rule Suc.IH)
    show "?v < 16 \<or> ?v = 16" using b(4) by linarith
    show "d = 4 - ?v div 4" using b(3) Suc.prems(4) by linarith
  qed (use Suc.prems in simp_all)
  then obtain p r' where p: "route_loop (of_nat ?v) ?r = Some (Finished r')" "r_state r' = r_state r"
    "r_index r' = Suc (r_index r) + d" "length (r_path r') = length (r_path r)"
    "take (r_index r') (r_path r') = take (Suc (r_index r)) ((r_path r)[r_index r := of_nat ?v]) @ map of_nat p"
    "length p = d" "last (?v # p) = 16" "successively (cheapest_link ?w) (?v # p)"
    "r_cost r' = r_cost r + link ?w u ?v + route_cost ?w (?v # p)"
    unfolding i(3) [symmetric] by auto
  have "take (Suc (r_index r)) ((r_path r)[r_index r := of_nat ?v]) = take (r_index r) (r_path r) @ [of_nat ?v]"
    using Suc.prems(5) by (simp add: take_Suc_conv_app_nth)
  then show ?case using p i(2) step
    by (intro exI [of _ "?v # p"] exI [of _ r']) (simp add: add.assoc)
qed

section \<open>One run of the benchmark\<close>

lemma unobstructed_greedy:
  assumes "wf_net (net st)" and "\<forall>i < NET_SIZE. up (net st ! i)" and "5 \<le> length path"
  shows "\<exists>p r. greedy_path path st = Some (Finished r) \<and> r_state r = st \<and> r_index r = 5
    \<and> take 5 (r_path r) = map of_nat p \<and> last p = RECIEVER_INDEX
    \<and> hd p < NET_NODES \<and> (\<forall>i < NET_NODES. first_cost (net st) (hd p) \<le> first_cost (net st) i)
    \<and> successively (cheapest_link (net st)) p
    \<and> r_cost r = first_cost (net st) (hd p) + route_cost (net st) p"
proof -
  obtain i where i: "choose_first (net st) = Some i"
    using assms(2) cheapest_None [of _ _ NET_NODES]
    by (cases "choose_first (net st)") (fastforce simp: choose_first_def)+
  then have first: "i < 4" "\<forall>k < 4. first_cost (net st) i \<le> first_cost (net st) k"
    using cheapest_Some [OF i [unfolded choose_first_def]] assms(2) by auto
  let ?r = "\<lparr>r_cost = first_cost (net st) i, r_path = path[0 := of_nat i], r_index = 1, r_state = st\<rparr>"
  have start: "greedy_path path st = route_loop (of_nat i) ?r"
    using i first_loop [OF assms(1) order_refl] assms(3) by (auto simp: greedy_path_def choose_first_def)
  have "\<exists>p r'. route_loop (of_nat i) ?r = Some (Finished r') \<and> r_state r' = r_state ?r
    \<and> r_index r' = r_index ?r + 4 \<and> length (r_path r') = length (r_path ?r)
    \<and> take (r_index r') (r_path r') = take (r_index ?r) (r_path ?r) @ map of_nat p
    \<and> length p = 4 \<and> last (i # p) = 16 \<and> successively (cheapest_link (net (r_state ?r))) (i # p)
    \<and> r_cost r' = r_cost ?r + route_cost (net (r_state ?r)) (i # p)"
    by (rule unobstructed_loop) (use assms first in auto)
  then obtain p r where p: "route_loop (of_nat i) ?r = Some (Finished r)" "r_state r = st"
    "r_index r = 5" "take 5 (r_path r) = take 1 (path[0 := of_nat i]) @ map of_nat p"
    "last (i # p) = 16" "successively (cheapest_link (net st)) (i # p)"
    "r_cost r = first_cost (net st) i + route_cost (net st) (i # p)" by auto
  have "take 1 (path[0 := of_nat i]) = [of_nat i]" using assms(3) by (cases path) auto
  then show ?thesis using p start first by (intro exI [of _ "i # p"] exI [of _ r]) simp
qed

lemma fill_path:
  "m \<le> length xs \<Longrightarrow> foldM (\<lambda>j path. wr path j x) [0..<m] xs = Some (replicate m x @ drop m xs)"
proof (induction m)
  case (Suc m)
  then have "(replicate m x @ drop m xs)[m := x] = replicate (Suc m) x @ drop (Suc m) xs"
    by (simp add: list_update_append Cons_nth_drop_Suc [symmetric] replicate_append_same [symmetric])
  then show ?case using Suc by (simp add: foldM_snoc wr_in)
qed simp

lemma copy_path:
  assumes "length p = PATH_MAX_SIZE" "i < RUN_COUNT" "length paths = RUN_COUNT * PATH_MAX_SIZE"
  shows "\<exists>paths'. foldM (\<lambda>j paths. do {
      v \<leftarrow> rd p j;
      wr paths (i * PATH_MAX_SIZE + j) v }) [0..<PATH_MAX_SIZE] paths = Some paths'
    \<and> length paths' = length paths
    \<and> (\<forall>k < length paths. paths' ! k = (if i * PATH_MAX_SIZE \<le> k \<and> k < i * PATH_MAX_SIZE + PATH_MAX_SIZE
          then p ! (k - i * PATH_MAX_SIZE) else paths ! k))"
  by (rule foldM_upt_invariant [where P = "\<lambda>m q. length q = length paths
    \<and> (\<forall>k < length paths. q ! k = (if i * PATH_MAX_SIZE \<le> k \<and> k < i * PATH_MAX_SIZE + m
          then p ! (k - i * PATH_MAX_SIZE) else paths ! k))"])
    (use assms in \<open>auto simp: rd_in wr_in nth_list_update\<close>)

lemma fill_invalid:
  "foldM (\<lambda>j path. wr path j (- 1)) [0..<PATH_MAX_SIZE] (replicate PATH_MAX_SIZE 0)
    = Some (replicate PATH_MAX_SIZE (- 1 :: u64))"
  by (subst fill_path) simp_all

lemma delivered:
  assumes "wf_net (net st)" "\<exists>i < NET_NODES. up (net st ! i)" "0 < length path"
    and "greedy_path path st = Some (Finished r)"
  shows "wf_net (net (r_state r)) \<and> length (r_path r) = length path \<and> 5 \<le> r_index r
    \<and> r_index r \<le> length path \<and> unat (r_cost r) \<le> 1023 * 5 + 10 * (r_index r - 5)"
proof -
  have "complete_route path r" using greedy_path_ok [OF assms(1,3)] assms(2,4) by auto
  then obtain p where p: "on_route p 16 r" "length (r_path r) = length path"
    by (auto simp: complete_route_def)
  then show ?thesis using on_route_length [OF p(1)] by (simp add: on_route_def)
qed

lemma one_run_ok:
  assumes "wf_net (net st)" "\<exists>i < NET_NODES. up (net st ! i)" "i < RUN_COUNT"
    and "length cost = RUN_COUNT" "length paths = RUN_COUNT * PATH_MAX_SIZE"
    and run: "greedy_path (replicate PATH_MAX_SIZE (- 1)) st = Some (Finished r)"
  shows "\<exists>paths' st'. one_run i (cost, paths, st) = Some (cost[i := r_cost r], paths', st')
    \<and> length paths' = length paths
    \<and> (\<forall>j < PATH_MAX_SIZE. paths' ! (i * PATH_MAX_SIZE + j) = r_path r ! j)
    \<and> (\<forall>k < length paths. k div PATH_MAX_SIZE \<noteq> i \<longrightarrow> paths' ! k = paths ! k)
    \<and> random_status_all (r_state r) = Some st'
    \<and> wf_net (net st') \<and> (\<exists>i < NET_NODES. up (net st' ! i))"
proof -
  have r: "length (r_path r) = PATH_MAX_SIZE" "wf_net (net (r_state r))"
    using delivered [OF assms(1,2) _ run] by simp_all
  obtain st' where st': "random_status_all (r_state r) = Some st'" "wf_net (net st')"
    "\<exists>i < NET_NODES. up (net st' ! i)" using random_status_all_ok [OF r(2)] by blast
  obtain paths' where paths': "foldM (\<lambda>j paths. do {
    v \<leftarrow> rd (r_path r) j;
    wr paths (i * PATH_MAX_SIZE + j) v }) [0..<PATH_MAX_SIZE] paths = Some paths'"
    "length paths' = length paths"
    "\<forall>k < length paths. paths' ! k = (if i * PATH_MAX_SIZE \<le> k \<and> k < i * PATH_MAX_SIZE + PATH_MAX_SIZE
        then r_path r ! (k - i * PATH_MAX_SIZE) else paths ! k)"
    using copy_path [OF r(1) assms(3,5)] by blast
  have "k div PATH_MAX_SIZE = i" if "i * PATH_MAX_SIZE \<le> k" "k < i * PATH_MAX_SIZE + PATH_MAX_SIZE" for k
    using that by (intro div_nat_eqI) simp_all
  then have "\<forall>k < length paths. k div PATH_MAX_SIZE \<noteq> i \<longrightarrow> paths' ! k = paths ! k"
    using paths'(3) by auto
  moreover have "paths' ! (i * PATH_MAX_SIZE + j) = r_path r ! j" if "j < PATH_MAX_SIZE" for j
    using paths'(3) [rule_format, of "i * PATH_MAX_SIZE + j"] that assms(3,5) by simp
  moreover have "one_run i (cost, paths, st) = Some (cost[i := r_cost r], paths', st')"
    unfolding one_run_def prod.case fill_invalid bind.bind_lunit run run.case
    using assms(3,4) by (simp only: wr_in bind.bind_lunit paths'(1) st'(1))
  ultimately show ?thesis using paths'(2) st' by blast
qed

lemma one_run_overflow:
  "greedy_path (replicate PATH_MAX_SIZE (- 1)) st = Some Path_overflow \<Longrightarrow> one_run i (cost, paths, st) = None"
  unfolding one_run_def prod.case fill_invalid bind.bind_lunit by simp

section \<open>Properties\<close>

text \<open>
  C26: Routing ends and stays inside the network and cost arrays, on every well-formed network and for
  every state of the generator.  With an empty \<open>path\<close> array its first write is past the end.  When
  no node of the first level is up, \<open>greedy_path\<close> takes the sender for the receiver: it returns at
  once with cost 0 and the sender as the whole path.  Otherwise it either runs past the end of the
  caller's \<open>path\<close> array, or delivers: the path written is a walk from the first level to the receiver
  in which each step goes one level on, or along the own level below the last one, and the cost is
  below 1024 for each of the five links and 10 for each wait.
\<close>

theorem greedy_path_delivers:
  assumes "wf_net (net st)"
  shows "if path = [] then greedy_path path st = Some Path_overflow
    else if \<forall>i < NET_NODES. \<not> up (net st ! i) then greedy_path path st = Some (Finished
      \<lparr>r_cost = 0, r_path = path[0 := of_nat SENDER_INDEX], r_index = 1, r_state = st\<rparr>)
    else greedy_path path st = Some Path_overflow
    \<or> (\<exists>r p. greedy_path path st = Some (Finished r) \<and> wf_net (net (r_state r))
        \<and> take (r_index r) (r_path r) = map of_nat p \<and> length (r_path r) = length path
        \<and> hd p < NET_NODES \<and> successively hop p \<and> last p = RECIEVER_INDEX
        \<and> 5 \<le> length p \<and> length p \<le> length path
        \<and> unat (r_cost r) \<le> 1023 * 5 + 10 * (length p - 5))"
proof -
  consider (empty) "path = []" | (down) "path \<noteq> []" "\<forall>i < NET_NODES. \<not> up (net st ! i)"
    | (route) "path \<noteq> []" "\<exists>i < NET_NODES. up (net st ! i)" by blast
  then show ?thesis
  proof cases
    case empty
    then show ?thesis using first_loop [OF assms order_refl] by (simp add: greedy_path_def split: option.splits)
  next
    case down
    then have "cheapest (\<lambda>i. up (net st ! i)) (first_cost (net st)) NET_NODES = None" by (simp add: cheapest_None)
    then show ?thesis using down first_loop [OF assms order_refl]
      by (simp add: greedy_path_def route_loop.simps get_level_def)
  next
    case route
    then obtain out where out: "greedy_path path st = Some out"
      "\<And>r. out = Finished r \<Longrightarrow> complete_route path r"
      using greedy_path_ok [OF assms, of path] by auto
    show ?thesis
    proof (cases out)
      case (Finished r)
      then obtain p where p: "on_route p 16 r" "length (r_path r) = length path"
        using out(2) by (auto simp: complete_route_def)
      then have "length p \<le> length path" using on_route_length [OF p(1)] by (simp add: on_route_def)
      with p have "\<exists>r p. greedy_path path st = Some (Finished r) \<and> wf_net (net (r_state r))
        \<and> take (r_index r) (r_path r) = map of_nat p \<and> length (r_path r) = length path
        \<and> hd p < NET_NODES \<and> successively hop p \<and> last p = RECIEVER_INDEX
        \<and> 5 \<le> length p \<and> length p \<le> length path \<and> unat (r_cost r) \<le> 1023 * 5 + 10 * (length p - 5)"
        using out(1) Finished by (intro exI [of _ r] exI [of _ p]) (simp add: on_route_def)
      then show ?thesis using route by auto
    qed (use out route in auto)
  qed
qed

lemma flat_network_wf:
  "wf_net (replicate NET_SIZE \<lparr>up = True, neighbor_cost = replicate NET_NODES 0\<rparr>)"
  by (simp add: wf_net_def net_shape_def small_costs_def)

theorem greedy_path_delivers_witness:
  "greedy_path (replicate PATH_MAX_SIZE 0)
      \<lparr>net = replicate NET_SIZE \<lparr>up = True, neighbor_cost = replicate NET_NODES 0\<rparr>, rng = 1\<rparr> \<noteq> None"
proof -
  let ?st = "\<lparr>net = replicate NET_SIZE \<lparr>up = True, neighbor_cost = replicate NET_NODES 0\<rparr>, rng = 1\<rparr>"
  have up: "\<not> (\<forall>i < NET_NODES. \<not> up (net ?st ! i))" by (simp, rule exI [of _ 0]) simp
  have path: "replicate PATH_MAX_SIZE (0 :: u64) \<noteq> []" by simp
  have "wf_net (net ?st)" using flat_network_wf by simp
  from greedy_path_delivers [OF this, of "replicate PATH_MAX_SIZE 0", unfolded if_not_P [OF path] if_not_P [OF up]]
  show ?thesis by auto
qed

text \<open>
  C27: in a network whose nodes are all up the message takes one link per level and always
  the cheapest one: \<open>greedy_path\<close> succeeds as soon as the path array holds five entries, the
  path starts at the cheapest node of the first level, every next node is the cheapest
  neighbour of the one before, the last is the receiver, the cost is the sum of the links
  and the network and the generator are left alone.
\<close>

theorem unobstructed_route_is_greedy:
  assumes "wf_net (net st)" and "\<forall>i < NET_SIZE. up (net st ! i)" and "5 \<le> length path"
  shows "\<exists>p r. greedy_path path st = Some (Finished r) \<and> r_state r = st \<and> r_index r = 5
    \<and> take 5 (r_path r) = map of_nat p \<and> last p = RECIEVER_INDEX
    \<and> hd p < NET_NODES \<and> (\<forall>i < NET_NODES. first_cost (net st) (hd p) \<le> first_cost (net st) i)
    \<and> successively (cheapest_link (net st)) p
    \<and> r_cost r = first_cost (net st) (hd p) + route_cost (net st) p"
  by (rule unobstructed_greedy [OF assms])

theorem unobstructed_route_is_greedy_witness:
  "\<exists>r. greedy_path (replicate PATH_MAX_SIZE 0)
      \<lparr>net = replicate NET_SIZE \<lparr>up = True, neighbor_cost = replicate NET_NODES 0\<rparr>, rng = 1\<rparr>
    = Some (Finished r) \<and> r_index r = 5"
  using unobstructed_route_is_greedy [of "\<lparr>net = replicate NET_SIZE \<lparr>up = True, neighbor_cost = replicate NET_NODES 0\<rparr>, rng = 1\<rparr>"
      "replicate PATH_MAX_SIZE 0"] flat_network_wf
  by auto

text \<open>
  C28: One iteration of the benchmark's main loop, run \<open>i\<close> on a well-formed network with a node of the
  first level up.  Either \<open>greedy_path\<close> runs past the path array it is given (54 entries), or the run
  stores the cost that \<open>greedy_path\<close> returned, at most \<open>5 * 1023 + 49 * 10\<close>, in its own slot, and the
  path it wrote, all 54 entries of it, in row \<open>i\<close>; it leaves the slots and rows of the other runs
  alone, and draws a network that is again well formed with a node of the first level up, so that
  the next run can start.
\<close>

theorem run_stores_its_result:
  assumes "wf_net (net st)" and "\<exists>i < NET_NODES. up (net st ! i)" and "i < RUN_COUNT"
    and "length cost = RUN_COUNT" and "length paths = RUN_COUNT * PATH_MAX_SIZE"
  shows "greedy_path (replicate PATH_MAX_SIZE (- 1)) st = Some Path_overflow \<and> one_run i (cost, paths, st) = None
    \<or> (\<exists>r paths' st'. greedy_path (replicate PATH_MAX_SIZE (- 1)) st = Some (Finished r)
        \<and> one_run i (cost, paths, st) = Some (cost[i := r_cost r], paths', st')
        \<and> unat (r_cost r) \<le> 5605 \<and> length paths' = length paths
        \<and> (\<forall>j < PATH_MAX_SIZE. paths' ! (i * PATH_MAX_SIZE + j) = r_path r ! j)
        \<and> (\<forall>k < length paths. k div PATH_MAX_SIZE \<noteq> i \<longrightarrow> paths' ! k = paths ! k)
        \<and> random_status_all (r_state r) = Some st'
        \<and> wf_net (net st') \<and> (\<exists>i < NET_NODES. up (net st' ! i)))"
proof -
  obtain out where out: "greedy_path (replicate PATH_MAX_SIZE (- 1)) st = Some out"
    using greedy_path_ok [OF assms(1), of "replicate PATH_MAX_SIZE (- 1)"] by auto
  show ?thesis
  proof (cases out)
    case (Finished r)
    with out have run: "greedy_path (replicate PATH_MAX_SIZE (- 1)) st = Some (Finished r)" by simp
    have "unat (r_cost r) \<le> 5605" using delivered [OF assms(1,2) _ run] by (simp, linarith)
    then show ?thesis using run one_run_ok [OF assms run] by blast
  qed (use out one_run_overflow in simp)
qed

theorem run_stores_its_result_witness:
  "\<exists>out. one_run 0 (replicate RUN_COUNT 0, replicate (RUN_COUNT * PATH_MAX_SIZE) 0,
      \<lparr>net = replicate NET_SIZE \<lparr>up = True, neighbor_cost = replicate NET_NODES 0\<rparr>, rng = 1\<rparr>) = Some out"
proof -
  let ?st = "\<lparr>net = replicate NET_SIZE \<lparr>up = True, neighbor_cost = replicate NET_NODES 0\<rparr>, rng = 1\<rparr>"
  have up: "\<exists>i < NET_NODES. up (net ?st ! i)" by (rule exI [of _ 0]) simp
  have "\<exists>r. greedy_path (replicate PATH_MAX_SIZE (- 1)) ?st = Some (Finished r)"
    using unobstructed_greedy [of ?st "replicate PATH_MAX_SIZE (- 1)"] flat_network_wf by auto
  then show ?thesis
    using run_stores_its_result [of ?st 0 "replicate RUN_COUNT 0" "replicate (RUN_COUNT * PATH_MAX_SIZE) 0"]
      flat_network_wf up by auto
qed

text \<open>
  the start of the benchmark, for every seed and whatever the uninitialised network held:
  \<open>network_init\<close> and the first run return, no access leaves an array, the first route takes
  exactly five links, and the cost stored in slot 0 is its cost and at most \<open>5 * 1023\<close>.
\<close>

theorem first_run_succeeds:
  assumes "net_shape junk"
  shows "\<exists>st r cost paths st'. network_init \<lparr>net = junk, rng = rand_init seed\<rparr> = Some st
    \<and> greedy_path (replicate PATH_MAX_SIZE (- 1)) st = Some (Finished r) \<and> r_index r = 5
    \<and> dtn_runs 1 seed junk = Some (cost, paths, st') \<and> cost ! 0 = r_cost r \<and> unat (r_cost r) \<le> 5115"
proof -
  obtain st where st: "network_init \<lparr>net = junk, rng = rand_init seed\<rparr> = Some st"
    "wf_net (net st)" "\<forall>i < NET_SIZE. up (net st ! i)"
    using network_init_ok [of "\<lparr>net = junk, rng = rand_init seed\<rparr>"] assms by auto
  obtain r where r: "greedy_path (replicate PATH_MAX_SIZE (- 1)) st = Some (Finished r)" "r_index r = 5"
    using unobstructed_greedy [OF st(2,3), of "replicate PATH_MAX_SIZE (- 1)"] by auto
  have up: "\<exists>i < NET_NODES. up (net st ! i)" using st(3) by (intro exI [of _ 0]) simp
  obtain paths' st' where run: "one_run 0 (replicate RUN_COUNT 0, replicate (RUN_COUNT * PATH_MAX_SIZE) 0, st)
      = Some ((replicate RUN_COUNT 0)[0 := r_cost r], paths', st')"
    using one_run_ok [OF st(2) up _ _ _ r(1), of 0 "replicate RUN_COUNT 0"
        "replicate (RUN_COUNT * PATH_MAX_SIZE) 0"] by auto
  have "unat (r_cost r) \<le> 5115" using delivered [OF st(2) up _ r(1)] r(2) by simp
  then show ?thesis using st(1) r run by (simp add: dtn_runs_def)
qed

theorem first_run_succeeds_witness:
  "\<exists>cost paths st'. dtn_runs 1 0xaddc0defe3d5ee3d
      (replicate NET_SIZE \<lparr>up = False, neighbor_cost = replicate NET_NODES 0\<rparr>) = Some (cost, paths, st')
    \<and> unat (cost ! 0) \<le> 5115"
proof -
  have "net_shape (replicate NET_SIZE \<lparr>up = False, neighbor_cost = replicate NET_NODES 0\<rparr>)"
    by (simp add: net_shape_def)
  from first_run_succeeds [OF this, of "0xaddc0defe3d5ee3d"] show ?thesis by metis
qed

end
