(* ===== verification/Irq.thy ===== *)
theory Irq
  imports Prelude
begin

text \<open>
  Interrupts of the Nios II HAL: the status and enable registers (\<open>HAL/inc/sys/alt_irq.h\<close>),
  enabling and disabling single lines (\<open>HAL/inc/priv/alt_legacy_irq.h\<close>), registering a
  handler (\<open>alt_iic.c\<close>, \<open>alt_iic_isr_register.c\<close>, \<open>alt_irq_register.c\<close>) and the exception
  handler that dispatches them (\<open>alt_irq_handler.c\<close>).

  The registers are a record that the states of the other components extend.  A function
  pointer is its address; what it does when called is a parameter \<open>call\<close>.  Reading the
  \<open>ipending\<close> register is a parameter \<open>pending\<close> of the dispatcher, since the hardware owns it.
\<close>

section \<open>The status register and critical sections\<close>

record cpu =
  cpu_status :: u32
  cpu_ienable :: u32

abbreviation (input) NIOS2_STATUS_PIE_MSK :: u32 where "NIOS2_STATUS_PIE_MSK \<equiv> 1"

definition alt_irq_enabled :: "'a cpu_scheme \<Rightarrow> u32" where
  "alt_irq_enabled s = cpu_status s AND NIOS2_STATUS_PIE_MSK"

definition alt_irq_disable_all :: "'a cpu_scheme \<Rightarrow> u32 \<times> 'a cpu_scheme" where
  "alt_irq_disable_all s =
     (let context = cpu_status s
      in (context, s\<lparr>cpu_status := context AND NOT NIOS2_STATUS_PIE_MSK\<rparr>))"

text \<open>
  \<open>alt_irq_enable_all\<close>: this processor has no shadow register sets, MMU, MPU or external
  controller, so the whole context is written back.  \<open>alt_irq_enable_all_masked\<close> is the other
  branch of the conditional compilation.
\<close>

definition alt_irq_enable_all :: "u32 \<Rightarrow> 'a cpu_scheme \<Rightarrow> 'a cpu_scheme" where
  "alt_irq_enable_all context s = s\<lparr>cpu_status := context\<rparr>"

definition alt_irq_enable_all_masked :: "u32 \<Rightarrow> 'a cpu_scheme \<Rightarrow> 'a cpu_scheme" where
  "alt_irq_enable_all_masked context s =
     (let status = cpu_status s;
          status = status AND NOT NIOS2_STATUS_PIE_MSK;
          status = status OR (context AND NIOS2_STATUS_PIE_MSK)
      in s\<lparr>cpu_status := status\<rparr>)"

definition alt_irq_cpu_enable_interrupts :: "'a cpu_scheme \<Rightarrow> 'a cpu_scheme" where
  "alt_irq_cpu_enable_interrupts s = s\<lparr>cpu_status := NIOS2_STATUS_PIE_MSK\<rparr>"

definition interrupts_on :: "'a cpu_scheme \<Rightarrow> bool" where
  "interrupts_on s \<longleftrightarrow> alt_irq_enabled s \<noteq> 0"

text \<open>
  What every client of the pair relies on: after \<open>disable\<close> interrupts are off, and \<open>enable\<close>
  with the returned context puts the mode back whatever happened in between, so that
  critical sections nest.
\<close>

locale critical_section =
  fixes disable :: "'s \<Rightarrow> 'c \<times> 's"
    and enable :: "'c \<Rightarrow> 's \<Rightarrow> 's"
    and on :: "'s \<Rightarrow> bool"
  assumes disable_off: "\<not> on (snd (disable s))"
    and restore: "on (enable (fst (disable s)) s') = on s"
begin

definition guarded :: "('s \<Rightarrow> 's) \<Rightarrow> 's \<Rightarrow> 's" where
  "guarded body s = (let (c, s1) = disable s in enable c (body s1))"

lemma guarded_mode: "on (guarded body s) = on s"
  using restore [of s] by (simp add: guarded_def case_prod_beta)

text \<open>An inner critical section never turns interrupts on inside an outer one.\<close>

lemma guarded_nested_off:
  assumes "\<not> on s"
  shows "\<not> on (guarded body s)"
  using assms guarded_mode by simp

lemma body_runs_off:
  assumes "\<And>s. \<not> on s \<Longrightarrow> body s = body' s"
  shows "guarded body s = guarded body' s"
  using assms disable_off [of s] by (simp add: guarded_def case_prod_beta)

end

lemma irq_mode_bit: "interrupts_on s \<longleftrightarrow> bit (cpu_status s) 0"
  by (simp add: interrupts_on_def alt_irq_enabled_def and_one_eq odd_iff_mod_2_eq_one bit_0
      flip: and_one_eq) (auto simp: and_one_eq odd_iff_mod_2_eq_one [symmetric])

interpretation irq_lock: critical_section
  "alt_irq_disable_all :: 'a cpu_scheme \<Rightarrow> _" alt_irq_enable_all interrupts_on
  by unfold_locales (auto simp: irq_mode_bit alt_irq_disable_all_def alt_irq_enable_all_def
      bit_simps Let_def)

interpretation irq_lock_masked: critical_section
  "alt_irq_disable_all :: 'a cpu_scheme \<Rightarrow> _" alt_irq_enable_all_masked interrupts_on
  by unfold_locales (auto simp: irq_mode_bit alt_irq_disable_all_def alt_irq_enable_all_masked_def
      bit_simps Let_def)

section \<open>Single interrupt lines and the handler table\<close>

abbreviation ALT_NIRQ :: nat where "ALT_NIRQ \<equiv> 32"

text \<open>The entries of \<open>struct ALT_IRQ_HANDLER alt_irq[ALT_NIRQ]\<close>\<close>

record irq_entry =
  handler :: u32
  context_arg :: u32

record irq_state = cpu +
  alt_irq_active :: u32
  alt_priority_mask :: u32
  alt_irq :: "irq_entry list"

definition irq_reset :: irq_state where
  "irq_reset = \<lparr>cpu_status = 0, cpu_ienable = 0, alt_irq_active = 0, alt_priority_mask = - 1,
     alt_irq = replicate ALT_NIRQ \<lparr>handler = 0, context_arg = 0\<rparr>\<rparr>"

definition altera_nios2_gen2_irq_init :: "'a cpu_scheme \<Rightarrow> 'a cpu_scheme" where
  "altera_nios2_gen2_irq_init s = s\<lparr>cpu_ienable := 0\<rparr>"

definition alt_irq_disable :: "u32 \<Rightarrow> 'a irq_state_scheme \<Rightarrow> int \<times> 'a irq_state_scheme" where
  "alt_irq_disable i s =
     (let (status, s) = alt_irq_disable_all s;
          s = s\<lparr>alt_irq_active := alt_irq_active s AND NOT (push_bit (unat i) 1)\<rparr>;
          s = s\<lparr>cpu_ienable := alt_irq_active s\<rparr>
      in (0, alt_irq_enable_all status s))"

definition alt_irq_enable :: "u32 \<Rightarrow> 'a irq_state_scheme \<Rightarrow> int \<times> 'a irq_state_scheme" where
  "alt_irq_enable i s =
     (let (status, s) = alt_irq_disable_all s;
          s = s\<lparr>alt_irq_active := alt_irq_active s OR push_bit (unat i) 1\<rparr>;
          s = s\<lparr>cpu_ienable := alt_irq_active s\<rparr>
      in (0, alt_irq_enable_all status s))"

definition alt_irq_interruptible :: "u32 \<Rightarrow> 'a irq_state_scheme \<Rightarrow> u32 \<times> 'a irq_state_scheme" where
  "alt_irq_interruptible priority s =
     (let old_priority = alt_priority_mask s;
          s = s\<lparr>alt_priority_mask := push_bit (unat priority) 1 - 1\<rparr>;
          s = s\<lparr>cpu_ienable := alt_irq_active s AND alt_priority_mask s\<rparr>;
          s = s\<lparr>cpu_status := 1\<rparr>
      in (old_priority, s))"

definition alt_irq_non_interruptible :: "u32 \<Rightarrow> 'a irq_state_scheme \<Rightarrow> 'a irq_state_scheme" where
  "alt_irq_non_interruptible m s =
     (let s = s\<lparr>cpu_status := 0\<rparr>;
          s = s\<lparr>alt_priority_mask := m\<rparr>
      in s\<lparr>cpu_ienable := m AND alt_irq_active s\<rparr>)"

definition alt_ic_irq_enable :: "u32 \<Rightarrow> u32 \<Rightarrow> 'a irq_state_scheme \<Rightarrow> int \<times> 'a irq_state_scheme" where
  "alt_ic_irq_enable ic_id irq s = alt_irq_enable irq s"

definition alt_ic_irq_disable :: "u32 \<Rightarrow> u32 \<Rightarrow> 'a irq_state_scheme \<Rightarrow> int \<times> 'a irq_state_scheme" where
  "alt_ic_irq_disable ic_id irq s = alt_irq_disable irq s"

definition alt_ic_irq_enabled :: "u32 \<Rightarrow> u32 \<Rightarrow> 'a irq_state_scheme \<Rightarrow> u32" where
  "alt_ic_irq_enabled ic_id irq s =
     (if cpu_ienable s AND push_bit (unat irq) 1 \<noteq> 0 then 1 else 0)"

text \<open>
  Writing a table entry by a C index.  \<open>None\<close> is an index outside the table: the index of
  \<open>alt_iic_isr_register\<close> is a signed \<open>int\<close> and is only compared from above.
\<close>

definition set_entry :: "int \<Rightarrow> irq_entry \<Rightarrow> 'a irq_state_scheme \<Rightarrow> 'a irq_state_scheme option" where
  "set_entry i e s =
     (if i < 0 then None else do { t \<leftarrow> wr (alt_irq s) (nat i) e; Some (s\<lparr>alt_irq := t\<rparr>) })"

abbreviation EINVAL :: int where "EINVAL \<equiv> 22"

definition alt_iic_isr_register ::
  "u32 \<Rightarrow> u32 \<Rightarrow> u32 \<Rightarrow> u32 \<Rightarrow> 'a irq_state_scheme \<Rightarrow> (int \<times> 'a irq_state_scheme) option" where
  "alt_iic_isr_register ic_id irq isr isr_context s =
     (let i = sint irq in
      if i < int ALT_NIRQ then do {
        let (status, s) = alt_irq_disable_all s;
        s \<leftarrow> set_entry i \<lparr>handler = isr, context_arg = isr_context\<rparr> s;
        let (rc, s) = (if isr \<noteq> 0 then alt_ic_irq_enable ic_id (word_of_int i) s
                       else alt_ic_irq_disable ic_id (word_of_int i) s);
        Some (rc, alt_irq_enable_all status s)
      } else Some (- EINVAL, s))"

definition alt_ic_isr_register ::
  "u32 \<Rightarrow> u32 \<Rightarrow> u32 \<Rightarrow> u32 \<Rightarrow> 'a irq_state_scheme \<Rightarrow> (int \<times> 'a irq_state_scheme) option" where
  "alt_ic_isr_register ic_id irq isr isr_context s = alt_iic_isr_register ic_id irq isr isr_context s"

definition alt_irq_register ::
  "u32 \<Rightarrow> u32 \<Rightarrow> u32 \<Rightarrow> 'a irq_state_scheme \<Rightarrow> (int \<times> 'a irq_state_scheme) option" where
  "alt_irq_register i ctx hndlr s =
     (if i < of_nat ALT_NIRQ then do {
        let (status, s) = alt_irq_disable_all s;
        s \<leftarrow> set_entry (uint i) \<lparr>handler = hndlr, context_arg = ctx\<rparr> s;
        let (rc, s) = (if hndlr \<noteq> 0 then alt_irq_enable i s else alt_irq_disable i s);
        Some (rc, alt_irq_enable_all status s)
      } else Some (- EINVAL, s))"

section \<open>The dispatcher\<close>

text \<open>
  The inner loop of \<open>alt_irq_handler\<close> looks for the lowest set bit; the mask shifts out after
  32 steps and the loop then never ends.  The outer loop reads \<open>ipending\<close> again after each
  handler.
\<close>

partial_function (option) scan_active :: "u32 \<Rightarrow> u32 \<Rightarrow> u32 \<Rightarrow> u32 option" where
  "scan_active active m i =
     (if active AND m \<noteq> 0 then Some i else scan_active active (push_bit 1 m) (i + 1))"

partial_function (option) irq_loop ::
  "('s \<Rightarrow> u32) \<Rightarrow> (u32 \<Rightarrow> u32 \<Rightarrow> 's \<Rightarrow> 's) \<Rightarrow> ('s \<Rightarrow> irq_entry list) \<Rightarrow> u32 \<Rightarrow> 's \<Rightarrow> 's option" where
  "irq_loop pending call table active s = do {
     i \<leftarrow> scan_active active 1 0;
     e \<leftarrow> rd (table s) (unat i);
     let s = call (handler e) (context_arg e) s;
     let active = pending s;
     if active \<noteq> 0 then irq_loop pending call table active s else Some s
   }"

declare scan_active.simps [code] irq_loop.simps [code]

definition alt_irq_handler ::
  "('s \<Rightarrow> u32) \<Rightarrow> (u32 \<Rightarrow> u32 \<Rightarrow> 's \<Rightarrow> 's) \<Rightarrow> ('s \<Rightarrow> irq_entry list) \<Rightarrow> 's \<Rightarrow> 's option" where
  "alt_irq_handler pending call table s = irq_loop pending call table (pending s) s"

text \<open>With the custom instruction that computes the vector, a negative offset ends the loop.\<close>

partial_function (option) irq_vector_loop ::
  "('s \<Rightarrow> 32 word) \<Rightarrow> (u32 \<Rightarrow> u32 \<Rightarrow> 's \<Rightarrow> 's) \<Rightarrow> ('s \<Rightarrow> irq_entry list) \<Rightarrow> 's \<Rightarrow> 's option" where
  "irq_vector_loop vector call table s =
     (let offset = vector s in
      if 0 \<le> sint offset then
        if unat offset mod 8 \<noteq> 0 then None else do {
        e \<leftarrow> rd (table s) (unat offset div 8);
        irq_vector_loop vector call table (call (handler e) (context_arg e) s)
      } else Some s)"

section \<open>The dispatcher serves the lines in order\<close>

lemma and_bit_mask: "active AND push_bit n 1 \<noteq> 0 \<longleftrightarrow> bit active n" for active :: u32
proof -
  have "active AND push_bit n 1 = (if bit active n then push_bit n 1 else 0)"
    by (rule bit_word_eqI) (auto simp: bit_simps simp del: push_bit_of_1)
  moreover have "push_bit n 1 \<noteq> (0 :: u32)" if "bit active n"
    using bit_imp_le_length [OF that] by (simp add: push_bit_eq_0_iff)
  ultimately show ?thesis by auto
qed

lemma scan_active_finds:
  "bit active n \<Longrightarrow> (\<forall>j < n. k \<le> j \<longrightarrow> \<not> bit active j) \<Longrightarrow> k \<le> n \<Longrightarrow>
   scan_active active (push_bit k 1) (of_nat k) = Some (of_nat n)"
proof (induction "n - k" arbitrary: k)
  case 0
  then show ?case by (subst scan_active.simps) (simp add: and_bit_mask del: push_bit_of_1)
next
  case (Suc d)
  then have "\<not> bit active k" "Suc k \<le> n" "d = n - Suc k" by auto
  then have "scan_active active (push_bit (Suc k) 1) (of_nat (Suc k)) = Some (of_nat n)"
    using Suc by (intro Suc.hyps(1)) auto
  moreover have "push_bit 1 (push_bit k 1) = (push_bit (Suc k) 1 :: u32)"
    by (simp only: push_bit_push_bit plus_1_eq_Suc)
  ultimately show ?case using \<open>\<not> bit active k\<close>
    by (subst scan_active.simps) (simp add: and_bit_mask add.commute del: push_bit_of_1 push_bit_Suc)
qed

definition set_bits_of :: "u32 \<Rightarrow> nat list" where
  "set_bits_of a = filter (bit a) [0..<32]"

lemma filter_first:
  "filter P xs = x # ys \<Longrightarrow> distinct xs \<Longrightarrow> filter (\<lambda>z. P z \<and> z \<noteq> x) xs = ys"
  by (induction xs) (auto split: if_splits intro!: filter_cong)

lemma set_bits_first:
  assumes "set_bits_of a = n # ns"
  shows "bit a n \<and> n < 32 \<and> (\<forall>j < n. \<not> bit a j) \<and> set_bits_of (a AND NOT (push_bit n 1)) = ns"
proof -
  have n: "n \<in> set (set_bits_of a)" using assms by simp
  have "\<forall>j < n. \<not> bit a j"
  proof (intro allI impI notI)
    fix j assume j: "j < n" "bit a j"
    then have "j \<in> set (set_bits_of a)" using n by (auto simp: set_bits_of_def)
    moreover have "sorted (set_bits_of a)" by (simp add: set_bits_of_def sorted_wrt_filter)
    ultimately show False using assms j by auto
  qed
  moreover have "set_bits_of (a AND NOT (push_bit n 1)) = ns"
  proof -
    have "filter (bit (a AND NOT (push_bit n 1))) [0..<32] = filter (\<lambda>z. bit a z \<and> z \<noteq> n) [0..<32]"
      by (rule filter_cong) (auto simp: bit_simps simp del: push_bit_of_1)
    then show ?thesis using filter_first [OF assms [unfolded set_bits_of_def]]
      by (simp add: set_bits_of_def)
  qed
  ultimately show ?thesis using n by (simp add: set_bits_of_def)
qed

lemma set_bits_Nil: "set_bits_of a = [] \<longleftrightarrow> a = 0"
proof
  assume "set_bits_of a = []"
  then have "\<not> bit a n" if "n < 32" for n using that by (auto simp: set_bits_of_def filter_empty_conv)
  then show "a = 0" by (intro bit_word_eqI) simp
qed (simp add: set_bits_of_def)

text \<open>
  \<open>acknowledges\<close>: calling the handler of line \<open>i\<close> clears the pending bit of that line and no
  other, and leaves the table alone.
\<close>

definition acknowledges ::
  "('s \<Rightarrow> u32) \<Rightarrow> (u32 \<Rightarrow> u32 \<Rightarrow> 's \<Rightarrow> 's) \<Rightarrow> ('s \<Rightarrow> irq_entry list) \<Rightarrow> bool" where
  "acknowledges pending call table \<longleftrightarrow>
     (\<forall>s i. i < ALT_NIRQ \<longrightarrow> (let s' = call (handler (table s ! i)) (context_arg (table s ! i)) s in
        pending s' = pending s AND NOT (push_bit i 1) \<and> table s' = table s))"

definition serve ::
  "(u32 \<Rightarrow> u32 \<Rightarrow> 's \<Rightarrow> 's) \<Rightarrow> irq_entry list \<Rightarrow> nat \<Rightarrow> 's \<Rightarrow> 's" where
  "serve call t i s = call (handler (t ! i)) (context_arg (t ! i)) s"

lemma irq_loop_serves:
  assumes "acknowledges pending call table" "length (table s) = ALT_NIRQ"
    and "set_bits_of (pending s) = n # ns"
  shows "irq_loop pending call table (pending s) s = Some (fold (serve call (table s)) (n # ns) s)"
  using assms(2,3)
proof (induction ns arbitrary: s n)
  case Nil
  let ?s = "serve call (table s) n s"
  note f = set_bits_first [OF Nil(2)]
  have "pending ?s = pending s AND NOT (push_bit n 1)"
    using assms(1) f by (simp add: acknowledges_def serve_def Let_def)
  then have p: "pending ?s = 0" using f set_bits_Nil [of "pending ?s"] by simp
  have "scan_active (pending s) 1 0 = Some (of_nat n)" using scan_active_finds [of _ n 0] f by simp
  then show ?case using p f Nil(1)
    by (subst irq_loop.simps) (simp add: rd_in unat_u32_small serve_def)
next
  case (Cons m ns)
  let ?s = "serve call (table s) n s"
  note f = set_bits_first [OF Cons(3)]
  have p: "pending ?s = pending s AND NOT (push_bit n 1)" "table ?s = table s"
    using assms(1) f by (simp_all add: acknowledges_def serve_def Let_def)
  then have rest: "set_bits_of (pending ?s) = m # ns" using f by simp
  then have nz: "pending ?s \<noteq> 0" using set_bits_Nil [of "pending ?s"] by auto
  have "scan_active (pending s) 1 0 = Some (of_nat n)" using scan_active_finds [of _ n 0] f by simp
  then have "irq_loop pending call table (pending s) s = irq_loop pending call table (pending ?s) ?s"
    using nz f Cons(2) by (subst irq_loop.simps) (simp add: rd_in unat_u32_small serve_def Let_def)
  then show ?case using Cons.IH [of ?s m] rest p(2) Cons(2) by simp
qed

section \<open>Properties\<close>

lemma irq_enable_eq:
  "alt_irq_enable i s = (0, s\<lparr>alt_irq_active := alt_irq_active s OR push_bit (unat i) 1,
     cpu_ienable := alt_irq_active s OR push_bit (unat i) 1\<rparr>)"
  by (simp add: alt_irq_enable_def alt_irq_disable_all_def alt_irq_enable_all_def Let_def)

lemma irq_disable_eq:
  "alt_irq_disable i s = (0, s\<lparr>alt_irq_active := alt_irq_active s AND NOT (push_bit (unat i) 1),
     cpu_ienable := alt_irq_active s AND NOT (push_bit (unat i) 1)\<rparr>)"
  by (simp add: alt_irq_disable_def alt_irq_disable_all_def alt_irq_enable_all_def Let_def)

lemma uint_less_nirq: "uint i < 32 \<longleftrightarrow> unat i < ALT_NIRQ" for i :: u32
proof -
  have "int (unat i) = uint i" by simp
  then show ?thesis by linarith
qed

text \<open>
  every outcome of registering a handler with the enhanced interface.  A line below 32
  gets its table entry and its bit in \<open>alt_irq_active\<close> and \<open>ienable\<close> (set for a handler,
  cleared for a null one), the interrupt mode is as before and the result is 0; a larger
  line is refused with \<open>-EINVAL\<close> and nothing changes; but a line whose number is negative as
  an \<open>int\<close> passes the check and indexes in front of the table.
\<close>

theorem isr_register_outcomes:
  assumes "length (alt_irq s) = ALT_NIRQ"
  shows "alt_ic_isr_register ic_id irq isr ctx s =
    (if unat irq < ALT_NIRQ then
       (let a = (if isr \<noteq> 0 then alt_irq_active s OR push_bit (unat irq) 1
                 else alt_irq_active s AND NOT (push_bit (unat irq) 1))
        in Some (0, s\<lparr>alt_irq := (alt_irq s)[unat irq := \<lparr>handler = isr, context_arg = ctx\<rparr>],
                     alt_irq_active := a, cpu_ienable := a\<rparr>))
     else if unat irq < 2 ^ 31 then Some (- EINVAL, s) else None)"
proof (cases "unat irq < 2 ^ 31")
  case True
  then have i: "sint irq = int (unat irq)" by (rule sint_u32_small)
  show ?thesis
  proof (cases "unat irq < ALT_NIRQ")
    case True
    have "set_entry (sint irq) e (snd (alt_irq_disable_all s))
        = Some ((snd (alt_irq_disable_all s))\<lparr>alt_irq := (alt_irq s)[unat irq := e]\<rparr>)" for e
      using True assms i by (simp add: set_entry_def wr_in alt_irq_disable_all_def Let_def)
    then show ?thesis using True assms i uint_less_nirq [of irq]
      by (simp add: alt_ic_isr_register_def alt_iic_isr_register_def Let_def alt_irq_disable_all_def
          alt_ic_irq_enable_def alt_ic_irq_disable_def irq_enable_eq irq_disable_eq
          alt_irq_enable_all_def)
  next
    case False
    then show ?thesis using True i uint_less_nirq [of irq]
      by (simp add: alt_ic_isr_register_def alt_iic_isr_register_def Let_def)
  qed
next
  case False
  then have "sint irq < 0" using sint_u32_neg [of irq] by simp
  then show ?thesis using False
    by (simp add: alt_ic_isr_register_def alt_iic_isr_register_def Let_def set_entry_def case_prod_beta)
qed

theorem isr_register_outcomes_witness:
  "alt_ic_isr_register 0 5 0x1000 7 irq_reset = Some (0, irq_reset\<lparr>
      alt_irq := (alt_irq irq_reset)[5 := \<lparr>handler = 0x1000, context_arg = 7\<rparr>],
      alt_irq_active := 32, cpu_ienable := 32\<rparr>)
   \<and> alt_ic_isr_register 0 0xFFFFFFFF 0x1000 7 irq_reset = None"
  using isr_register_outcomes [where s = irq_reset and ic_id = 0 and irq = 5 and isr = "0x1000" and ctx = 7]
    isr_register_outcomes [where s = irq_reset and ic_id = 0 and irq = "0xFFFFFFFF" and isr = "0x1000" and ctx = 7]
  by (simp add: irq_reset_def)

text \<open>
  for a line below 32 the legacy registration does exactly what the enhanced one does;
  it compares an unsigned number, so it refuses all others.
\<close>

theorem legacy_register_agrees:
  assumes "length (alt_irq s) = ALT_NIRQ"
  shows "alt_irq_register irq ctx isr s =
    (if unat irq < ALT_NIRQ then alt_ic_isr_register ic_id irq isr ctx s else Some (- EINVAL, s))"
proof (cases "unat irq < ALT_NIRQ")
  case True
  then have "sint irq = uint irq" using sint_u32_small [of irq] by simp
  then show ?thesis using True uint_less_nirq [of irq]
    by (cases "isr = 0")
      (simp_all add: alt_irq_register_def alt_ic_isr_register_def alt_iic_isr_register_def
        word_less_nat_alt alt_ic_irq_enable_def alt_ic_irq_disable_def Let_def)
next
  case False
  then show ?thesis by (simp add: alt_irq_register_def word_less_nat_alt)
qed

theorem legacy_register_agrees_witness:
  "alt_irq_register 5 7 0x1000 irq_reset = alt_ic_isr_register 0 5 0x1000 7 irq_reset"
  using legacy_register_agrees [where s = irq_reset and irq = 5 and ctx = 7 and isr = "0x1000" and ic_id = 0] by (simp add: irq_reset_def)

text \<open>
  C24: the exception handler returns and calls the handler of every pending line exactly
  once, lowest number first, provided each handler acknowledges its own line.
\<close>

theorem irq_handler_serves_in_order:
  assumes "acknowledges pending call table" and "length (table s) = ALT_NIRQ" and "pending s \<noteq> 0"
  shows "alt_irq_handler pending call table s
    = Some (fold (serve call (table s)) (filter (bit (pending s)) [0..<ALT_NIRQ]) s)"
proof -
  obtain n ns where n: "set_bits_of (pending s) = n # ns"
    using assms(3) set_bits_Nil [of "pending s"] by (cases "set_bits_of (pending s)") auto
  show ?thesis using irq_loop_serves [OF assms(1,2) n]
    by (simp only: alt_irq_handler_def set_bits_of_def flip: n)
qed

text \<open>A world in which a handler clears the line of its address and logs its context.\<close>

definition demo_call :: "u32 \<Rightarrow> u32 \<Rightarrow> u32 \<times> u32 list \<Rightarrow> u32 \<times> u32 list" where
  "demo_call h c s = (fst s AND NOT (push_bit (unat h) 1), snd s @ [c])"

definition demo_table :: "irq_entry list" where
  "demo_table = map (\<lambda>i. \<lparr>handler = of_nat i, context_arg = of_nat (100 + i)\<rparr>) [0..<ALT_NIRQ]"

theorem irq_handler_serves_in_order_witness:
  "alt_irq_handler fst demo_call (\<lambda>_. demo_table) (0x16, []) = Some (0, [101, 102, 104])"
proof -
  have "acknowledges fst demo_call (\<lambda>_. demo_table)"
    by (simp add: acknowledges_def demo_call_def demo_table_def Let_def unat_u32_small)
  moreover have "filter (bit (0x16 :: u32)) [0..<ALT_NIRQ] = [1, 2, 4]"
    by (simp add: upt_conv_Cons bit_numeral_rec)
  ultimately show ?thesis
    using irq_handler_serves_in_order [of fst demo_call "\<lambda>_. demo_table" "(0x16, [])"]
    by (simp add: serve_def demo_call_def demo_table_def)
qed

text \<open>
  a handler that opens itself to higher priorities and closes again with the mask it was
  given leaves the enabled lines as they were under the outer mask, with interrupts off; in
  between exactly the active lines below its priority are enabled.
\<close>

theorem interruptible_bracket:
  fixes s :: "'a irq_state_scheme"
  assumes "cpu_ienable s = alt_irq_active s AND alt_priority_mask s"
    and "alt_irq_interruptible p s = (old, s1)"
  shows "cpu_ienable s1 = alt_irq_active s AND mask (unat p) \<and> interrupts_on s1
    \<and> alt_irq_non_interruptible old s1 = s\<lparr>cpu_status := 0\<rparr>"
  using assms by (auto simp: alt_irq_interruptible_def alt_irq_non_interruptible_def Let_def
      irq_mode_bit mask_eq_decr_exp and.commute)

theorem interruptible_bracket_witness:
  "cpu_ienable (snd (alt_irq_interruptible 3 (irq_reset\<lparr>alt_irq_active := 0xFF, cpu_ienable := 0xFF\<rparr>))) = 7"
  using interruptible_bracket [of "irq_reset\<lparr>alt_irq_active := 0xFF, cpu_ienable := 0xFF\<rparr>" 3
      "fst (alt_irq_interruptible 3 (irq_reset\<lparr>alt_irq_active := 0xFF, cpu_ienable := 0xFF\<rparr>))"
      "snd (alt_irq_interruptible 3 (irq_reset\<lparr>alt_irq_active := 0xFF, cpu_ienable := 0xFF\<rparr>))"]
  by (simp add: irq_reset_def mask_eq_exp_minus_1)

end
