(* ===== verification/Llist.thy ===== *)
theory Llist
  imports Prelude
begin

text \<open>
  The doubly linked lists of \<open>HAL/inc/sys/alt_llist.h\<close> that alarms, devices and file
  systems are kept in.  A list is a ring through its head element; the links of all
  elements are one heap from addresses to \<open>next\<close>/\<open>previous\<close> pairs, and following a pointer
  to an address that holds no element is \<open>None\<close>.  The refinement to HOL lists is stated as
  a locale and proved for the code's heap operations.
\<close>

type_synonym addr = u32

abbreviation (input) NULL :: addr where "NULL \<equiv> 0"

section \<open>Elements and their heap\<close>

record alt_llist =
  l_next :: addr
  l_previous :: addr

type_synonym links = "addr \<Rightarrow> alt_llist option"

definition next_of :: "links \<Rightarrow> addr \<Rightarrow> addr option" where
  "next_of h p = map_option l_next (h p)"

definition previous_of :: "links \<Rightarrow> addr \<Rightarrow> addr option" where
  "previous_of h p = map_option l_previous (h p)"

definition set_next :: "addr \<Rightarrow> addr \<Rightarrow> links \<Rightarrow> links option" where
  "set_next p v h = do { e \<leftarrow> h p; Some (h(p \<mapsto> e\<lparr>l_next := v\<rparr>)) }"

definition set_previous :: "addr \<Rightarrow> addr \<Rightarrow> links \<Rightarrow> links option" where
  "set_previous p v h = do { e \<leftarrow> h p; Some (h(p \<mapsto> e\<lparr>l_previous := v\<rparr>)) }"

text \<open>\<open>ALT_LLIST_HEAD\<close> and \<open>ALT_LLIST_ENTRY\<close>\<close>

definition llist_head :: "addr \<Rightarrow> links \<Rightarrow> links" where
  "llist_head head h = h(head \<mapsto> \<lparr>l_next = head, l_previous = head\<rparr>)"

definition llist_entry :: "addr \<Rightarrow> links \<Rightarrow> links" where
  "llist_entry entry h = h(entry \<mapsto> \<lparr>l_next = NULL, l_previous = NULL\<rparr>)"

definition alt_llist_insert :: "addr \<Rightarrow> addr \<Rightarrow> links \<Rightarrow> links option" where
  "alt_llist_insert list entry h = do {
     h \<leftarrow> set_previous entry list h;
     n \<leftarrow> next_of h list;
     h \<leftarrow> set_next entry n h;
     n \<leftarrow> next_of h list;
     h \<leftarrow> set_previous n entry h;
     set_next list entry h
   }"

definition alt_llist_remove :: "addr \<Rightarrow> links \<Rightarrow> links option" where
  "alt_llist_remove entry h = do {
     n \<leftarrow> next_of h entry;
     p \<leftarrow> previous_of h entry;
     h \<leftarrow> set_previous n p h;
     p \<leftarrow> previous_of h entry;
     n \<leftarrow> next_of h entry;
     h \<leftarrow> set_next p n h;
     h \<leftarrow> set_previous entry entry h;
     set_next entry entry h
   }"

section \<open>The contract of an intrusive list\<close>

text \<open>
  \<open>ring h a xs\<close>: from the head \<open>a\<close> the list holds the elements \<open>xs\<close>.  \<open>succ\<close> is what a
  client's traversal follows.
\<close>

locale intrusive_list =
  fixes ring :: "'h \<Rightarrow> 'a \<Rightarrow> 'a list \<Rightarrow> bool"
    and succ :: "'h \<Rightarrow> 'a \<Rightarrow> 'a option"
    and valid :: "'h \<Rightarrow> 'a \<Rightarrow> bool"
    and insert_after :: "'a \<Rightarrow> 'a \<Rightarrow> 'h \<Rightarrow> 'h option"
    and unlink :: "'a \<Rightarrow> 'h \<Rightarrow> 'h option"
  assumes ring_distinct: "ring h a xs \<Longrightarrow> distinct (a # xs)"
    and ring_valid: "ring h a xs \<Longrightarrow> x \<in> set (a # xs) \<Longrightarrow> valid h x"
    and succ_head: "ring h a xs \<Longrightarrow> succ h a = Some (hd (xs @ [a]))"
    and succ_elem: "ring h a (xs @ x # ys) \<Longrightarrow> succ h x = Some (hd (ys @ [a]))"
    and insert_ok: "ring h a xs \<Longrightarrow> valid h e \<Longrightarrow> e \<notin> set (a # xs) \<Longrightarrow>
      \<exists>h'. insert_after a e h = Some h' \<and> ring h' a (e # xs) \<and> (\<forall>x. valid h' x = valid h x)"
    and unlink_ok: "ring h a (xs @ x # ys) \<Longrightarrow>
      \<exists>h'. unlink x h = Some h' \<and> ring h' a (xs @ ys) \<and> (\<forall>y. valid h' y = valid h y)"
begin

text \<open>Unlinking an element leaves a ring into which it can be put again.\<close>

lemma reinsert:
  assumes "ring h a (xs @ x # ys)"
  shows "\<exists>h' h''. unlink x h = Some h' \<and> insert_after a x h' = Some h'' \<and> ring h'' a (x # xs @ ys)"
proof -
  obtain h' where h': "unlink x h = Some h'" "ring h' a (xs @ ys)" "\<forall>y. valid h' y = valid h y"
    using unlink_ok [OF assms] by blast
  have "valid h' x" "x \<notin> set (a # xs @ ys)"
    using h'(3) ring_valid [OF assms, of x] ring_distinct [OF assms] by auto
  then show ?thesis using insert_ok [OF h'(2)] h'(1) by blast
qed

text \<open>Registering elements one after the other stacks them up in front.\<close>

lemma insert_many:
  assumes "ring h a xs" "distinct es" "set es \<inter> set (a # xs) = {}" "\<And>e. e \<in> set es \<Longrightarrow> valid h e"
  shows "\<exists>h'. foldM (insert_after a) es h = Some h' \<and> ring h' a (rev es @ xs)"
  using assms
proof (induction es arbitrary: h xs)
  case (Cons e es)
  obtain h' where h': "insert_after a e h = Some h'" "ring h' a (e # xs)" "\<forall>x. valid h' x = valid h x"
    using insert_ok [OF Cons.prems(1), of e] Cons.prems by auto
  then have "\<exists>h''. foldM (insert_after a) es h' = Some h'' \<and> ring h'' a (rev es @ e # xs)"
    using Cons.prems by (intro Cons.IH) auto
  with h' show ?case by simp
qed simp

end

section \<open>Rings in the heap\<close>

definition edge :: "links \<Rightarrow> addr \<Rightarrow> addr \<Rightarrow> bool" where
  "edge h p q \<longleftrightarrow> next_of h p = Some q \<and> previous_of h q = Some p"

fun segment :: "links \<Rightarrow> addr \<Rightarrow> addr list \<Rightarrow> addr \<Rightarrow> bool" where
  "segment h p [] q = edge h p q"
| "segment h p (x # xs) q = (edge h p x \<and> segment h x xs q)"

definition ring :: "links \<Rightarrow> addr \<Rightarrow> addr list \<Rightarrow> bool" where
  "ring h a xs \<longleftrightarrow> distinct (a # xs) \<and> segment h a xs a"

definition valid :: "links \<Rightarrow> addr \<Rightarrow> bool" where
  "valid h p \<longleftrightarrow> h p \<noteq> None"

lemma segment_append: "segment h p (xs @ x # ys) q = (segment h p xs x \<and> segment h x ys q)"
  by (induction xs arbitrary: p) auto

lemma segment_frame:
  assumes "\<And>a. a \<in> set (p # xs) \<Longrightarrow> next_of h' a = next_of h a"
    and "\<And>a. a \<in> set (xs @ [q]) \<Longrightarrow> previous_of h' a = previous_of h a"
  shows "segment h' p xs q = segment h p xs q"
  using assms by (induction xs arbitrary: p) (auto simp: edge_def)

lemma set_next_ok:
  assumes "valid h p"
  shows "\<exists>h'. set_next p v h = Some h' \<and> next_of h' = (next_of h)(p := Some v)
    \<and> previous_of h' = previous_of h \<and> (\<forall>x. valid h' x = valid h x)"
proof -
  obtain e where "h p = Some e" using assms by (auto simp: valid_def)
  then show ?thesis
    by (intro exI [of _ "h(p \<mapsto> e\<lparr>l_next := v\<rparr>)"])
       (simp add: set_next_def next_of_def previous_of_def valid_def fun_eq_iff)
qed

lemma set_previous_ok:
  assumes "valid h p"
  shows "\<exists>h'. set_previous p v h = Some h' \<and> previous_of h' = (previous_of h)(p := Some v)
    \<and> next_of h' = next_of h \<and> (\<forall>x. valid h' x = valid h x)"
proof -
  obtain e where "h p = Some e" using assms by (auto simp: valid_def)
  then show ?thesis
    by (intro exI [of _ "h(p \<mapsto> e\<lparr>l_previous := v\<rparr>)"])
       (simp add: set_previous_def next_of_def previous_of_def valid_def fun_eq_iff)
qed

lemma edge_valid: "edge h p q \<Longrightarrow> valid h p \<and> valid h q"
  by (auto simp: edge_def next_of_def previous_of_def valid_def)

lemma segment_valid: "segment h p xs q \<Longrightarrow> x \<in> set (p # xs @ [q]) \<Longrightarrow> valid h x"
  by (induction xs arbitrary: p) (auto dest: edge_valid)

lemma segment_hd: "segment h p xs q \<Longrightarrow> edge h p (hd (xs @ [q]))"
  by (cases xs) auto

lemma segment_last: "segment h p xs q \<Longrightarrow> edge h (last (p # xs)) q"
  by (induction xs arbitrary: p) auto

lemma alt_llist_insert_ok:
  assumes r: "ring h a xs" and e: "valid h e" "e \<notin> set (a # xs)"
  shows "\<exists>h'. alt_llist_insert a e h = Some h' \<and> ring h' a (e # xs) \<and> (\<forall>x. valid h' x = valid h x)
    \<and> (\<forall>x. x \<notin> set (a # e # xs) \<longrightarrow> next_of h' x = next_of h x \<and> previous_of h' x = previous_of h x)"
proof -
  let ?n = "hd (xs @ [a])"
  have n: "edge h a ?n" "valid h ?n" "valid h a" "?n \<noteq> e" "a \<noteq> e"
    using r e segment_hd [of h a xs a] edge_valid [of h a ?n]
    by (auto simp: ring_def hd_append split: if_splits)
  obtain h1 where h1: "set_previous e a h = Some h1" "previous_of h1 = (previous_of h)(e := Some a)"
    "next_of h1 = next_of h" "\<forall>x. valid h1 x = valid h x" using set_previous_ok [OF e(1)] by blast
  obtain h2 where h2: "set_next e ?n h1 = Some h2" "next_of h2 = (next_of h)(e := Some ?n)"
    "previous_of h2 = (previous_of h)(e := Some a)" "\<forall>x. valid h2 x = valid h x"
    using set_next_ok [of h1 e ?n] h1 e by metis
  obtain h3 where h3: "set_previous ?n e h2 = Some h3" "next_of h3 = (next_of h)(e := Some ?n)"
    "previous_of h3 = (previous_of h)(e := Some a, ?n := Some e)" "\<forall>x. valid h3 x = valid h x"
    using set_previous_ok [of h2 ?n e] h2 n by metis
  obtain h4 where h4: "set_next a e h3 = Some h4" "next_of h4 = (next_of h)(e := Some ?n, a := Some e)"
    "previous_of h4 = (previous_of h)(e := Some a, ?n := Some e)" "\<forall>x. valid h4 x = valid h x"
    using set_next_ok [of h3 a e] h3 n by metis
  have run: "alt_llist_insert a e h = Some h4"
    using h1 h2 h3 h4 n e by (simp add: alt_llist_insert_def edge_def)
  have "segment h4 e xs a"
  proof (cases xs)
    case Nil
    then show ?thesis using h4 e by (simp add: edge_def)
  next
    case (Cons y ys)
    have "segment h4 y ys a = segment h y ys a"
      using Cons r e h4 by (intro segment_frame) (auto simp: ring_def)
    then show ?thesis using Cons r e h4 by (simp add: ring_def edge_def)
  qed
  then have "ring h4 a (e # xs)" using r e h4 n by (auto simp: ring_def edge_def hd_append)
  moreover have "next_of h4 x = next_of h x \<and> previous_of h4 x = previous_of h x"
    if "x \<notin> set (a # e # xs)" for x using that h4 by (auto simp: hd_append)
  ultimately show ?thesis using run h4(4) by blast
qed

lemma alt_llist_remove_ok:
  assumes r: "ring h a (xs @ x # ys)"
  shows "\<exists>h'. alt_llist_remove x h = Some h' \<and> ring h' a (xs @ ys) \<and> (\<forall>y. valid h' y = valid h y)
    \<and> next_of h' x = Some x \<and> previous_of h' x = Some x"
proof -
  let ?n = "hd (ys @ [a])" and ?p = "last (a # xs)"
  have s: "segment h a xs x" "segment h x ys a" "distinct (a # xs @ x # ys)"
    using r by (auto simp: ring_def segment_append)
  have pn: "edge h ?p x" "edge h x ?n" "?p \<noteq> x" "?n \<noteq> x"
    using segment_last [OF s(1)] segment_hd [OF s(2)] s(3) by (auto simp: hd_append split: if_splits)
  have p: "?p \<in> set (a # xs)" by (rule last_in_set) simp
  note v = edge_valid [OF pn(1)] edge_valid [OF pn(2)]
  obtain h1 where h1: "set_previous ?n ?p h = Some h1" "previous_of h1 = (previous_of h)(?n := Some ?p)"
    "next_of h1 = next_of h" "\<forall>x. valid h1 x = valid h x" using set_previous_ok v by blast
  obtain h2 where h2: "set_next ?p ?n h1 = Some h2" "next_of h2 = (next_of h)(?p := Some ?n)"
    "previous_of h2 = (previous_of h)(?n := Some ?p)" "\<forall>x. valid h2 x = valid h x"
    using set_next_ok [of h1 ?p ?n] h1 v by metis
  obtain h3 where h3: "set_previous x x h2 = Some h3" "next_of h3 = (next_of h)(?p := Some ?n)"
    "previous_of h3 = (previous_of h)(?n := Some ?p, x := Some x)" "\<forall>x. valid h3 x = valid h x"
    using set_previous_ok [of h2 x x] h2 v by metis
  obtain h4 where h4: "set_next x x h3 = Some h4" "next_of h4 = (next_of h)(?p := Some ?n, x := Some x)"
    "previous_of h4 = (previous_of h)(?n := Some ?p, x := Some x)" "\<forall>x. valid h4 x = valid h x"
    using set_next_ok [of h3 x x] h3 v by metis
  have run: "alt_llist_remove x h = Some h4"
    using h1 h2 h3 h4 pn by (simp add: alt_llist_remove_def edge_def)
  have mid: "edge h4 ?p ?n" using h4 pn by (simp add: edge_def)
  have "segment h4 a (xs @ ys) a"
  proof (cases ys)
    case Nil
    note ys = this
    show ?thesis
    proof (cases xs rule: rev_cases)
      case Nil
      then show ?thesis using mid ys by simp
    next
      case (snoc as b)
      have "segment h4 a as b = segment h a as b"
        using snoc ys s(3) h4 by (intro segment_frame) auto
      then show ?thesis using snoc ys mid s(1) by (simp add: segment_append)
    qed
  next
    case (Cons c cs)
    note ys = this
    have t: "segment h4 c cs a"
    proof -
      have "segment h4 c cs a = segment h c cs a"
        using ys s(3) h4 p by (intro segment_frame) auto
      then show ?thesis using ys s(2) by simp
    qed
    show ?thesis
    proof (cases xs rule: rev_cases)
      case Nil
      then show ?thesis using mid ys t by simp
    next
      case (snoc as b)
      have "segment h4 a as b = segment h a as b"
        using snoc ys s(3) h4 by (intro segment_frame) auto
      then show ?thesis using snoc ys mid t s(1) by (simp add: segment_append)
    qed
  qed
  then have "ring h4 a (xs @ ys)" using s(3) by (auto simp: ring_def)
  then show ?thesis using run h4 by auto
qed

interpretation alt_list: intrusive_list ring next_of valid alt_llist_insert alt_llist_remove
proof unfold_locales
  fix h a xs x ys e
  show "ring h a xs \<Longrightarrow> distinct (a # xs)" by (simp add: ring_def)
  show "ring h a xs \<Longrightarrow> x \<in> set (a # xs) \<Longrightarrow> valid h x"
    using segment_valid by (fastforce simp: ring_def)
  show "ring h a xs \<Longrightarrow> next_of h a = Some (hd (xs @ [a]))"
    using segment_hd by (auto simp: ring_def edge_def)
  show "ring h a (xs @ x # ys) \<Longrightarrow> next_of h x = Some (hd (ys @ [a]))"
    using segment_hd by (auto simp: ring_def edge_def segment_append)
  show "ring h a xs \<Longrightarrow> valid h e \<Longrightarrow> e \<notin> set (a # xs) \<Longrightarrow>
      \<exists>h'. alt_llist_insert a e h = Some h' \<and> ring h' a (e # xs) \<and> (\<forall>x. valid h' x = valid h x)"
    using alt_llist_insert_ok by blast
  show "ring h a (xs @ x # ys) \<Longrightarrow>
      \<exists>h'. alt_llist_remove x h = Some h' \<and> ring h' a (xs @ ys) \<and> (\<forall>y. valid h' y = valid h y)"
    using alt_llist_remove_ok by blast
qed

lemma ring_head: "ring (llist_head a h) a []"
  by (simp add: ring_def edge_def llist_head_def next_of_def previous_of_def)

end
