(* ===== verification/Alarm.thy ===== *)
theory Alarm
  imports Llist Irq
begin

text \<open>
  The system clock and its alarms: \<open>HAL/inc/sys/alt_alarm.h\<close>, \<open>HAL/src/alt_alarm_start.c\<close>,
  \<open>HAL/src/alt_tick.c\<close> and the interval timer driver
  \<open>drivers/src/altera_avalon_timer_sc.c\<close> that ticks it.

  The alarm structures are split into the links of the list they are members of and their
  other fields; \<open>alarm_list\<close> is the address of the list head.  Calling a callback is the
  parameter \<open>call\<close>; \<open>env\<close> is whatever state of the application callbacks work on.  \<open>None\<close> is
  a pointer to memory that holds no alarm.
\<close>

section \<open>State\<close>

record alarm =
  a_time :: u32
  a_callback :: u32
  a_rollover :: u8
  a_context :: u32

record 'e alarm_state = irq_state +
  alt_tick_rate :: u32
  tick_count :: u32
  alarm_list :: addr
  links :: links
  alarms :: "addr \<Rightarrow> alarm option"
  env :: 'e

abbreviation ENOTSUP :: int where "ENOTSUP \<equiv> 134"

definition alt_ticks_per_second :: "('e, 'm) alarm_state_scheme \<Rightarrow> u32" where
  "alt_ticks_per_second s = alt_tick_rate s"

definition alt_nticks :: "('e, 'm) alarm_state_scheme \<Rightarrow> u32" where
  "alt_nticks s = tick_count s"

definition alt_sysclk_init :: "u32 \<Rightarrow> ('e, 'm) alarm_state_scheme \<Rightarrow> int \<times> ('e, 'm) alarm_state_scheme" where
  "alt_sysclk_init nticks s =
     (if alt_tick_rate s = 0 then (0, s\<lparr>alt_tick_rate := nticks\<rparr>) else (- 1, s))"

section \<open>Operations\<close>

definition put_alarm :: "addr \<Rightarrow> alarm \<Rightarrow> ('e, 'm) alarm_state_scheme \<Rightarrow> ('e, 'm) alarm_state_scheme" where
  "put_alarm p a s = s\<lparr>alarms := (alarms s)(p \<mapsto> a)\<rparr>"

definition alt_alarm_start ::
  "addr \<Rightarrow> u32 \<Rightarrow> u32 \<Rightarrow> u32 \<Rightarrow> ('e, 'm) alarm_state_scheme \<Rightarrow> (int \<times> ('e, 'm) alarm_state_scheme) option" where
  "alt_alarm_start p n callback ctx s =
     (if alt_ticks_per_second s \<noteq> 0 then
        if p \<noteq> NULL then do {
          a \<leftarrow> alarms s p;
          let a = a\<lparr>a_callback := callback, a_context := ctx\<rparr>;
          let (irq_context, s) = alt_irq_disable_all s;
          let current_nticks = alt_nticks s;
          let a = a\<lparr>a_time := n + current_nticks + 1\<rparr>;
          let a = a\<lparr>a_rollover := (if a_time a < current_nticks then 1 else 0)\<rparr>;
          let s = put_alarm p a s;
          l \<leftarrow> alt_llist_insert (alarm_list s) p (links s);
          Some (0, alt_irq_enable_all irq_context (s\<lparr>links := l\<rparr>))
        } else Some (- EINVAL, s)
      else Some (- ENOTSUP, s))"

definition alt_alarm_stop :: "addr \<Rightarrow> ('e, 'm) alarm_state_scheme \<Rightarrow> ('e, 'm) alarm_state_scheme option" where
  "alt_alarm_stop p s = do {
     let (irq_context, s) = alt_irq_disable_all s;
     l \<leftarrow> alt_llist_remove p (links s);
     Some (alt_irq_enable_all irq_context (s\<lparr>links := l\<rparr>))
   }"

text \<open>The body of the loop over the alarms, then the loop and \<open>alt_tick\<close>.\<close>

definition tick_alarm ::
  "(u32 \<Rightarrow> u32 \<Rightarrow> ('e, 'm) alarm_state_scheme \<Rightarrow> u32 \<times> ('e, 'm) alarm_state_scheme)
    \<Rightarrow> addr \<Rightarrow> ('e, 'm) alarm_state_scheme \<Rightarrow> ('e, 'm) alarm_state_scheme option" where
  "tick_alarm call p s = do {
     a \<leftarrow> alarms s p;
     let a = (if a_rollover a \<noteq> 0 \<and> tick_count s = 0 then a\<lparr>a_rollover := 0\<rparr> else a);
     let s = put_alarm p a s;
     if a_time a \<le> tick_count s \<and> a_rollover a = 0 then do {
       let (next_callback, s) = call (a_callback a) (a_context a) s;
       if next_callback = 0 then alt_alarm_stop p s
       else do {
         a \<leftarrow> alarms s p;
         let a = a\<lparr>a_time := a_time a + next_callback\<rparr>;
         let a = (if a_time a < tick_count s then a\<lparr>a_rollover := 1\<rparr> else a);
         Some (put_alarm p a s)
       }
     } else Some s
   }"

partial_function (option) tick_loop ::
  "(u32 \<Rightarrow> u32 \<Rightarrow> ('e, 'm) alarm_state_scheme \<Rightarrow> u32 \<times> ('e, 'm) alarm_state_scheme)
    \<Rightarrow> addr \<Rightarrow> ('e, 'm) alarm_state_scheme \<Rightarrow> ('e, 'm) alarm_state_scheme option" where
  "tick_loop call p s =
     (if p \<noteq> alarm_list s then do {
        next \<leftarrow> next_of (links s) p;
        s \<leftarrow> tick_alarm call p s;
        tick_loop call next s
      } else Some s)"

definition alt_tick ::
  "(u32 \<Rightarrow> u32 \<Rightarrow> ('e, 'm) alarm_state_scheme \<Rightarrow> u32 \<times> ('e, 'm) alarm_state_scheme)
    \<Rightarrow> ('e, 'm) alarm_state_scheme \<Rightarrow> ('e, 'm) alarm_state_scheme option" where
  "alt_tick call s = do {
     p \<leftarrow> next_of (links s) (alarm_list s);
     tick_loop call p (s\<lparr>tick_count := tick_count s + 1\<rparr>)
   }"

text \<open>
  The timer driver.  Its register accesses are a trace of reads and writes; register \<open>r\<close> of a
  component is the word at \<open>base + 4 * r\<close>.
\<close>

datatype io = Read addr | Write addr u32

definition timer_reg :: "addr \<Rightarrow> nat \<Rightarrow> addr" where
  "timer_reg base r = base + of_nat (4 * r)"

definition alt_avalon_timer_sc_irq ::
  "(u32 \<Rightarrow> u32 \<Rightarrow> ('e, 'm) alarm_state_scheme \<Rightarrow> u32 \<times> ('e, 'm) alarm_state_scheme)
    \<Rightarrow> addr \<Rightarrow> io list \<Rightarrow> ('e, 'm) alarm_state_scheme \<Rightarrow> (io list \<times> ('e, 'm) alarm_state_scheme) option" where
  "alt_avalon_timer_sc_irq call base tr s = do {
     let tr = tr @ [Write (timer_reg base 0) 0];
     let tr = tr @ [Read (timer_reg base 1)];
     let (cpu_sr, s) = alt_irq_disable_all s;
     s \<leftarrow> alt_tick call s;
     Some (tr, alt_irq_enable_all cpu_sr s)
   }"

text \<open>The control bits are \<open>ITO\<close>, \<open>CONT\<close> and \<open>START\<close>; \<open>isr\<close> is the handler's address.\<close>

definition alt_avalon_timer_sc_init ::
  "u32 \<Rightarrow> addr \<Rightarrow> u32 \<Rightarrow> u32 \<Rightarrow> u32 \<Rightarrow> io list \<Rightarrow> ('e, 'm) alarm_state_scheme
    \<Rightarrow> (io list \<times> ('e, 'm) alarm_state_scheme) option" where
  "alt_avalon_timer_sc_init isr base irq_controller_id irq freq tr s = do {
     let (_, s) = alt_sysclk_init freq s;
     let tr = tr @ [Write (timer_reg base 1) (1 OR 2 OR 4)];
     (_, s) \<leftarrow> alt_ic_isr_register irq_controller_id irq isr base s;
     Some (tr, s)
   }"

section \<open>The abstract alarm list\<close>

definition clear_rollover :: "u32 \<Rightarrow> alarm \<Rightarrow> alarm" where
  "clear_rollover now a = (if a_rollover a \<noteq> 0 \<and> now = 0 then a\<lparr>a_rollover := 0\<rparr> else a)"

definition due :: "u32 \<Rightarrow> alarm \<Rightarrow> bool" where
  "due now a \<longleftrightarrow> a_time a \<le> now \<and> a_rollover a = 0"

definition reschedule :: "u32 \<Rightarrow> u32 \<Rightarrow> alarm \<Rightarrow> alarm" where
  "reschedule now r a =
     (let a = a\<lparr>a_time := a_time a + r\<rparr> in if a_time a < now then a\<lparr>a_rollover := 1\<rparr> else a)"

text \<open>
  One tick on the list of alarms: in list order, an alarm that is due is called; it is
  dropped when the callback returns 0 and rescheduled otherwise.
\<close>

definition tick_one ::
  "(u32 \<Rightarrow> u32 \<Rightarrow> 'e \<Rightarrow> u32 \<times> 'e) \<Rightarrow> u32 \<Rightarrow> addr \<times> alarm \<Rightarrow> 'e \<Rightarrow> (addr \<times> alarm) list \<times> 'e" where
  "tick_one g now x e =
     (let (p, a) = x; a = clear_rollover now a in
      if due now a then
        (let (r, e) = g (a_callback a) (a_context a) e
         in (if r = 0 then [] else [(p, reschedule now r a)], e))
      else ([(p, a)], e))"

fun tick_list ::
  "(u32 \<Rightarrow> u32 \<Rightarrow> 'e \<Rightarrow> u32 \<times> 'e) \<Rightarrow> u32 \<Rightarrow> (addr \<times> alarm) list \<Rightarrow> 'e \<Rightarrow> (addr \<times> alarm) list \<times> 'e" where
  "tick_list g now [] e = ([], e)"
| "tick_list g now (x # xs) e =
     (let (zs, e) = tick_one g now x e; (ys, e) = tick_list g now xs e in (zs @ ys, e))"

definition holds_alarms :: "('e, 'm) alarm_state_scheme \<Rightarrow> (addr \<times> alarm) list \<Rightarrow> bool" where
  "holds_alarms s xs \<longleftrightarrow> ring (links s) (alarm_list s) (map fst xs)
     \<and> (\<forall>p a. (p, a) \<in> set xs \<longrightarrow> alarms s p = Some a)"

text \<open>The callbacks only work on \<open>env\<close>, as the function \<open>g\<close>.\<close>

definition callbacks_are ::
  "(u32 \<Rightarrow> u32 \<Rightarrow> ('e, 'm) alarm_state_scheme \<Rightarrow> u32 \<times> ('e, 'm) alarm_state_scheme)
    \<Rightarrow> (u32 \<Rightarrow> u32 \<Rightarrow> 'e \<Rightarrow> u32 \<times> 'e) \<Rightarrow> bool" where
  "callbacks_are call g \<longleftrightarrow>
     (\<forall>f c s. call f c s = (fst (g f c (env s)), s\<lparr>env := snd (g f c (env s))\<rparr>))"

lemma holds_alarmsD:
  assumes "holds_alarms s (xs @ (p, a) # ys)"
  shows "alarms s p = Some a" "p \<noteq> alarm_list s"
    "next_of (links s) p = Some (hd (map fst ys @ [alarm_list s]))"
    "p \<notin> fst ` set xs" "p \<notin> fst ` set ys"
proof -
  have r: "ring (links s) (alarm_list s) (map fst xs @ p # map fst ys)"
    using assms by (simp add: holds_alarms_def)
  show "next_of (links s) p = Some (hd (map fst ys @ [alarm_list s]))"
    by (rule alt_list.succ_elem [OF r])
  show "alarms s p = Some a" using assms by (simp add: holds_alarms_def)
  show "p \<noteq> alarm_list s" "p \<notin> fst ` set xs" "p \<notin> fst ` set ys"
    using alt_list.ring_distinct [OF r] by auto
qed

lemma alarm_stop_ok:
  assumes "holds_alarms s (xs @ (p, a) # ys)"
  shows "\<exists>l. alt_alarm_stop p s = Some (s\<lparr>links := l\<rparr>) \<and> holds_alarms (s\<lparr>links := l\<rparr>) (xs @ ys)"
proof -
  have r: "ring (links s) (alarm_list s) (map fst xs @ p # map fst ys)"
    using assms by (simp add: holds_alarms_def)
  obtain l where "alt_llist_remove p (links s) = Some l" "ring l (alarm_list s) (map fst xs @ map fst ys)"
    using alt_list.unlink_ok [OF r] by blast
  then show ?thesis using assms
    by (intro exI [of _ l])
       (simp add: alt_alarm_stop_def alt_irq_disable_all_def alt_irq_enable_all_def holds_alarms_def Let_def)
qed

lemma put_alarm_holds:
  assumes "holds_alarms s (xs @ (p, a) # ys)"
  shows "holds_alarms (put_alarm p b s) (xs @ (p, b) # ys)"
  using assms holds_alarmsD [OF assms] by (auto simp: holds_alarms_def put_alarm_def image_iff)

lemma holds_alarms_frame:
  "links s' = links s \<Longrightarrow> alarms s' = alarms s \<Longrightarrow> alarm_list s' = alarm_list s
    \<Longrightarrow> holds_alarms s' xs = holds_alarms s xs"
  by (simp add: holds_alarms_def)

text \<open>What every step of a tick leaves alone.\<close>

definition same_clock :: "('e, 'm) alarm_state_scheme \<Rightarrow> ('e, 'm) alarm_state_scheme \<Rightarrow> bool" where
  "same_clock s s' \<longleftrightarrow> tick_count s' = tick_count s \<and> alarm_list s' = alarm_list s
     \<and> cpu_status s' = cpu_status s \<and> alt_tick_rate s' = alt_tick_rate s"

lemma tick_alarm_ok:
  assumes "callbacks_are call g" and h: "holds_alarms s (xs @ (p, a) # ys)"
    and one: "tick_one g (tick_count s) (p, a) (env s) = (zs, e')"
  shows "\<exists>s'. tick_alarm call p s = Some s' \<and> holds_alarms s' (xs @ zs @ ys) \<and> env s' = e'
    \<and> same_clock s s'"
proof -
  let ?a = "clear_rollover (tick_count s) a"
  let ?s = "put_alarm p ?a s"
  have hs: "holds_alarms ?s (xs @ (p, ?a) # ys)" by (rule put_alarm_holds [OF h])
  note d = holds_alarmsD [OF h]
  show ?thesis
  proof (cases "due (tick_count s) ?a")
    case False
    then have "tick_alarm call p s = Some ?s"
      using d(1) by (auto simp: tick_alarm_def clear_rollover_def due_def put_alarm_def Let_def)
    then show ?thesis using one hs False
      by (auto simp: tick_one_def Let_def put_alarm_def same_clock_def)
  next
    case True
    obtain r e where r: "g (a_callback ?a) (a_context ?a) (env s) = (r, e)" by (cases "g (a_callback ?a) (a_context ?a) (env s)")
    let ?t = "?s\<lparr>env := e\<rparr>"
    have call: "call (a_callback ?a) (a_context ?a) ?s = (r, ?t)"
      using assms(1) r by (simp add: callbacks_are_def put_alarm_def)
    have ht: "holds_alarms ?t (xs @ (p, ?a) # ys)" using hs by (simp add: holds_alarms_def)
    have step: "tick_alarm call p s = (if r = 0 then alt_alarm_stop p ?t
        else Some (put_alarm p (reschedule (tick_count s) r ?a) ?t))"
    proof -
      have "alarms ?t p = Some ?a" "tick_count ?t = tick_count s" by (simp_all add: put_alarm_def)
      then show ?thesis using d(1) True call
        unfolding tick_alarm_def
        by (simp add: clear_rollover_def due_def reschedule_def Let_def)
    qed
    have e: "e' = e" "zs = (if r = 0 then [] else [(p, reschedule (tick_count s) r ?a)])"
      using one r True by (simp_all add: tick_one_def Let_def)
    show ?thesis
    proof (cases "r = 0")
      case True
      obtain l where "alt_alarm_stop p ?t = Some (?t\<lparr>links := l\<rparr>)" "holds_alarms (?t\<lparr>links := l\<rparr>) (xs @ ys)"
        using alarm_stop_ok [OF ht] by blast
      then show ?thesis using step True e by (simp add: same_clock_def put_alarm_def)
    next
      case False
      then show ?thesis using step e put_alarm_holds [OF ht]
        by (simp add: same_clock_def put_alarm_def)
    qed
  qed
qed

lemma tick_loop_ok:
  assumes "callbacks_are call g" and "holds_alarms s (xs @ ys)"
    and "tick_list g (tick_count s) ys (env s) = (zs, e')"
  shows "\<exists>s'. tick_loop call (hd (map fst ys @ [alarm_list s])) s = Some s'
    \<and> holds_alarms s' (xs @ zs) \<and> env s' = e' \<and> same_clock s s'"
  using assms(2,3)
proof (induction ys arbitrary: s xs zs)
  case Nil
  then show ?case by (subst tick_loop.simps) (simp add: same_clock_def)
next
  case (Cons y ys)
  obtain p a where y: "y = (p, a)" by (cases y)
  note h = Cons.prems(1) [unfolded y]
  obtain z1 e1 where one: "tick_one g (tick_count s) (p, a) (env s) = (z1, e1)"
    by (cases "tick_one g (tick_count s) (p, a) (env s)")
  obtain z2 where two: "tick_list g (tick_count s) ys e1 = (z2, e')" "zs = z1 @ z2"
    using Cons.prems(2) one y by (auto simp: Let_def split: prod.splits)
  obtain s1 where s1: "tick_alarm call p s = Some s1" "holds_alarms s1 (xs @ z1 @ ys)" "env s1 = e1"
    "same_clock s s1" using tick_alarm_ok [OF assms(1) h one] by blast
  have "\<exists>s'. tick_loop call (hd (map fst ys @ [alarm_list s1])) s1 = Some s'
    \<and> holds_alarms s' ((xs @ z1) @ z2) \<and> env s' = e' \<and> same_clock s1 s'"
    by (rule Cons.IH) (use s1 two in \<open>simp_all add: same_clock_def\<close>)
  then show ?case using s1 two y holds_alarmsD [OF h]
    by (subst tick_loop.simps) (auto simp: same_clock_def)
qed

section \<open>Counting ticks across the wrap of the counter\<close>

definition new_alarm :: "u32 \<Rightarrow> u32 \<Rightarrow> u32 \<Rightarrow> u32 \<Rightarrow> alarm" where
  "new_alarm now n f c = \<lparr>a_time = n + now + 1, a_callback = f,
     a_rollover = (if n + now + 1 < now then 1 else 0), a_context = c\<rparr>"

lemma alarm_start_ok:
  fixes s :: "('e, 'm) alarm_state_scheme"
  assumes "alt_tick_rate s \<noteq> 0" "p \<noteq> NULL" "holds_alarms s xs" "valid (links s) p"
    and "alarms s p = Some a" "p \<notin> set (alarm_list s # map fst xs)"
  shows "\<exists>s'. alt_alarm_start p n f c s = Some (0, s') \<and> env s' = env s \<and> same_clock s s'
    \<and> holds_alarms s' ((p, new_alarm (tick_count s) n f c) # xs)"
proof -
  let ?a = "new_alarm (tick_count s) n f c"
  have "ring (links s) (alarm_list s) (map fst xs)" using assms(3) by (simp add: holds_alarms_def)
  then obtain l where l: "alt_llist_insert (alarm_list s) p (links s) = Some l"
    "ring l (alarm_list s) (p # map fst xs)"
    using alt_list.insert_ok [of "links s" "alarm_list s" "map fst xs" p] assms(4,6) by blast
  let ?s = "(put_alarm p ?a s)\<lparr>links := l\<rparr>"
  have a: "a\<lparr>a_callback := f, a_context := c, a_time := n + tick_count s + 1,
      a_rollover := if n + tick_count s + 1 < tick_count s then 1 else 0\<rparr> = ?a"
    by (simp add: new_alarm_def)
  have "alt_alarm_start p n f c s = Some (0, ?s)"
    using assms l a by (simp add: alt_alarm_start_def alt_ticks_per_second_def alt_nticks_def
        alt_irq_disable_all_def alt_irq_enable_all_def put_alarm_def Let_def)
  moreover have "holds_alarms ?s ((p, ?a) # xs)"
    using l(2) assms(3,6) by (auto simp: holds_alarms_def put_alarm_def image_iff)
  ultimately show ?thesis by (simp add: same_clock_def put_alarm_def)
qed

text \<open>
  For how many ticks a new alarm waits before the one in which it is called: for the interval it
  was started with.  With the interval \<open>2^32 - 1\<close> the due time is the current count, so that it is
  called at the next tick already, unless the counter wraps at that one.
\<close>

definition waits :: "u32 \<Rightarrow> u32 \<Rightarrow> nat" where
  "waits now n = (if n = - 1 \<and> now \<noteq> - 1 then 0 else unat n)"

text \<open>
  The alarm after \<open>k\<close> ticks: its time is unchanged, and the rollover flag is set exactly as
  long as the due time has wrapped and the counter has not.
\<close>

definition waiting :: "u32 \<Rightarrow> u32 \<Rightarrow> nat \<Rightarrow> alarm \<Rightarrow> bool" where
  "waiting now n k a \<longleftrightarrow> a_time a = n + now + 1
     \<and> (a_rollover a \<noteq> 0 \<longleftrightarrow> n \<noteq> - 1 \<and> 2 ^ 32 \<le> unat now + unat n + 1 \<and> unat now + k < 2 ^ 32)"

lemma unat_sum32:
  "unat (x + of_nat k :: u32) = (if unat x + k < 2 ^ 32 then unat x + k else unat x + k - 2 ^ 32)"
  if "unat x + k < 2 ^ 33"
proof -
  have "unat (x + of_nat k) = (unat x + k) mod 2 ^ 32"
    by (simp add: unat_word_ariths unsigned_of_nat take_bit_eq_mod mod_add_right_eq)
  also have "\<dots> = (if unat x + k < 2 ^ 32 then unat x + k else unat x + k - 2 ^ 32)"
    using that by (auto simp: mod_if)
  finally show ?thesis .
qed

lemma due_time:
  assumes "n \<noteq> - 1"
  shows "unat (n + now + 1 :: u32) = (if unat now + unat n + 1 < 2 ^ 32 then unat now + unat n + 1
     else unat now + unat n + 1 - 2 ^ 32)" and "unat n + 1 < 2 ^ 32"
proof -
  have "n + 1 \<noteq> 0" using assms by (simp add: eq_neg_iff_add_eq_0)
  then have "unat (n + 1) = unat n + 1" by (simp add: unat_add_1)
  then show b: "unat n + 1 < 2 ^ 32" using unat_u32_lt [of "n + 1"] by simp
  have "n + now + 1 = now + of_nat (unat n + 1)" by simp
  then show "unat (n + now + 1 :: u32) = (if unat now + unat n + 1 < 2 ^ 32 then unat now + unat n + 1
     else unat now + unat n + 1 - 2 ^ 32)"
    using unat_sum32 [of now "unat n + 1"] b unat_u32_lt [of now] by (simp only: add.assoc) simp
qed

lemma waiting_new: "waiting now n 0 (new_alarm now n f c)"
  using due_time(1) [of n now] due_time(2) [of n] unat_u32_lt [of now]
  by (cases "n = - 1") (auto simp: waiting_def new_alarm_def word_less_nat_alt)

lemma waiting_step:
  assumes "waiting now n k a" "k \<le> waits now n"
  shows "waiting now n (Suc k) (clear_rollover (now + of_nat (Suc k)) a)" (is ?waiting)
    and "due (now + of_nat (Suc k)) (clear_rollover (now + of_nat (Suc k)) a) \<longleftrightarrow> k = waits now n" (is ?due)
proof -
  let ?t = "now + of_nat (Suc k)"
  have "?waiting \<and> ?due"
  proof (cases "n = - 1")
    case False
    have k: "k \<le> unat n" "waits now n = unat n" using assms(2) False by (simp_all add: waits_def)
    have b: "unat now < 2 ^ 32" "unat n + 1 < 2 ^ 32" using unat_u32_lt due_time(2) [OF False] by auto
    have t: "unat ?t = (if unat now + Suc k < 2 ^ 32 then unat now + Suc k else unat now + Suc k - 2 ^ 32)"
      by (rule unat_sum32) (use b k(1) in simp)
    then have z: "?t = 0 \<longleftrightarrow> unat now + Suc k = 2 ^ 32"
      using unat_eq_0 [of ?t] by (auto split: if_splits)
    have w: "waiting now n (Suc k) (clear_rollover ?t a)"
      unfolding clear_rollover_def z using assms(1) by (auto simp: waiting_def)
    moreover have "due ?t (clear_rollover ?t a) \<longleftrightarrow> k = unat n"
      using w t due_time(1) [OF False, of now] k(1) b False
      by (auto simp: due_def waiting_def word_le_nat_alt split: if_splits)
    ultimately show ?thesis by (simp add: k(2) del: of_nat_Suc)
  next
    case True
    have a: "clear_rollover ?t a = a" "a_time a = now" "a_rollover a = 0"
      using assms(1) True by (simp_all add: waiting_def clear_rollover_def)
    have "now \<le> ?t \<longleftrightarrow> k = waits now n"
    proof (cases "now = - 1")
      case top: True
      have m: "unat (- 1 :: u32) = 2 ^ 32 - 1" by (simp add: unsigned_minus_1_eq_mask mask_eq_exp_minus_1)
      have k: "k \<le> 2 ^ 32 - 1" "waits now n = 2 ^ 32 - 1" using assms(2) True top m by (simp_all add: waits_def)
      have "?t = of_nat k" by (simp add: top)
      moreover have "unat (of_nat k :: u32) = k" using k(1) by (intro unat_u32_small) simp
      ultimately show ?thesis using k by (simp add: word_le_nat_alt top m del: of_nat_Suc)
    next
      case False
      then have "k = 0" "waits now n = 0" using assms(2) True by (simp_all add: waits_def)
      moreover have "unat (now + of_nat 1) = unat now + 1" using unat_limit_Suc [OF False] by (simp add: add.commute)
      ultimately show ?thesis by (simp add: word_le_nat_alt)
    qed
    with a True show ?thesis by (simp add: waiting_def due_def del: of_nat_Suc)
  qed
  then show ?waiting ?due by blast+
qed

lemma alt_tick_ok:
  fixes s :: "('e, 'm) alarm_state_scheme"
  assumes "callbacks_are call g" and "holds_alarms s xs"
    and "tick_list g (tick_count s + 1) xs (env s) = (ys, e)"
  shows "\<exists>s'. alt_tick call s = Some s' \<and> holds_alarms s' ys \<and> env s' = e
    \<and> same_clock (s\<lparr>tick_count := tick_count s + 1\<rparr>) s'"
proof -
  let ?s = "s\<lparr>tick_count := tick_count s + 1\<rparr>"
  have h: "holds_alarms ?s ([] @ xs)" using assms(2) by (simp add: holds_alarms_def)
  have "tick_list g (tick_count ?s) xs (env ?s) = (ys, e)" using assms(3) by simp
  then obtain s' where s': "tick_loop call (hd (map fst xs @ [alarm_list ?s])) ?s = Some s'"
    "holds_alarms s' ys" "env s' = e" "same_clock ?s s'"
    using tick_loop_ok [OF assms(1) h] by auto
  have "next_of (links s) (alarm_list s) = Some (hd (map fst xs @ [alarm_list s]))"
    using alt_list.succ_head assms(2) by (auto simp: holds_alarms_def)
  then show ?thesis using s' by (simp add: alt_tick_def)
qed

text \<open>The abstract alarm list after \<open>k\<close> ticks.\<close>

primrec ticks ::
  "(u32 \<Rightarrow> u32 \<Rightarrow> 'e \<Rightarrow> u32 \<times> 'e) \<Rightarrow> u32 \<Rightarrow> nat \<Rightarrow> (addr \<times> alarm) list \<times> 'e \<Rightarrow> (addr \<times> alarm) list \<times> 'e" where
  "ticks g now 0 x = x"
| "ticks g now (Suc k) x = (let (xs, e) = ticks g now k x in tick_list g (now + of_nat (Suc k)) xs e)"

text \<open>A new alarm in front of others, ticked \<open>k\<close> times.\<close>

lemma waiting_ticks:
  fixes s :: "('e, 'm) alarm_state_scheme"
  assumes "callbacks_are call g" "holds_alarms s ((p, new_alarm (tick_count s) n f c) # xs)"
    and "k \<le> waits (tick_count s) n"
  shows "\<exists>sk a. foldM (\<lambda>_. alt_tick call) [0..<k] s = Some sk \<and> env sk = snd (ticks g (tick_count s) k (xs, env s))
    \<and> holds_alarms sk ((p, a) # fst (ticks g (tick_count s) k (xs, env s)))
    \<and> waiting (tick_count s) n k a \<and> a_callback a = f \<and> a_context a = c
    \<and> tick_count sk = tick_count s + of_nat k"
  using assms(3)
proof (induction k)
  case 0
  show ?case using waiting_new assms(2) by (auto simp: new_alarm_def)
next
  case (Suc k)
  obtain ys e where ys: "ticks g (tick_count s) k (xs, env s) = (ys, e)" by (cases "ticks g (tick_count s) k (xs, env s)")
  then obtain sk a where sk: "foldM (\<lambda>_. alt_tick call) [0..<k] s = Some sk" "env sk = e"
    "holds_alarms sk ((p, a) # ys)" "waiting (tick_count s) n k a" "a_callback a = f" "a_context a = c"
    "tick_count sk = tick_count s + of_nat k" using Suc by auto
  let ?t = "tick_count s + of_nat (Suc k)" and ?a = "clear_rollover (tick_count s + of_nat (Suc k)) a"
  obtain zs d where zs: "tick_list g ?t ys e = (zs, d)" by (cases "tick_list g ?t ys e")
  have t: "tick_count sk + 1 = ?t" using sk(7) by (simp add: ac_simps)
  have w: "waiting (tick_count s) n (Suc k) ?a" "\<not> due ?t ?a"
    using waiting_step [OF sk(4)] Suc.prems by auto
  have "tick_list g (tick_count sk + 1) ((p, a) # ys) (env sk) = ((p, ?a) # zs, d)"
    using w(2) sk(2) zs unfolding t by (simp add: tick_one_def Let_def del: of_nat_Suc)
  from alt_tick_ok [OF assms(1) sk(3) this]
  obtain s' where s': "alt_tick call sk = Some s'" "holds_alarms s' ((p, ?a) # zs)" "env s' = d"
    "tick_count s' = ?t" using t by (auto simp: same_clock_def)
  have "foldM (\<lambda>_. alt_tick call) [0..<Suc k] s = Some s'" using sk(1) s'(1) by (simp add: foldM_snoc)
  moreover have "a_callback ?a = f" "a_context ?a = c" using sk by (simp_all add: clear_rollover_def)
  moreover have "ticks g (tick_count s) (Suc k) (xs, env s) = (zs, d)" using ys zs by (simp del: of_nat_Suc)
  ultimately show ?case using s' w(1) by auto
qed

section \<open>Properties\<close>

text \<open>
  C6: \<open>alt_tick\<close> implements one tick of the abstract alarm list, for callbacks that work on the state of
  the application only (they neither start nor stop alarms themselves): the ring of alarms is
  traversed to its end although \<open>alt_tick\<close> unlinks the alarm it is visiting when its callback returns 0,
  every alarm due at the new count is called once and in list order, the others of them are
  rescheduled by what their callbacks return, and the interrupt mode is as before.
\<close>

theorem tick_refines_list:
  fixes s :: "('e, 'm) alarm_state_scheme"
  assumes "callbacks_are call g" and "holds_alarms s xs"
    and "tick_list g (tick_count s + 1) xs (env s) = (ys, e)"
  shows "\<exists>s'. alt_tick call s = Some s' \<and> holds_alarms s' ys \<and> env s' = e
    \<and> tick_count s' = tick_count s + 1 \<and> cpu_status s' = cpu_status s"
  using alt_tick_ok [OF assms] by (auto simp: same_clock_def)

text \<open>A clock with one alarm structure at address 16 and the list head at address 8.\<close>

definition demo_clock :: "u32 \<Rightarrow> nat alarm_state" where
  "demo_clock now = \<lparr>cpu_status = 1, cpu_ienable = 0, alt_irq_active = 0, alt_priority_mask = - 1, alt_irq = [],
     alt_tick_rate = 100, tick_count = now, alarm_list = 8,
     links = llist_entry 16 (llist_head 8 (\<lambda>_. None)),
     alarms = [16 \<mapsto> \<lparr>a_time = 0, a_callback = 0, a_rollover = 0, a_context = 0\<rparr>], env = 0\<rparr>"

text \<open>Callbacks that count how often they ran and stop after the first time.\<close>

definition demo_callback :: "u32 \<Rightarrow> u32 \<Rightarrow> nat \<Rightarrow> u32 \<times> nat" where
  "demo_callback f c e = (0, Suc e)"

definition demo_callback_call :: "u32 \<Rightarrow> u32 \<Rightarrow> nat alarm_state \<Rightarrow> u32 \<times> nat alarm_state" where
  "demo_callback_call f c s = (0, s\<lparr>env := Suc (env s)\<rparr>)"

lemma demo_callbacks: "callbacks_are demo_callback_call demo_callback"
  by (simp add: callbacks_are_def demo_callback_def demo_callback_call_def)

lemma demo_clock_empty: "holds_alarms (demo_clock now) []" "valid (links (demo_clock now)) 16"
  by (simp_all add: demo_clock_def holds_alarms_def ring_def edge_def llist_head_def llist_entry_def
      next_of_def previous_of_def valid_def)

text \<open>
  A ring of three alarms at a count that is about to wrap: the first is called and unlinked, the
  second is called and called again in 20 ticks, the third is not due yet.
\<close>

definition demo_alarm :: "u32 \<Rightarrow> u32 \<Rightarrow> alarm" where
  "demo_alarm t c = \<lparr>a_time = t, a_callback = 0x400, a_rollover = (if t < 5 then 1 else 0), a_context = c\<rparr>"

definition demo_ring :: "nat alarm_state" where
  "demo_ring = (demo_clock (- 1))\<lparr>
     links := [8 \<mapsto> \<lparr>l_next = 16, l_previous = 48\<rparr>, 16 \<mapsto> \<lparr>l_next = 32, l_previous = 8\<rparr>,
       32 \<mapsto> \<lparr>l_next = 48, l_previous = 16\<rparr>, 48 \<mapsto> \<lparr>l_next = 8, l_previous = 32\<rparr>],
     alarms := [16 \<mapsto> demo_alarm 0 0, 32 \<mapsto> demo_alarm 0 20, 48 \<mapsto> demo_alarm 3 20]\<rparr>"

definition context_callback :: "u32 \<Rightarrow> u32 \<Rightarrow> nat \<Rightarrow> u32 \<times> nat" where
  "context_callback f c e = (c, Suc e)"

lemma context_callbacks:
  "callbacks_are (\<lambda>f c s. (c, s\<lparr>env := Suc (env s)\<rparr>) :: u32 \<times> nat alarm_state) context_callback"
  by (simp add: callbacks_are_def context_callback_def)

lemma demo_ring_holds: "holds_alarms demo_ring [(16, demo_alarm 0 0), (32, demo_alarm 0 20), (48, demo_alarm 3 20)]"
  by (simp add: demo_ring_def demo_clock_def holds_alarms_def ring_def edge_def next_of_def previous_of_def)

lemma demo_ring_tick:
  "tick_list context_callback (tick_count demo_ring + 1)
      [(16, demo_alarm 0 0), (32, demo_alarm 0 20), (48, demo_alarm 3 20)] (env demo_ring)
    = ([(32, \<lparr>a_time = 20, a_callback = 0x400, a_rollover = 0, a_context = 20\<rparr>),
        (48, \<lparr>a_time = 3, a_callback = 0x400, a_rollover = 0, a_context = 20\<rparr>)], 2)"
  by (simp add: demo_ring_def demo_clock_def tick_one_def demo_alarm_def clear_rollover_def due_def reschedule_def
      context_callback_def)

theorem tick_refines_list_witness:
  "\<exists>s'. alt_tick (\<lambda>f c s. (c, s\<lparr>env := Suc (env s)\<rparr>)) demo_ring = Some s' \<and> tick_count s' = 0 \<and> env s' = 2
    \<and> holds_alarms s' [(32, \<lparr>a_time = 20, a_callback = 0x400, a_rollover = 0, a_context = 20\<rparr>),
        (48, \<lparr>a_time = 3, a_callback = 0x400, a_rollover = 0, a_context = 20\<rparr>)]"
proof -
  have "tick_count demo_ring + 1 = 0" by (simp add: demo_ring_def demo_clock_def)
  then show ?thesis using tick_refines_list [OF context_callbacks demo_ring_holds demo_ring_tick] by auto
qed

text \<open>
  every outcome of \<open>alt_alarm_start\<close>: without a system clock it returns \<open>-ENOTSUP\<close>, for a
  null pointer \<open>-EINVAL\<close>, both with nothing changed; otherwise 0, and the alarm is first in
  the list with its due time and rollover flag computed, all else as it was.
\<close>

theorem alarm_start_outcomes:
  fixes s :: "('e, 'm) alarm_state_scheme"
  assumes "holds_alarms s xs" and "valid (links s) p" and "alarms s p = Some a"
    and "p \<notin> set (alarm_list s # map fst xs)"
  shows "if alt_tick_rate s = 0 then alt_alarm_start p n f c s = Some (- ENOTSUP, s)
    else if p = NULL then alt_alarm_start p n f c s = Some (- EINVAL, s)
    else \<exists>s'. alt_alarm_start p n f c s = Some (0, s') \<and> env s' = env s \<and> same_clock s s'
      \<and> holds_alarms s' ((p, new_alarm (tick_count s) n f c) # xs)"
  using alarm_start_ok [OF _ _ assms] by (simp add: alt_alarm_start_def alt_ticks_per_second_def)

theorem alarm_start_outcomes_witness:
  "\<exists>s'. alt_alarm_start 16 5 0x400 9 (demo_clock 7) = Some (0, s')
    \<and> holds_alarms s' [(16, new_alarm 7 5 0x400 9)]"
  using alarm_start_outcomes [OF demo_clock_empty [of 7], where n = 5 and f = "0x400" and c = 9]
  by (auto simp: demo_clock_def)

text \<open>
  C5: An alarm fires after the interval it was started with.  For callbacks that work on the state of
  the application only, let \<open>alt_alarm_start\<close> be called with an alarm structure that is in no list, while
  the list holds any other alarms \<open>xs\<close>.  It returns 0, and wherever the 32-bit tick counter stands and
  also when it wraps in between, for \<open>waits now n\<close> ticks the callback of the new alarm does not run:
  the alarm stays first in the list, and the others and the state of the application are as the ticks
  leave them without it.  In the next tick it runs, before those of the others; the alarm leaves
  the list if the callback returns 0, and has its time increased by the returned value otherwise.
  The number of ticks \<open>waits now n\<close> is the interval \<open>n\<close> itself, so that the alarm fires \<open>n + 1\<close> ticks after
  the start, except for the interval \<open>0xFFFFFFFF\<close>: with that one the alarm fires at the very next tick
  (unless the counter is at its maximum too).
\<close>

theorem alarm_fires_after_interval:
  fixes s :: "('e, 'm) alarm_state_scheme"
  assumes "callbacks_are call g" and "alt_tick_rate s \<noteq> 0" and "p \<noteq> NULL" and "holds_alarms s xs"
    and "valid (links s) p" and "alarms s p = Some a" and "p \<notin> set (alarm_list s # map fst xs)"
  defines "now \<equiv> tick_count s"
  defines "others k \<equiv> ticks g now k (xs, env s)"
  shows "\<exists>s1. alt_alarm_start p n f c s = Some (0, s1)
    \<and> (\<forall>k \<le> waits now n. \<exists>sk b. foldM (\<lambda>_. alt_tick call) [0..<k] s1 = Some sk
        \<and> holds_alarms sk ((p, b) # fst (others k)) \<and> env sk = snd (others k))
    \<and> (let (ys, e) = others (waits now n);
           (r, e1) = g f c e;
           (zs, e2) = tick_list g (now + of_nat (waits now n) + 1) ys e1
       in \<exists>s'. foldM (\<lambda>_. alt_tick call) [0..<waits now n + 1] s1 = Some s' \<and> env s' = e2
        \<and> (if r = 0 then holds_alarms s' zs
           else \<exists>b. holds_alarms s' ((p, b) # zs) \<and> a_time b = n + now + 1 + r))"
proof -
  obtain s1 where s1: "alt_alarm_start p n f c s = Some (0, s1)" "env s1 = env s" "same_clock s s1"
    "holds_alarms s1 ((p, new_alarm now n f c) # xs)"
    using alarm_start_ok [OF assms(2-7), of n f c] unfolding now_def by auto
  have now: "tick_count s1 = now" using s1(3) by (simp add: same_clock_def now_def)
  note run = waiting_ticks [OF assms(1), of s1, unfolded now, OF s1(4), unfolded s1(2), folded others_def]
  let ?w = "waits now n" and ?t = "now + of_nat (Suc (waits now n))"
  obtain ys e where ys: "others ?w = (ys, e)" by (cases "others ?w")
  obtain r e1 where r: "g f c e = (r, e1)" by (cases "g f c e")
  obtain zs e2 where zs: "tick_list g ?t ys e1 = (zs, e2)" by (cases "tick_list g ?t ys e1")
  obtain sk b where sk: "foldM (\<lambda>_. alt_tick call) [0..<?w] s1 = Some sk" "env sk = e"
    "holds_alarms sk ((p, b) # ys)" "waiting now n ?w b" "a_callback b = f" "a_context b = c"
    "tick_count sk = now + of_nat ?w" using run [of ?w] ys by auto
  let ?b = "clear_rollover ?t b"
  have t: "tick_count sk + 1 = ?t" using sk(7) by (simp add: ac_simps)
  have "due ?t ?b" "a_time ?b = n + now + 1" using waiting_step [OF sk(4)] by (simp_all add: waiting_def)
  moreover have "a_callback ?b = f" "a_context ?b = c" using sk by (simp_all add: clear_rollover_def)
  ultimately have "tick_list g (tick_count sk + 1) ((p, b) # ys) (env sk)
        = ((if r = 0 then [] else [(p, reschedule ?t r ?b)]) @ zs, e2)"
    and time: "a_time (reschedule ?t r ?b) = n + now + 1 + r"
    using sk(2) r zs unfolding t by (simp_all add: tick_one_def reschedule_def Let_def del: of_nat_Suc)
  from alt_tick_ok [OF assms(1) sk(3) this(1)] obtain s' where s': "alt_tick call sk = Some s'" "env s' = e2"
    "holds_alarms s' ((if r = 0 then [] else [(p, reschedule ?t r ?b)]) @ zs)" by blast
  have "foldM (\<lambda>_. alt_tick call) [0..<?w + 1] s1 = Some s'" using sk(1) s'(1) by (simp add: foldM_snoc)
  moreover have "if r = 0 then holds_alarms s' zs else \<exists>b. holds_alarms s' ((p, b) # zs) \<and> a_time b = n + now + 1 + r"
    using s'(3) time by (cases "r = 0") auto
  moreover have "now + of_nat ?w + 1 = ?t" by simp
  ultimately show ?thesis using s1(1) s'(2) run ys r zs by (simp only: Let_def prod.case) blast
qed

text \<open>
  On the clock at \<open>0xFFFFFFFE\<close> with an alarm that is due at the wrap and again 20 ticks later, one is
  started that is due after it.
\<close>

definition demo_busy :: "nat alarm_state" where
  "demo_busy = (demo_clock 0xFFFFFFFE)\<lparr>
     links := [8 \<mapsto> \<lparr>l_next = 32, l_previous = 32\<rparr>, 32 \<mapsto> \<lparr>l_next = 8, l_previous = 8\<rparr>,
       16 \<mapsto> \<lparr>l_next = 0, l_previous = 0\<rparr>],
     alarms := [16 \<mapsto> demo_alarm 0 0, 32 \<mapsto> demo_alarm 0 20]\<rparr>"

theorem alarm_fires_after_interval_witness:
  "\<exists>s1. alt_alarm_start 16 2 0x400 0 demo_busy = Some (0, s1)
    \<and> (\<exists>s'. foldM (\<lambda>_. alt_tick (\<lambda>f c s. (c, s\<lparr>env := Suc (env s)\<rparr>))) [0..<3] s1 = Some s' \<and> env s' = 2
      \<and> holds_alarms s' [(32, \<lparr>a_time = 20, a_callback = 0x400, a_rollover = 0, a_context = 20\<rparr>)])"
proof -
  have pre: "alt_tick_rate demo_busy \<noteq> 0" "holds_alarms demo_busy [(32, demo_alarm 0 20)]"
    "valid (links demo_busy) 16" "alarms demo_busy 16 = Some (demo_alarm 0 0)"
    "16 \<notin> set (alarm_list demo_busy # map fst [(32, demo_alarm 0 20)])"
    by (simp_all add: demo_busy_def demo_clock_def holds_alarms_def ring_def edge_def next_of_def previous_of_def valid_def)
  have now: "tick_count demo_busy = 0xFFFFFFFE" "env demo_busy = 0" by (simp_all add: demo_busy_def demo_clock_def)
  have w: "waits 0xFFFFFFFE 2 = Suc (Suc 0)" by (simp add: waits_def)
  have others: "ticks context_callback 0xFFFFFFFE (Suc (Suc 0)) ([(32, demo_alarm 0 20)], 0)
    = ([(32, \<lparr>a_time = 20, a_callback = 0x400, a_rollover = 0, a_context = 20\<rparr>)], 1)"
    by (simp add: tick_one_def demo_alarm_def clear_rollover_def due_def reschedule_def context_callback_def)
  let ?zs = "[(32, \<lparr>a_time = 20, a_callback = 0x400, a_rollover = 0, a_context = 20\<rparr>)]"
  have last: "context_callback 0x400 0 1 = (0, 2)" "Suc (Suc 0) + 1 = (3 :: nat)"
    "tick_list context_callback (0xFFFFFFFE + of_nat (Suc (Suc 0)) + 1) ?zs 2 = (?zs, 2)"
    by (simp_all add: context_callback_def tick_one_def clear_rollover_def due_def)
  have "(16 :: u32) \<noteq> 0" by simp
  note fires = alarm_fires_after_interval [OF context_callbacks pre(1) this pre(2-5), of 2 "0x400" 0,
      unfolded now w others Let_def prod.case last, unfolded if_P [OF refl]]
  show ?thesis using fires by blast
qed

end
