(* ===== verification/Clock.thy ===== *)
theory Clock
  imports Alarm
begin

text \<open>
  Wall-clock time on top of the system clock: \<open>HAL/src/alt_gettod.c\<close>, \<open>alt_settod.c\<close> and
  \<open>alt_times.c\<close>.  \<open>time_t\<close>, \<open>suseconds_t\<close> and \<open>clock_t\<close> are 32 bits; signed comparisons read
  the words through \<open>sint\<close>.
\<close>

section \<open>State and operations\<close>

record timeval =
  tv_sec :: u32
  tv_usec :: u32

record timezone =
  tz_minuteswest :: u32
  tz_dsttime :: u32

record 'e clock_state = "'e alarm_state" +
  alt_timezone :: timezone
  alt_resettime :: timeval
  alt_errno :: int

abbreviation (input) ALT_US :: u32 where "ALT_US \<equiv> 1000000"
abbreviation (input) ENOSYS :: int where "ENOSYS \<equiv> 88"

text \<open>The two normalising loops of \<open>alt_gettimeofday\<close> on (\<open>tv_sec\<close>, \<open>tv_usec\<close>).\<close>

partial_function (option) borrow :: "u32 \<Rightarrow> u32 \<Rightarrow> (u32 \<times> u32) option" where
  "borrow sec usec =
     (if sint usec < 0 then
        if sint sec \<le> 0 then Some (0, 0) else borrow (sec - 1) (usec + ALT_US)
      else Some (sec, usec))"

partial_function (option) carry :: "u32 \<Rightarrow> u32 \<Rightarrow> (u32 \<times> u32) option" where
  "carry sec usec =
     (if sint ALT_US \<le> sint usec then carry (sec + 1) (usec - ALT_US) else Some (sec, usec))"

declare borrow.simps [code] carry.simps [code]

text \<open>
  The result is the error code, or the time written and, when the caller passed a pointer for
  it, the time zone.
\<close>

definition alt_gettimeofday ::
  "bool \<Rightarrow> ('e, 'm) clock_state_scheme \<Rightarrow> (int + timeval \<times> timezone option) option" where
  "alt_gettimeofday ptimezone s =
     (let nticks = alt_nticks s; tick_rate = alt_ticks_per_second s in
      if tick_rate \<noteq> 0 then do {
        let sec = tv_sec (alt_resettime s) + nticks div tick_rate;
        let usec = tv_usec (alt_resettime s)
          + ucast (((ucast nticks :: u64) * ucast (ALT_US div tick_rate)) mod ucast ALT_US);
        (sec, usec) \<leftarrow> borrow sec usec;
        (sec, usec) \<leftarrow> carry sec usec;
        Some (Inr (\<lparr>tv_sec = sec, tv_usec = usec\<rparr>, if ptimezone then Some (alt_timezone s) else None))
      } else Some (Inl (- ENOTSUP)))"

definition alt_settimeofday ::
  "timeval \<Rightarrow> timezone \<Rightarrow> ('e, 'm) clock_state_scheme \<Rightarrow> int \<times> ('e, 'm) clock_state_scheme" where
  "alt_settimeofday t tz s =
     (let nticks = alt_nticks s; tick_rate = alt_ticks_per_second s in
      if tick_rate \<noteq> 0 then
        (0, s\<lparr>alt_resettime := \<lparr>tv_sec = tv_sec t - nticks div tick_rate,
                 tv_usec = tv_usec t - (nticks * (ALT_US div tick_rate)) mod ALT_US\<rparr>,
              alt_timezone := tz\<rparr>)
      else (- 1, s\<lparr>alt_errno := ENOSYS\<rparr>))"

record tms =
  tms_utime :: u32
  tms_stime :: u32
  tms_cutime :: u32
  tms_cstime :: u32

definition alt_times :: "('e, 'm) clock_state_scheme \<Rightarrow> u32 \<times> tms option \<times> ('e, 'm) clock_state_scheme" where
  "alt_times s =
     (let ticks = alt_nticks s in
      if alt_ticks_per_second s = 0 then (0, None, s\<lparr>alt_errno := ENOSYS\<rparr>)
      else (ticks, Some \<lparr>tms_utime = 0, tms_stime = ticks, tms_cutime = 0, tms_cstime = 0\<rparr>, s))"

section \<open>Normalisation\<close>

abbreviation (input) w32 :: "int \<Rightarrow> u32" where "w32 \<equiv> word_of_int"

lemma sint_w32: "- (2 ^ 31) \<le> x \<Longrightarrow> x < 2 ^ 31 \<Longrightarrow> sint (word_of_int x :: u32) = x"
  by (simp add: signed_of_int signed_take_bit_int_eq_self)

lemma borrow_one:
  assumes "- 1000000 \<le> u" "u < 2000000" "0 \<le> s" "s < 2 ^ 31" "0 \<le> s * 1000000 + u"
  shows "borrow (w32 s) (w32 u) = Some (if u < 0 then (w32 (s - 1), w32 (u + 1000000)) else (w32 s, w32 u))"
proof -
  have done_at: "borrow a (w32 x) = Some (a, w32 x)" if "0 \<le> x" "x < 2000000" for a x
    using that by (subst borrow.simps) (simp add: sint_w32 del: of_int_add)
  show ?thesis
  proof (cases "u < 0")
    case True
    then have "0 < s" using assms by (cases "s = 0") auto
    then have "borrow (w32 s) (w32 u) = borrow (w32 s - 1) (w32 u + 1000000)"
      using True assms by (subst borrow.simps) (simp add: sint_w32)
    also have "\<dots> = borrow (w32 (s - 1)) (w32 (u + 1000000))" by simp
    finally show ?thesis using True done_at [of "u + 1000000"] assms by (simp only: if_True)
  qed (use done_at [of u] assms in simp)
qed

lemma carry_one:
  assumes "0 \<le> u" "u < 2000000"
  shows "carry (w32 s) (w32 u) = Some (if 1000000 \<le> u then (w32 (s + 1), w32 (u - 1000000)) else (w32 s, w32 u))"
proof -
  have us: "sint (1000000 :: u32) = 1000000" using sint_w32 [of 1000000] by simp
  have done_at: "carry a (w32 x) = Some (a, w32 x)" if "0 \<le> x" "x < 1000000" for a x
    using that by (subst carry.simps) (simp add: sint_w32 us del: of_int_add of_int_diff)
  show ?thesis
  proof (cases "1000000 \<le> u")
    case True
    then have "carry (w32 s) (w32 u) = carry (w32 s + 1) (w32 u - 1000000)"
      using assms by (subst carry.simps) (simp add: sint_w32 us)
    also have "\<dots> = carry (w32 (s + 1)) (w32 (u - 1000000))" by simp
    finally show ?thesis using True done_at [of "u - 1000000"] assms by (simp only: if_True)
  qed (use done_at [of u] assms in simp)
qed

text \<open>With a rate that divides a second, the ticks split into seconds and microseconds.\<close>

lemma tick_split:
  fixes n r :: nat
  assumes "r dvd 1000000" "0 < r"
  shows "n * (1000000 div r) = (n div r) * 1000000 + n * (1000000 div r) mod 1000000"
proof -
  have r: "r * (1000000 div r) = 1000000" using assms by simp
  then have k: "1000000 div r \<noteq> 0" by (metis mult_0_right zero_neq_numeral)
  from r have "n * (1000000 div r) div 1000000 = n * (1000000 div r) div (r * (1000000 div r))" by simp
  also have "\<dots> = n div r" by (rule div_mult_mult2) (rule k)
  finally show ?thesis by (metis div_mult_mod_eq)
qed

definition ticks_us :: "nat \<Rightarrow> nat \<Rightarrow> nat" where
  "ticks_us r n = n * (1000000 div r)"

lemma rate_unit: "unat (ALT_US div r :: u32) = 1000000 div unat r"
  by (simp add: unat_div)

lemma set_word:
  assumes "unat n * (1000000 div unat r) < 2 ^ 32"
  shows "n div r = w32 (int (unat n div unat r))"
    and "(n * (ALT_US div r)) mod ALT_US = w32 (int (ticks_us (unat r) (unat n) mod 1000000))"
proof -
  show "n div r = w32 (int (unat n div unat r))"
  proof -
    have "unat n div unat r < 2 ^ 32" using unat_u32_lt [of n] div_le_dividend by (rule order_le_less_trans [rotated])
    then show ?thesis by (simp add: word_unat_eq_iff unat_div unat_u32_small)
  qed
  have "1000000 div unat r < 2 ^ 32" by (rule order_le_less_trans [OF div_le_dividend]) simp
  then have "unat (n * (ALT_US div r)) = ticks_us (unat r) (unat n)"
    using assms by (simp add: ticks_us_def unat_word_ariths rate_unit)
  then show "(n * (ALT_US div r)) mod ALT_US = w32 (int (ticks_us (unat r) (unat n) mod 1000000))"
    by (simp add: word_unat_eq_iff unat_mod unat_u32_small)
qed

lemma get_word:
  "(ucast (((ucast n :: u64) * ucast (ALT_US div r)) mod ucast ALT_US) :: u32)
    = w32 (int (ticks_us (unat r) (unat n) mod 1000000))" for n r :: u32
proof -
  have "1000000 div unat r \<le> 1000000" by (rule div_le_dividend)
  then have "unat n * (1000000 div unat r) \<le> 2 ^ 32 * 1000000"
    using unat_u32_lt [of n] by (intro mult_mono) auto
  then have b: "unat n * (1000000 div unat r) < 2 ^ 64" by simp
  have small: "1000000 div unat r < 2 ^ 32" by (rule order_le_less_trans [OF div_le_dividend]) simp
  have "unat ((ucast n :: u64) * ucast (ALT_US div r)) = ticks_us (unat r) (unat n)"
    using b small unat_u32_lt [of n]
    by (simp add: ticks_us_def unat_word_ariths unsigned_ucast_eq rate_unit take_bit_nat_eq_self)
  then show ?thesis
    by (simp add: word_unat_eq_iff unsigned_ucast_eq unat_mod take_bit_nat_eq_self unat_u32_small)
qed

lemma normalise:
  assumes "- 1000000 < u" "u < 2000000" "0 \<le> s" "s < 2 ^ 31 - 1" "0 \<le> s * 1000000 + u"
  shows "\<exists>s' u'. do { (sec, usec) \<leftarrow> borrow (w32 s) (w32 u); carry sec usec } = Some (w32 s', w32 u')
    \<and> 0 \<le> u' \<and> u' < 1000000 \<and> 0 \<le> s' \<and> s' < 2 ^ 31 \<and> s' * 1000000 + u' = s * 1000000 + u"
proof -
  let ?s = "if u < 0 then s - 1 else s" and ?u = "if u < 0 then u + 1000000 else u"
  have b: "borrow (w32 s) (w32 u) = Some (w32 ?s, w32 ?u)"
    using borrow_one [of u s] assms by simp
  have c: "carry (w32 ?s) (w32 ?u) = Some (if 1000000 \<le> ?u then (w32 (?s + 1), w32 (?u - 1000000)) else (w32 ?s, w32 ?u))"
    using assms by (intro carry_one) auto
  have nn: "0 \<le> ?s" using assms by (auto split: if_splits)
  show ?thesis
  proof (cases "1000000 \<le> ?u")
    case True
    then show ?thesis using b c nn assms
      by (intro exI [of _ "?s + 1"] exI [of _ "?u - 1000000"]) (auto split: if_splits)
  next
    case False
    then show ?thesis using b c nn assms
      by (intro exI [of _ ?s] exI [of _ ?u]) (auto split: if_splits)
  qed
qed

text \<open>What the two calls leave to normalise: the seconds and microseconds, not yet in range.\<close>

lemma elapsed_parts:
  fixes r n0 n1 sec usec :: nat
  assumes "r dvd 1000000" "0 < r" "n0 \<le> n1" "usec < 1000000" "sec + n1 div r < 2 ^ 31 - 1"
  defines "us \<equiv> \<lambda>n. int (ticks_us r n mod 1000000)"
  defines "s \<equiv> int sec - int (n0 div r) + int (n1 div r)" and "u \<equiv> int usec - us n0 + us n1"
  shows "s * 1000000 + u = int (sec * 1000000 + usec + (n1 - n0) * (1000000 div r))"
    and "- 1000000 < u" "u < 2000000" "0 \<le> s" "s < 2 ^ 31 - 1"
proof -
  have q: "int (n0 div r) \<le> int (n1 div r)" using div_le_mono [OF assms(3)] by simp
  have split: "int (ticks_us r n) = int (n div r) * 1000000 + us n" for n
    using tick_split [OF assms(1,2), of n] unfolding ticks_us_def us_def by linarith
  have mono: "ticks_us r n0 \<le> ticks_us r n1" unfolding ticks_us_def by (rule mult_le_mono1 [OF assms(3)])
  have "(n1 - n0) * (1000000 div r) = ticks_us r n1 - ticks_us r n0" by (simp add: ticks_us_def diff_mult_distrib)
  then show "s * 1000000 + u = int (sec * 1000000 + usec + (n1 - n0) * (1000000 div r))"
    using split [of n1] split [of n0] mono unfolding s_def u_def by (simp add: of_nat_diff)
  have us: "0 \<le> us n" "us n < 1000000" for n by (simp_all add: us_def)
  show "- 1000000 < u" using us(1) [of n1] us(2) [of n0] unfolding u_def by linarith
  show "u < 2000000" using us(2) [of n1] us(1) [of n0] assms(4) unfolding u_def by linarith
  show "0 \<le> s" using q unfolding s_def by linarith
  have "int (sec + n1 div r) < int (2 ^ 31 - 1)" using assms(5) by (simp only: of_nat_less_iff)
  then show "s < 2 ^ 31 - 1" unfolding s_def by simp
qed

section \<open>Properties\<close>

text \<open>
  C30: setting the time and reading it back later.  With a tick rate that divides a second,
  and as long as the microseconds since the start of the counter fit in 32 bits when the
  time is set, the time read after the counter moved from \<open>n0\<close> to \<open>n1\<close> is the time set plus
  the ticks in between, to the microsecond, and normalised; the time zone is returned as set.
\<close>

theorem time_round_trip:
  fixes s :: "('e, 'm) clock_state_scheme"
  assumes "unat (alt_tick_rate s) dvd 1000000" and "alt_tick_rate s \<noteq> 0"
    and "t = \<lparr>tv_sec = of_nat sec, tv_usec = of_nat usec\<rparr>" and "usec < 1000000"
    and "ticks_us (unat (alt_tick_rate s)) (unat (tick_count s)) < 2 ^ 32"
    and "alt_settimeofday t tz s = (rc, s1)" and "tick_count s \<le> n1"
    and "sec + unat n1 div unat (alt_tick_rate s) < 2 ^ 31 - 1"
  shows "rc = 0 \<and> (\<exists>sec' usec'. alt_gettimeofday True (s1\<lparr>tick_count := n1\<rparr>)
      = Some (Inr (\<lparr>tv_sec = w32 sec', tv_usec = w32 usec'\<rparr>, Some tz))
    \<and> 0 \<le> usec' \<and> usec' < 1000000 \<and> 0 \<le> sec' \<and> sec' < 2 ^ 31
    \<and> sec' * 1000000 + usec' = int (sec * 1000000 + usec
        + (unat n1 - unat (tick_count s)) * (1000000 div unat (alt_tick_rate s))))"
proof -
  let ?r = "alt_tick_rate s" and ?n = "tick_count s"
  let ?us = "\<lambda>n. int (ticks_us (unat ?r) (unat n) mod 1000000)" and ?q = "\<lambda>n. int (unat n div unat ?r)"
  have r: "0 < unat ?r" using assms(2) unat_gt_0 [of ?r] by blast
  have le: "unat ?n \<le> unat n1" using assms(7) by (simp add: word_le_nat_alt)
  note w0 = set_word [of ?n ?r, folded ticks_us_def, OF assms(5)]
  have s1: "rc = 0" "s1 = s\<lparr>alt_resettime := \<lparr>tv_sec = of_nat sec - w32 (?q ?n),
      tv_usec = of_nat usec - w32 (?us ?n)\<rparr>, alt_timezone := tz\<rparr>"
    using assms(6) unfolding alt_settimeofday_def Let_def alt_nticks_def alt_ticks_per_second_def
      assms(3) w0 using assms(2) by auto
  let ?s = "int sec - ?q ?n + ?q n1" and ?u = "int usec - ?us ?n + ?us n1"
  have sums: "of_nat sec - w32 (?q ?n) + w32 (?q n1) = w32 ?s"
    "of_nat usec - w32 (?us ?n) + w32 (?us n1) = w32 ?u" by simp_all
  have div1: "n1 div ?r = w32 (?q n1)"
  proof -
    have "unat n1 div unat ?r < 2 ^ 32" using unat_u32_lt [of n1] div_le_dividend
      by (rule order_le_less_trans [rotated])
    then show ?thesis by (simp add: word_unat_eq_iff unat_div unat_u32_small)
  qed
  note parts = elapsed_parts [OF assms(1) r le assms(4,8)]
  have "\<exists>s' u'. do { (sec, usec) \<leftarrow> borrow (w32 ?s) (w32 ?u); carry sec usec } = Some (w32 s', w32 u')
    \<and> 0 \<le> u' \<and> u' < 1000000 \<and> 0 \<le> s' \<and> s' < 2 ^ 31 \<and> s' * 1000000 + u' = ?s * 1000000 + ?u"
    by (rule normalise [OF parts(2-5)]) (unfold parts(1), rule of_nat_0_le_iff)
  then obtain s' u' where n: "do { (sec, usec) \<leftarrow> borrow (w32 ?s) (w32 ?u); carry sec usec } = Some (w32 s', w32 u')"
    "0 \<le> u'" "u' < 1000000" "0 \<le> s'" "s' < 2 ^ 31" "s' * 1000000 + u' = ?s * 1000000 + ?u" by blast
  have fields: "alt_resettime (s1\<lparr>tick_count := n1\<rparr>) = \<lparr>tv_sec = of_nat sec - w32 (?q ?n), tv_usec = of_nat usec - w32 (?us ?n)\<rparr>"
    "alt_timezone (s1\<lparr>tick_count := n1\<rparr>) = tz" "tick_count (s1\<lparr>tick_count := n1\<rparr>) = n1"
    "alt_tick_rate (s1\<lparr>tick_count := n1\<rparr>) = ?r"
    by (simp_all add: s1(2))
  have "alt_gettimeofday True (s1\<lparr>tick_count := n1\<rparr>)
      = do { (sec, usec) \<leftarrow> do { (sec, usec) \<leftarrow> borrow (w32 ?s) (w32 ?u); carry sec usec };
             Some (Inr (\<lparr>tv_sec = sec, tv_usec = usec\<rparr>, Some tz)) }"
    unfolding alt_gettimeofday_def Let_def alt_nticks_def alt_ticks_per_second_def fields
      timeval.simps get_word div1 sums
    using assms(2) by (simp add: case_prod_beta' del: of_int_add of_int_diff)
  also have "\<dots> = Some (Inr (\<lparr>tv_sec = w32 s', tv_usec = w32 u'\<rparr>, Some tz))"
    unfolding n(1) by simp
  finally have get: "alt_gettimeofday True (s1\<lparr>tick_count := n1\<rparr>) = \<dots>" .
  have "s' * 1000000 + u' = int (sec * 1000000 + usec + (unat n1 - unat ?n) * (1000000 div unat ?r))"
    by (simp only: n(6) parts(1))
  then show ?thesis using s1(1) get n(2-5) by blast
qed

text \<open>A clock at 100 ticks per second; nothing but the counter, the rate and the times matters.\<close>

definition demo_wall :: "u32 \<Rightarrow> unit clock_state" where
  "demo_wall n = \<lparr>cpu_status = 0, cpu_ienable = 0, alt_irq_active = 0, alt_priority_mask = 0, alt_irq = [],
     alt_tick_rate = 100, tick_count = n, alarm_list = 0, links = (\<lambda>_. None), alarms = (\<lambda>_. None), env = (),
     alt_timezone = \<lparr>tz_minuteswest = 0, tz_dsttime = 0\<rparr>, alt_resettime = \<lparr>tv_sec = 0, tv_usec = 0\<rparr>,
     alt_errno = 0\<rparr>"

theorem time_round_trip_witness:
  "\<exists>sec usec. alt_gettimeofday True ((snd (alt_settimeofday \<lparr>tv_sec = of_nat 7, tv_usec = of_nat 900000\<rparr>
      \<lparr>tz_minuteswest = 60, tz_dsttime = 0\<rparr> (demo_wall 250)))\<lparr>tick_count := 275\<rparr>)
     = Some (Inr (\<lparr>tv_sec = w32 sec, tv_usec = w32 usec\<rparr>, Some \<lparr>tz_minuteswest = 60, tz_dsttime = 0\<rparr>))
   \<and> sec * 1000000 + usec = 8150000"
proof -
  have f: "tick_count (demo_wall 250) = 250" "alt_tick_rate (demo_wall 250) = 100"
    by (simp_all add: demo_wall_def)
  show ?thesis
    using time_round_trip [of "demo_wall 250" "\<lparr>tv_sec = of_nat 7, tv_usec = of_nat 900000\<rparr>" 7 900000
        "\<lparr>tz_minuteswest = 60, tz_dsttime = 0\<rparr>" 0
        "snd (alt_settimeofday \<lparr>tv_sec = of_nat 7, tv_usec = of_nat 900000\<rparr> \<lparr>tz_minuteswest = 60, tz_dsttime = 0\<rparr> (demo_wall 250))"
        275] f
    by (simp add: ticks_us_def word_le_nat_alt) (auto simp: alt_settimeofday_def alt_ticks_per_second_def Let_def)
qed

text \<open>
  the bound on the counter in the round trip is needed.  At 100 ticks per second, once
  the counter has passed 429497 (71 minutes and 35 seconds), \<open>alt_settimeofday\<close> computes the
  microseconds in 32 bits where \<open>alt_gettimeofday\<close> uses 64, and the time read back at once
  differs from the time set.
\<close>

theorem time_set_late_is_off:
  "alt_gettimeofday False (snd (alt_settimeofday \<lparr>tv_sec = 7, tv_usec = 0\<rparr>
      \<lparr>tz_minuteswest = 0, tz_dsttime = 0\<rparr> (demo_wall 430000)))
   = Some (Inr (\<lparr>tv_sec = 6, tv_usec = 967296\<rparr>, None))"
  by code_simp

end
