(* ===== verification/Heap.thy ===== *)
theory Heap
  imports Alarm
begin

text \<open>
  The program break \<open>HAL/src/alt_sbrk.c\<close> and its client \<open>HAL/src/alt_gmon.c\<close>, the profiler
  that keeps a call graph in slabs taken from the heap and samples the program counter in an
  alarm.  The linker's symbols and the stack registers are fields of the state; reporting a
  stack overflow is a flag.
\<close>

section \<open>The program break\<close>

record 'e heap_state = "'e alarm_state" +
  heap_end :: u32
  heap_start :: u32
  heap_limit :: u32
  stack_limit :: u32
  stack_pointer :: u32
  exception_old_stack_limit :: u32
  stack_overflow_reported :: bool

text \<open>\<open>ALT_MAX_HEAP_BYTES\<close>, \<open>ALT_STACK_CHECK\<close>, \<open>ALT_EXCEPTION_STACK\<close>: none is set in this project.\<close>

record sbrk_config =
  max_heap_bytes :: "int option"
  stack_check :: bool
  exception_stack :: bool

definition this_config :: sbrk_config where
  "this_config = \<lparr>max_heap_bytes = None, stack_check = False, exception_stack = False\<rparr>"

definition sbrk_refused :: "sbrk_config \<Rightarrow> u32 \<Rightarrow> ('e, 'm) heap_state_scheme \<Rightarrow> bool" where
  "sbrk_refused cfg incr s =
     (case max_heap_bytes cfg of
        Some m \<Rightarrow> sint (heap_end s + incr - heap_start s) > m
      | None \<Rightarrow> heap_end s + incr > heap_limit s)"

definition move_stack_limits ::
  "sbrk_config \<Rightarrow> u32 \<Rightarrow> ('e, 'm) heap_state_scheme \<Rightarrow> ('e, 'm) heap_state_scheme" where
  "move_stack_limits cfg prev_heap_end s =
     (let s = (if stack_limit s = prev_heap_end
               then (let s = (if stack_pointer s \<le> heap_end s then s\<lparr>stack_overflow_reported := True\<rparr> else s)
                     in s\<lparr>stack_limit := heap_end s\<rparr>)
               else s)
      in if exception_stack cfg \<and> exception_old_stack_limit s = prev_heap_end
         then (let s = (if exception_old_stack_limit s \<le> heap_end s
                        then s\<lparr>stack_overflow_reported := True\<rparr> else s)
               in s\<lparr>exception_old_stack_limit := heap_end s\<rparr>)
         else s)"

definition alt_sbrk :: "sbrk_config \<Rightarrow> u32 \<Rightarrow> ('e, 'm) heap_state_scheme \<Rightarrow> u32 \<times> ('e, 'm) heap_state_scheme" where
  "alt_sbrk cfg incr s =
     (let (context, s) = alt_irq_disable_all s;
          s = s\<lparr>heap_end := (heap_end s + 3) AND NOT 3\<rparr>
      in if sbrk_refused cfg incr s then (- 1, alt_irq_enable_all context s)
         else (let prev_heap_end = heap_end s;
                   s = s\<lparr>heap_end := heap_end s + incr\<rparr>;
                   s = (if stack_check cfg then move_stack_limits cfg prev_heap_end s else s)
               in (prev_heap_end, alt_irq_enable_all context s)))"

section \<open>The profiler\<close>

record mcount_fn_arc =
  arc_next :: addr
  from_pc :: u32
  arc_count :: u32

record mcount_fn_entry =
  fn_next :: addr
  self_pc :: u32
  arc_head :: addr

record 'e gmon_state = "'e heap_state" +
  pcsample_need_init :: bool
  mcount_fn_head :: "addr list"
  fn_entries :: "addr \<Rightarrow> mcount_fn_entry option"
  fn_arcs :: "addr \<Rightarrow> mcount_fn_arc option"
  s_pcsamples :: addr
  pcsamples :: "16 word list"
  s_low_pc :: u32
  s_high_pc :: u32
  gmon_profile_data :: u32
  gmon_profile_rate :: u32
  mcount_slab_ptr :: addr
  mcount_slab_size :: u32
  pcsample_alarm :: addr
  pcsample_fn :: u32

abbreviation HASH_BUCKETS :: nat where "HASH_BUCKETS \<equiv> 64"
abbreviation (input) PCSAMPLE_BYTES_PER_BUCKET :: u32 where "PCSAMPLE_BYTES_PER_BUCKET \<equiv> 32"
abbreviation (input) MCOUNT_SLAB_INCREMENT :: u32 where "MCOUNT_SLAB_INCREMENT \<equiv> 1020"

definition mcount_allocate :: "u32 \<Rightarrow> ('e, 'm) gmon_state_scheme \<Rightarrow> addr \<times> ('e, 'm) gmon_state_scheme" where
  "mcount_allocate sz s =
     (let s = (if mcount_slab_size s < sz
               then (let (p, s) = alt_sbrk this_config MCOUNT_SLAB_INCREMENT s
                     in s\<lparr>mcount_slab_ptr := p, mcount_slab_size := MCOUNT_SLAB_INCREMENT\<rparr>)
               else s);
          data = mcount_slab_ptr s
      in (data, s\<lparr>mcount_slab_ptr := mcount_slab_ptr s + sz, mcount_slab_size := mcount_slab_size s - sz\<rparr>))"

text \<open>\<open>None\<close> is a store through a pointer outside the heap, such as a failed \<open>sbrk\<close> leaves.\<close>

definition in_heap :: "addr \<Rightarrow> nat \<Rightarrow> ('e, 'm) heap_state_scheme \<Rightarrow> bool" where
  "in_heap p n s \<longleftrightarrow> heap_start s \<le> p \<and> unat p + n \<le> unat (heap_end s)"

definition nios2_pcsample_init ::
  "('e, 'm) gmon_state_scheme \<Rightarrow> (bool \<times> ('e, 'm) gmon_state_scheme) option" where
  "nios2_pcsample_init s =
     (let prof_rate = alt_ticks_per_second s in
      if prof_rate = 0 then Some (True, s)
      else do {
        let pcsamples_size = (s_high_pc s - s_low_pc s) div PCSAMPLE_BYTES_PER_BUCKET;
        let (p, s) = alt_sbrk this_config (pcsamples_size * 2) s;
        let s = s\<lparr>s_pcsamples := p\<rparr>;
        if s_pcsamples s \<noteq> 0 then
          if \<not> in_heap p (unat (pcsamples_size * 2)) s then None else do {
            let s = s\<lparr>pcsamples := replicate (unat pcsamples_size) 0\<rparr>;
            let s = s\<lparr>gmon_profile_data := s_pcsamples s, gmon_profile_rate := prof_rate\<rparr>;
            (_, s) \<leftarrow> alt_alarm_start (pcsample_alarm s) 1 (pcsample_fn s) 0 s;
            Some (False, s)
          }
        else Some (False, s)
      })"

text \<open>The alarm callback; \<open>pc\<close> is the return address of the exception.\<close>

definition nios2_pcsample :: "u32 \<Rightarrow> ('e, 'm) gmon_state_scheme \<Rightarrow> (u32 \<times> ('e, 'm) gmon_state_scheme) option" where
  "nios2_pcsample pc s =
     (if s_low_pc s \<le> pc \<and> pc < s_high_pc s \<and> s_pcsamples s \<noteq> 0 then do {
        let bucket = (pc - s_low_pc s) div PCSAMPLE_BYTES_PER_BUCKET;
        n \<leftarrow> rd (pcsamples s) (unat bucket);
        l \<leftarrow> wr (pcsamples s) (unat bucket) (n + 1);
        Some (1, s\<lparr>pcsamples := l\<rparr>)
      } else Some (1, s))"

text \<open>\<open>fn_head\<close> is the index of the hash bucket whose address the caller passes.\<close>

definition mcount_new_entry ::
  "u32 \<Rightarrow> nat \<Rightarrow> ('e, 'm) gmon_state_scheme \<Rightarrow> (addr \<times> ('e, 'm) gmon_state_scheme) option" where
  "mcount_new_entry self fn_head s = do {
     let (p, s) = mcount_allocate 12 s;
     if \<not> in_heap p 12 s then None else do {
       h \<leftarrow> rd (mcount_fn_head s) fn_head;
       heads \<leftarrow> wr (mcount_fn_head s) fn_head p;
       Some (p, s\<lparr>fn_entries := (fn_entries s)(p \<mapsto> \<lparr>fn_next = h, self_pc = self, arc_head = NULL\<rparr>),
                  mcount_fn_head := heads\<rparr>)
     }
   }"

definition mcount_record ::
  "u32 \<Rightarrow> u32 \<Rightarrow> addr \<Rightarrow> nat \<Rightarrow> ('e, 'm) gmon_state_scheme \<Rightarrow> ('e, 'm) gmon_state_scheme option" where
  "mcount_record self from fn_entry fn_head s = do {
     s \<leftarrow> (if pcsample_need_init s then do {
             (need, s) \<leftarrow> nios2_pcsample_init (s\<lparr>pcsample_need_init := False\<rparr>);
             Some (s\<lparr>pcsample_need_init := need\<rparr>)
           } else Some s);
     let (context, s) = alt_irq_disable_all s;
     (fn_entry, s) \<leftarrow> (if fn_entry = NULL then mcount_new_entry self fn_head s else Some (fn_entry, s));
     let (arc, s) = mcount_allocate 12 s;
     if \<not> in_heap arc 12 s then None else do {
       e \<leftarrow> fn_entries s fn_entry;
       let s = s\<lparr>fn_arcs := (fn_arcs s)(arc \<mapsto> \<lparr>arc_next = arc_head e, from_pc = from, arc_count = 1\<rparr>)\<rparr>;
       let s = s\<lparr>fn_entries := (fn_entries s)(fn_entry \<mapsto> e\<lparr>arc_head := arc\<rparr>)\<rparr>;
       Some (alt_irq_enable_all context s)
     }
   }"

section \<open>The break moves up in blocks\<close>

definition round_up :: "u32 \<Rightarrow> u32" where
  "round_up p = (p + 3) AND NOT 3"

text \<open>
  A heap whose limit leaves room for the rounding and for any positive increment.  A refused
  request still rounds the break up, possibly to the next multiple of 4 past the limit.
\<close>

definition wf_heap :: "('e, 'm) heap_state_scheme \<Rightarrow> bool" where
  "wf_heap s \<longleftrightarrow> heap_start s \<le> heap_end s
     \<and> unat (heap_end s) \<le> (unat (heap_limit s) + 3) div 4 * 4 \<and> unat (heap_limit s) < 2 ^ 31 - 8"

lemma unat_round_up:
  assumes "unat p < 2 ^ 32 - 4"
  shows "unat (round_up p) = (unat p + 3) div 4 * 4"
proof -
  have "unat (p + 3) = unat p + 3" using assms by (subst unat_plus_if_small) auto
  moreover have "(p + 3) AND NOT 3 = push_bit 2 (drop_bit 2 (p + 3))"
  proof (rule bit_word_eqI)
    fix n assume "n < LENGTH(32)"
    have three: "(3 :: u32) = mask 2" by (simp add: mask_eq_exp_minus_1)
    show "bit ((p + 3) AND NOT 3) n = bit (push_bit 2 (drop_bit 2 (p + 3))) n"
      using \<open>n < LENGTH(32)\<close> unfolding three
      by (cases "2 \<le> n") (auto simp: bit_simps not_le dest!: le_Suc_ex)
  qed
  moreover have "unat (push_bit 2 (drop_bit 2 x)) = unat x div 4 * 4" for x :: u32
  proof -
    have "unat x div 4 * 4 < 2 ^ 32" using unat_u32_lt [of x] by linarith
    then show ?thesis
      by (simp add: push_bit_eq_mult drop_bit_eq_div unat_word_ariths unat_div mult.commute)
  qed
  ultimately show ?thesis by (simp add: round_up_def)
qed

section \<open>A source of disjoint blocks\<close>

text \<open>
  The contract of an allocator that only moves a frontier up: \<open>grab n\<close> returns the start of a
  block, or nothing, and the new state.
\<close>

fun take_all :: "(nat \<Rightarrow> 's \<Rightarrow> nat option \<times> 's) \<Rightarrow> nat list \<Rightarrow> 's \<Rightarrow> (nat \<times> nat) list \<times> 's" where
  "take_all grab [] s = ([], s)"
| "take_all grab (n # ns) s =
     (let (p, s) = grab n s; (bs, s) = take_all grab ns s
      in ((case p of None \<Rightarrow> bs | Some p \<Rightarrow> (p, n) # bs), s))"

locale block_source =
  fixes wf :: "'s \<Rightarrow> bool" and frontier :: "'s \<Rightarrow> nat" and top :: nat and small :: "nat \<Rightarrow> bool"
    and grab :: "nat \<Rightarrow> 's \<Rightarrow> nat option \<times> 's"
  assumes grab_wf: "wf s \<Longrightarrow> small n \<Longrightarrow> wf (snd (grab n s))"
    and grab_frontier: "wf s \<Longrightarrow> small n \<Longrightarrow> frontier s \<le> frontier (snd (grab n s))"
    and grab_block: "wf s \<Longrightarrow> small n \<Longrightarrow> fst (grab n s) = Some p \<Longrightarrow>
      frontier s \<le> p \<and> p + n \<le> frontier (snd (grab n s)) \<and> p + n \<le> top"
begin

lemma take_all_frontier:
  "wf s \<Longrightarrow> list_all small ns \<Longrightarrow> frontier s \<le> frontier (snd (take_all grab ns s))"
proof (induction ns arbitrary: s)
  case (Cons n ns)
  then show ?case
    using grab_wf [of s n] order_trans [OF grab_frontier [of s n] Cons.IH [of "snd (grab n s)"]]
    by (simp add: Let_def case_prod_beta)
qed simp

lemma take_all_bounds:
  "wf s \<Longrightarrow> list_all small ns \<Longrightarrow> (p, n) \<in> set (fst (take_all grab ns s)) \<Longrightarrow>
   frontier s \<le> p \<and> p + n \<le> top"
proof (induction ns arbitrary: s)
  case (Cons m ns)
  let ?s = "snd (grab m s)"
  have "wf ?s" "frontier s \<le> frontier ?s" using Cons.prems grab_wf grab_frontier by auto
  moreover have "(p, n) \<in> set (fst (take_all grab ns ?s)) \<or> fst (grab m s) = Some p \<and> n = m"
    using Cons.prems(3) by (auto simp: Let_def case_prod_beta split: option.splits)
  ultimately show ?case using Cons.IH [of ?s] Cons.prems grab_block [of s m p] by auto
qed simp

lemma take_all_disjoint:
  "wf s \<Longrightarrow> list_all small ns \<Longrightarrow>
   sorted_wrt (\<lambda>(p, n) (q, m). p + n \<le> q) (fst (take_all grab ns s))"
proof (induction ns arbitrary: s)
  case (Cons m ns)
  let ?s = "snd (grab m s)"
  have s: "wf ?s" "list_all small ns" "small m" using Cons.prems grab_wf by auto
  have "p + m \<le> q" if "fst (grab m s) = Some p" "(q, k) \<in> set (fst (take_all grab ns ?s))" for p q k
    using take_all_bounds [OF s(1,2) that(2)] grab_block [OF Cons.prems(1) s(3) that(1)] by simp
  then show ?case using Cons.IH [OF s(1,2)]
    by (auto simp: Let_def case_prod_beta split: option.splits)
qed simp

end

definition sbrk_block :: "nat \<Rightarrow> ('e, 'm) heap_state_scheme \<Rightarrow> nat option \<times> ('e, 'm) heap_state_scheme" where
  "sbrk_block n s = (let (p, s) = alt_sbrk this_config (of_nat n) s in (if p = - 1 then None else Some (unat p), s))"

lemma sbrk_eq:
  fixes s :: "('e, 'm) heap_state_scheme"
  assumes "wf_heap s" "n < 2 ^ 31"
  defines "b \<equiv> (unat (heap_end s) + 3) div 4 * 4"
  shows "alt_sbrk this_config (of_nat n) s =
    (if b + n \<le> unat (heap_limit s) then (of_nat b, s\<lparr>heap_end := of_nat (b + n)\<rparr>)
     else (- 1, s\<lparr>heap_end := of_nat b\<rparr>))"
    and "unat (heap_end s) \<le> b" and "b \<le> unat (heap_end s) + 3" and "b < 2 ^ 31"
proof -
  have e: "unat (heap_end s) < 2 ^ 31 - 4" using assms(1) unfolding wf_heap_def by linarith
  show b: "unat (heap_end s) \<le> b" "b \<le> unat (heap_end s) + 3" "b < 2 ^ 31"
    using e unfolding b_def by linarith+
  have "unat (round_up (heap_end s)) = b" using unat_round_up [of "heap_end s"] e by (simp add: b_def)
  then have r: "(heap_end s + 3) AND NOT 3 = of_nat b"
    using b(3) by (simp add: word_unat_eq_iff round_up_def unat_u32_small)
  have sum: "unat (of_nat b + of_nat n :: u32) = b + n"
    using b(3) assms(2) unat_u32_small [of "b + n"] by simp
  show "alt_sbrk this_config (of_nat n) s =
    (if b + n \<le> unat (heap_limit s) then (of_nat b, s\<lparr>heap_end := of_nat (b + n)\<rparr>)
     else (- 1, s\<lparr>heap_end := of_nat b\<rparr>))"
    using sum by (simp add: alt_sbrk_def alt_irq_disable_all_def alt_irq_enable_all_def sbrk_refused_def
        this_config_def r [simplified] word_less_nat_alt Let_def)
qed

lemma sbrk_block_eq:
  fixes s :: "('e, 'm) heap_state_scheme"
  assumes "wf_heap s" "n < 2 ^ 31"
  defines "b \<equiv> (unat (heap_end s) + 3) div 4 * 4"
  shows "sbrk_block n s = (if b + n \<le> unat (heap_limit s) then (Some b, s\<lparr>heap_end := of_nat (b + n)\<rparr>)
     else (None, s\<lparr>heap_end := of_nat b\<rparr>))"
proof -
  have b: "b < 2 ^ 31" using sbrk_eq(4) [OF assms(1,2)] by (simp add: b_def)
  have "unat (- 1 :: u32) = 2 ^ 32 - 1"
    by (simp add: unsigned_minus_1_eq_mask mask_eq_exp_minus_1)
  then have "of_nat b \<noteq> (- 1 :: u32)"
    using b unat_u32_small [of b] by (cases "of_nat b = (- 1 :: u32)") simp_all
  then show ?thesis unfolding sbrk_block_def sbrk_eq(1) [OF assms(1,2), folded b_def]
    using b by (simp add: unat_u32_small)
qed

lemma round4_mono: "x \<le> (y + 3) div 4 * 4 \<Longrightarrow> (x + 3) div 4 * 4 \<le> (y + 3) div 4 * 4" for x y :: nat
proof -
  assume "x \<le> (y + 3) div 4 * 4"
  then have "(x + 3) div 4 \<le> ((y + 3) div 4 * 4 + 3) div 4" by (intro div_le_mono) simp
  also have "\<dots> = (y + 3) div 4" by simp
  finally show ?thesis by simp
qed

lemma round4_ge: "y \<le> (y + 3) div 4 * 4" for y :: nat
  by linarith

text \<open>The frontier of the heap is the next aligned address.\<close>

definition heap_frontier :: "('e, 'm) heap_state_scheme \<Rightarrow> nat" where
  "heap_frontier s = (unat (heap_end s) + 3) div 4 * 4"

interpretation sbrk: block_source
  "\<lambda>s :: ('e, 'm) heap_state_scheme. wf_heap s \<and> heap_limit s = l" heap_frontier
  "unat l" "\<lambda>n. n < 2 ^ 31" sbrk_block
proof unfold_locales
  fix s :: "('e, 'm) heap_state_scheme" and n p :: nat
  let ?b = "heap_frontier s"
  assume w: "wf_heap s \<and> heap_limit s = l" and n: "n < 2 ^ 31"
  note eq = sbrk_block_eq [OF conjunct1 [OF w] n, folded heap_frontier_def]
  have b: "unat (heap_end s) \<le> ?b" "?b \<le> unat (heap_end s) + 3" "?b < 2 ^ 31"
    using sbrk_eq(2-4) [OF conjunct1 [OF w] n] by (simp_all add: heap_frontier_def)
  have u: "unat (of_nat (?b + n) :: u32) = ?b + n" "unat (of_nat ?b :: u32) = ?b"
    using b n unat_u32_small [of "?b + n"] unat_u32_small [of ?b] by simp_all
  show "wf_heap (snd (sbrk_block n s)) \<and> heap_limit (snd (sbrk_block n s)) = l"
    using w b u round4_mono [of "unat (heap_end s)" "unat l"] order_trans [OF _ round4_ge [of "unat l"]]
    unfolding eq
    by (auto simp: wf_heap_def word_le_nat_alt heap_frontier_def [of s] simp del: of_nat_add)
  show "heap_frontier s \<le> heap_frontier (snd (sbrk_block n s))"
    using b u unfolding eq by (auto simp: heap_frontier_def [of "_\<lparr>heap_end := _\<rparr>"] simp del: of_nat_add)
  show "fst (sbrk_block n s) = Some p \<Longrightarrow>
      heap_frontier s \<le> p \<and> p + n \<le> heap_frontier (snd (sbrk_block n s)) \<and> p + n \<le> unat l"
    using w b u unfolding eq by (auto simp: heap_frontier_def [of "_\<lparr>heap_end := _\<rparr>"] simp del: of_nat_add split: if_splits)
qed

section \<open>Properties\<close>

text \<open>
  C25: the blocks that successive calls of \<open>sbrk\<close> hand out never overlap: for every sequence
  of requests (below 2 GB), the blocks that are not refused lie one behind the other between
  the break and the heap limit, however many requests are refused in between.
\<close>

theorem sbrk_blocks_disjoint:
  fixes s :: "('e, 'm) heap_state_scheme"
  assumes "wf_heap s" and "\<forall>n \<in> set ns. n < 2 ^ 31"
  shows "sorted_wrt (\<lambda>(p, n) (q, m). p + n \<le> q) (fst (take_all sbrk_block ns s))
    \<and> (\<forall>(p, n) \<in> set (fst (take_all sbrk_block ns s)).
         unat (heap_end s) \<le> p \<and> p + n \<le> unat (heap_limit s))"
proof -
  have ns: "list_all (\<lambda>n. n < 2 ^ 31) ns" using assms(2) by (simp add: list_all_iff)
  have "unat (heap_end s) \<le> heap_frontier s" unfolding heap_frontier_def by linarith
  then show ?thesis
    using sbrk.take_all_disjoint [of s "heap_limit s" ns] sbrk.take_all_bounds [of s "heap_limit s" ns] assms(1) ns
    by (fastforce dest: order_trans)
qed

text \<open>A heap from address 0x1000 to 0x2000 and a profiler over 100 bytes of code.\<close>

definition demo_gmon :: "unit gmon_state" where
  "demo_gmon = \<lparr>cpu_status = 1, cpu_ienable = 0, alt_irq_active = 0, alt_priority_mask = 0, alt_irq = [],
     alt_tick_rate = 100, tick_count = 0, alarm_list = 8, links = (\<lambda>_. None), alarms = (\<lambda>_. None), env = (),
     heap_end = 0x1000, heap_start = 0x1000, heap_limit = 0x2000, stack_limit = 0, stack_pointer = 0,
     exception_old_stack_limit = 0, stack_overflow_reported = False,
     pcsample_need_init = False, mcount_fn_head = replicate HASH_BUCKETS 0, fn_entries = (\<lambda>_. None),
     fn_arcs = (\<lambda>_. None), s_pcsamples = 0x1000, pcsamples = [0, 0, 0], s_low_pc = 0x400, s_high_pc = 0x464,
     gmon_profile_data = 0, gmon_profile_rate = 0, mcount_slab_ptr = 0, mcount_slab_size = 0,
     pcsample_alarm = 16, pcsample_fn = 0\<rparr>"

theorem sbrk_blocks_disjoint_witness:
  "sorted_wrt (\<lambda>(p, n) (q, m). p + n \<le> q) (fst (take_all sbrk_block [5, 5000, 7] demo_gmon))
   \<and> list_all (\<lambda>(p, n). p + n \<le> 0x2000) (fst (take_all sbrk_block [5, 5000, 7] demo_gmon))"
proof -
  have "wf_heap demo_gmon" "heap_limit demo_gmon = 0x2000"
    by (simp_all add: wf_heap_def demo_gmon_def word_le_nat_alt)
  then show ?thesis using sbrk_blocks_disjoint [of demo_gmon "[5, 5000, 7]"] by (auto simp: list_all_iff)
qed

text \<open>
  what a sample of the profiler does, for a histogram of the size its initialisation
  allocates: a program counter outside the code is ignored, one in a full 32-byte bucket
  increments that bucket by one, and one in the remainder behind the last full bucket is
  counted in the cell after the histogram, outside the allocated array.
\<close>

theorem pcsample_outcomes:
  fixes s :: "('e, 'm) gmon_state_scheme"
  assumes "s_low_pc s \<le> s_high_pc s" and "s_pcsamples s \<noteq> 0"
    and "length (pcsamples s) = (unat (s_high_pc s) - unat (s_low_pc s)) div 32"
  shows "nios2_pcsample pc s =
    (if pc < s_low_pc s \<or> s_high_pc s \<le> pc then Some (1, s)
     else (let b = (unat pc - unat (s_low_pc s)) div 32 in
       if b < length (pcsamples s) then Some (1, s\<lparr>pcsamples := (pcsamples s)[b := pcsamples s ! b + 1]\<rparr>)
       else None))"
proof (cases "s_low_pc s \<le> pc \<and> pc < s_high_pc s")
  case True
  then have "unat ((pc - s_low_pc s) div PCSAMPLE_BYTES_PER_BUCKET) = (unat pc - unat (s_low_pc s)) div 32"
    by (simp add: unat_div unat_sub)
  then show ?thesis using True assms
    by (auto simp: nios2_pcsample_def Let_def rd_def wr_def)
qed (use assms in \<open>auto simp: nios2_pcsample_def\<close>)

theorem pcsample_outcomes_witness:
  "nios2_pcsample 0x420 demo_gmon = Some (1, demo_gmon\<lparr>pcsamples := [0, 1, 0]\<rparr>)
   \<and> nios2_pcsample 0x461 demo_gmon = None"
  using pcsample_outcomes [of demo_gmon "0x420"] pcsample_outcomes [of demo_gmon "0x461"]
  by (simp add: demo_gmon_def word_le_nat_alt word_less_nat_alt Let_def)

end
