(* ===== verification/Devices.thy ===== *)
theory Devices
  imports Llist
begin

text \<open>
  The lists of devices and file systems: \<open>HAL/src/alt_dev.c\<close>, \<open>alt_find_dev.c\<close>,
  \<open>alt_find_file.c\<close>, \<open>alt_fs_reg.c\<close>, \<open>alt_dev_llist_insert.c\<close>, and the three small clients
  \<open>alt_dma_rxchan_open.c\<close>, \<open>alt_dma_txchan_open.c\<close> and \<open>alt_flash_dev.c\<close>.

  A C string is the list of its characters before the terminator; the bytes behind the
  terminator, which \<open>memcmp\<close> and an index may reach, are the parameter \<open>beyond\<close>.
\<close>

section \<open>State\<close>

text \<open>\<open>struct alt_dev_s\<close>; a function pointer is its address, 0 for none.\<close>

record alt_dev =
  d_name :: "string option"
  d_open :: u32
  d_close :: u32
  d_read :: u32
  d_write :: u32
  d_lseek :: u32
  d_fstat :: u32
  d_ioctl :: u32

record dev_state =
  dev_links :: links
  devs :: "addr \<Rightarrow> alt_dev option"
  alt_dev_list :: addr
  alt_fs_list :: addr
  errno :: int

abbreviation (input) ENODEV :: int where "ENODEV \<equiv> 19"
abbreviation (input) EINVAL_dev :: int where "EINVAL_dev \<equiv> 22"

section \<open>Comparing names\<close>

definition c_byte :: "(string \<Rightarrow> nat \<Rightarrow> char) \<Rightarrow> string \<Rightarrow> nat \<Rightarrow> char" where
  "c_byte beyond s i =
     (if i < length s then s ! i else if i = length s then CHR 0x00 else beyond s i)"

definition memcmp_same :: "(string \<Rightarrow> nat \<Rightarrow> char) \<Rightarrow> string \<Rightarrow> string \<Rightarrow> nat \<Rightarrow> bool" where
  "memcmp_same beyond a b n \<longleftrightarrow> list_all (\<lambda>i. c_byte beyond a i = c_byte beyond b i) [0..<n]"

section \<open>Searching a list\<close>

text \<open>The loop \<open>while (next != list) { if (test) return next; next = next->llist.next; }\<close>\<close>

partial_function (option) search :: "links \<Rightarrow> addr \<Rightarrow> (addr \<Rightarrow> bool option) \<Rightarrow> addr \<Rightarrow> addr option" where
  "search h head test p =
     (if p \<noteq> head then do {
        t \<leftarrow> test p;
        if t then Some p else do { q \<leftarrow> next_of h p; search h head test q }
      } else Some NULL)"

declare search.simps [code]

definition same_name :: "(string \<Rightarrow> nat \<Rightarrow> char) \<Rightarrow> string \<Rightarrow> 'm dev_state_scheme \<Rightarrow> addr \<Rightarrow> bool option" where
  "same_name beyond name s p = do {
     d \<leftarrow> devs s p;
     n \<leftarrow> d_name d;
     Some (memcmp_same beyond n name (length name + 1))
   }"

definition alt_find_dev :: "(string \<Rightarrow> nat \<Rightarrow> char) \<Rightarrow> string \<Rightarrow> addr \<Rightarrow> 'm dev_state_scheme \<Rightarrow> addr option" where
  "alt_find_dev beyond name llist s = do {
     p \<leftarrow> next_of (dev_links s) llist;
     search (dev_links s) llist (same_name beyond name s) p
   }"

text \<open>An empty file system name makes \<open>name[len-1]\<close> an access in front of the string.\<close>

definition path_on_fs :: "(string \<Rightarrow> nat \<Rightarrow> char) \<Rightarrow> string \<Rightarrow> 'm dev_state_scheme \<Rightarrow> addr \<Rightarrow> bool option" where
  "path_on_fs beyond name s p = do {
     d \<leftarrow> devs s p;
     n \<leftarrow> d_name d;
     let len = length n;
     if len = 0 then None else do {
       let len = (if n ! (len - 1) = CHR ''/'' then len - 1 else len);
       Some ((c_byte beyond name len = CHR ''/'' \<or> c_byte beyond name len = CHR 0x00)
             \<and> memcmp_same beyond n name len)
     }
   }"

definition alt_find_file :: "(string \<Rightarrow> nat \<Rightarrow> char) \<Rightarrow> string \<Rightarrow> 'm dev_state_scheme \<Rightarrow> addr option" where
  "alt_find_file beyond name s = do {
     p \<leftarrow> next_of (dev_links s) (alt_fs_list s);
     search (dev_links s) (alt_fs_list s) (path_on_fs beyond name s) p
   }"

section \<open>Registration\<close>

definition alt_fs_reg :: "addr \<Rightarrow> 'm dev_state_scheme \<Rightarrow> (int \<times> 'm dev_state_scheme) option" where
  "alt_fs_reg dev s = do {
     d \<leftarrow> devs s dev;
     if d_name d = None then Some (- ENODEV, s)
     else do {
       h \<leftarrow> alt_llist_insert (alt_fs_list s) dev (dev_links s);
       Some (0, s\<lparr>dev_links := h\<rparr>)
     }
   }"

definition alt_dev_llist_insert :: "addr \<Rightarrow> addr \<Rightarrow> 'm dev_state_scheme \<Rightarrow> (int \<times> 'm dev_state_scheme) option" where
  "alt_dev_llist_insert dev list s =
     (if dev = NULL then Some (- EINVAL_dev, s\<lparr>errno := EINVAL_dev\<rparr>)
      else do {
        d \<leftarrow> devs s dev;
        if d_name d = None then Some (- EINVAL_dev, s\<lparr>errno := EINVAL_dev\<rparr>)
        else do {
          h \<leftarrow> alt_llist_insert list dev (dev_links s);
          Some (0, s\<lparr>dev_links := h\<rparr>)
        }
      })"

definition alt_dev_reg :: "addr \<Rightarrow> 'm dev_state_scheme \<Rightarrow> (int \<times> 'm dev_state_scheme) option" where
  "alt_dev_reg dev s = alt_dev_llist_insert dev (alt_dev_list s) s"

text \<open>The channel lists are heads of their own; \<open>list\<close> is the address of the one in question.\<close>

definition alt_dma_rxchan_open ::
  "(string \<Rightarrow> nat \<Rightarrow> char) \<Rightarrow> string \<Rightarrow> addr \<Rightarrow> 'm dev_state_scheme \<Rightarrow> (addr \<times> 'm dev_state_scheme) option" where
  "alt_dma_rxchan_open beyond name list s = do {
     dev \<leftarrow> alt_find_dev beyond name list s;
     Some (dev, if dev = NULL then s\<lparr>errno := ENODEV\<rparr> else s)
   }"

definition alt_dma_txchan_open ::
  "(string \<Rightarrow> nat \<Rightarrow> char) \<Rightarrow> string \<Rightarrow> addr \<Rightarrow> 'm dev_state_scheme \<Rightarrow> (addr \<times> 'm dev_state_scheme) option" where
  "alt_dma_txchan_open beyond name list s = do {
     dev \<leftarrow> alt_find_dev beyond name list s;
     Some (dev, if dev = NULL then s\<lparr>errno := ENODEV\<rparr> else s)
   }"

text \<open>\<open>call_open\<close> and \<open>call_close\<close> run the flash driver's function at an address.\<close>

definition alt_flash_open_dev ::
  "(string \<Rightarrow> nat \<Rightarrow> char) \<Rightarrow> (u32 \<Rightarrow> addr \<Rightarrow> string \<Rightarrow> 'm dev_state_scheme \<Rightarrow> addr \<times> 'm dev_state_scheme)
    \<Rightarrow> string \<Rightarrow> addr \<Rightarrow> 'm dev_state_scheme \<Rightarrow> (addr \<times> 'm dev_state_scheme) option" where
  "alt_flash_open_dev beyond call_open name list s = do {
     dev \<leftarrow> alt_find_dev beyond name list s;
     if dev \<noteq> NULL then do {
       d \<leftarrow> devs s dev;
       Some (if d_open d \<noteq> 0 then call_open (d_open d) dev name s else (dev, s))
     } else Some (dev, s)
   }"

definition alt_flash_close_dev ::
  "(u32 \<Rightarrow> addr \<Rightarrow> 'm dev_state_scheme \<Rightarrow> 'm dev_state_scheme) \<Rightarrow> addr \<Rightarrow> 'm dev_state_scheme
    \<Rightarrow> 'm dev_state_scheme option" where
  "alt_flash_close_dev call_close fd s =
     (if fd \<noteq> NULL then do {
        d \<leftarrow> devs s fd;
        Some (if d_close d \<noteq> 0 then call_close (d_close d) fd s else s)
      } else Some s)"

section \<open>Searching finds the first match\<close>

lemma search_ok:
  assumes "ring h a (xs @ ys)" "\<And>p. p \<in> set ys \<Longrightarrow> test p = Some (P p)"
  shows "search h a test (hd (ys @ [a])) = Some (case List.find P ys of None \<Rightarrow> NULL | Some p \<Rightarrow> p)"
  using assms
proof (induction ys arbitrary: xs)
  case Nil
  then show ?case by (subst search.simps) simp
next
  case (Cons y ys)
  have y: "y \<noteq> a" using alt_list.ring_distinct [OF Cons.prems(1)] by auto
  have "next_of h y = Some (hd (ys @ [a]))" using alt_list.succ_elem Cons.prems(1) by blast
  moreover have "search h a test (hd (ys @ [a])) = Some (case List.find P ys of None \<Rightarrow> NULL | Some p \<Rightarrow> p)"
    using Cons.prems by (intro Cons.IH [of "xs @ [y]"]) auto
  ultimately show ?case using y Cons.prems(2) [of y] by (subst search.simps) simp
qed

lemma memcmp_name:
  assumes "CHR 0x00 \<notin> set a" "CHR 0x00 \<notin> set b"
  shows "memcmp_same beyond a b (length b + 1) \<longleftrightarrow> a = b"
proof
  assume "memcmp_same beyond a b (length b + 1)"
  then have m: "c_byte beyond a i = c_byte beyond b i" if "i \<le> length b" for i
    using that by (auto simp: memcmp_same_def list_all_iff le_less)
  have "\<not> length a < length b"
  proof
    assume l: "length a < length b"
    then have "b ! length a = CHR 0x00" using m [of "length a"] by (simp add: c_byte_def)
    then show False using assms(2) l nth_mem by metis
  qed
  moreover have "\<not> length b < length a"
  proof
    assume l: "length b < length a"
    then have "a ! length b = CHR 0x00" using m [of "length b"] by (simp add: c_byte_def)
    then show False using assms(1) l nth_mem by metis
  qed
  ultimately have l: "length a = length b" by simp
  show "a = b"
  proof (rule nth_equalityI [OF l])
    fix i assume "i < length a"
    then show "a ! i = b ! i" using m [of i] l by (simp add: c_byte_def)
  qed
qed (simp add: memcmp_same_def list_all_iff)

lemma memcmp_prefix:
  assumes "CHR 0x00 \<notin> set a" "len \<le> length a"
  shows "memcmp_same beyond a b len \<longleftrightarrow> len \<le> length b \<and> take len b = take len a"
proof
  assume "memcmp_same beyond a b len"
  then have m: "c_byte beyond a i = c_byte beyond b i" if "i < len" for i
    using that by (simp add: memcmp_same_def list_all_iff)
  have "\<not> length b < len"
  proof
    assume l: "length b < len"
    then have "a ! length b = CHR 0x00" using m [of "length b"] assms(2) by (simp add: c_byte_def)
    then show False using assms l nth_mem [of "length b" a] by auto
  qed
  moreover have "take len b = take len a"
    using m calculation assms(2) by (intro nth_equalityI) (auto simp: c_byte_def)
  ultimately show "len \<le> length b \<and> take len b = take len a" by simp
next
  assume t: "len \<le> length b \<and> take len b = take len a"
  then have "a ! i = b ! i" if "i < len" for i using that by (metis nth_take)
  then show "memcmp_same beyond a b len"
    using t assms(2) by (auto simp: memcmp_same_def list_all_iff c_byte_def)
qed

text \<open>The name of a registered device.\<close>

definition name_of :: "'m dev_state_scheme \<Rightarrow> addr \<Rightarrow> string" where
  "name_of s p = (case devs s p of None \<Rightarrow> [] | Some d \<Rightarrow> (case d_name d of None \<Rightarrow> [] | Some n \<Rightarrow> n))"

definition named :: "'m dev_state_scheme \<Rightarrow> addr list \<Rightarrow> bool" where
  "named s xs \<longleftrightarrow> (\<forall>p \<in> set xs. \<exists>d n. devs s p = Some d \<and> d_name d = Some n \<and> CHR 0x00 \<notin> set n)"

text \<open>A path lies on the file system \<open>fs\<close> (with or without a final slash).\<close>

definition on_fs :: "string \<Rightarrow> string \<Rightarrow> bool" where
  "on_fs path fs \<longleftrightarrow> (let m = (if last fs = CHR ''/'' then butlast fs else fs)
     in take (length m) path = m \<and> (path = m \<or> (length m < length path \<and> path ! length m = CHR ''/'')))"

lemma find_dev_ok:
  assumes "ring (dev_links s) a xs" "named s xs" "CHR 0x00 \<notin> set name"
  shows "alt_find_dev beyond name a s
    = Some (case List.find (\<lambda>p. name_of s p = name) xs of None \<Rightarrow> NULL | Some p \<Rightarrow> p)"
proof -
  have "same_name beyond name s p = Some (name_of s p = name)" if p: "p \<in> set xs" for p
  proof -
    obtain d n where d: "devs s p = Some d" "d_name d = Some n" "CHR 0x00 \<notin> set n"
      using assms(2) p by (auto simp: named_def)
    then show ?thesis using memcmp_name [OF d(3) assms(3)] by (simp add: same_name_def name_of_def)
  qed
  then show ?thesis
    using search_ok [of "dev_links s" a "[]" xs] alt_list.succ_head [OF assms(1)] assms(1)
    by (simp add: alt_find_dev_def)
qed

lemma path_on_fs_eq:
  assumes "devs s p = Some d" "d_name d = Some n" "CHR 0x00 \<notin> set n" "n \<noteq> []"
    and "CHR 0x00 \<notin> set path"
  shows "path_on_fs beyond path s p = Some (on_fs path n)"
proof -
  define len where "len = (if n ! (length n - 1) = CHR ''/'' then length n - 1 else length n)"
  have len: "len \<le> length n" "take len n = (if last n = CHR ''/'' then butlast n else n)"
    using assms(4) by (auto simp: len_def last_conv_nth butlast_conv_take)
  have lm: "length (take len n) = len" using len(1) by simp
  have nul: "path ! len \<noteq> CHR 0x00" if "len < length path" using nth_mem [OF that] assms(5) by metis
  have "path_on_fs beyond path s p
    = Some ((c_byte beyond path len = CHR ''/'' \<or> c_byte beyond path len = CHR 0x00) \<and> memcmp_same beyond n path len)"
    using assms by (simp add: path_on_fs_def len_def Let_def)
  also have "\<dots> = Some (len \<le> length path \<and> take len path = take len n
      \<and> (len = length path \<or> len < length path \<and> path ! len = CHR ''/''))"
    using nul
    by (auto simp: memcmp_prefix [OF assms(3) len(1)] c_byte_def)
  also have "\<dots> = Some (on_fs path n)"
  proof -
    have "(len = length path \<and> take len path = take len n) = (path = take len n)"
      using lm by auto
    then show ?thesis using lm unfolding on_fs_def len(2) [symmetric] Let_def lm
      by (auto dest: arg_cong [where f = length])
  qed
  finally show ?thesis .
qed

lemma find_file_ok:
  assumes "ring (dev_links s) (alt_fs_list s) xs" "named s xs" "\<forall>p \<in> set xs. name_of s p \<noteq> []"
    and "CHR 0x00 \<notin> set path"
  shows "alt_find_file beyond path s
    = Some (case List.find (\<lambda>p. on_fs path (name_of s p)) xs of None \<Rightarrow> NULL | Some p \<Rightarrow> p)"
proof -
  have "path_on_fs beyond path s p = Some (on_fs path (name_of s p))" if p: "p \<in> set xs" for p
  proof -
    obtain d n where d: "devs s p = Some d" "d_name d = Some n" "CHR 0x00 \<notin> set n"
      using assms(2) p by (auto simp: named_def)
    moreover have "n \<noteq> []" using assms(3) p d by (auto simp: name_of_def)
    ultimately show ?thesis using path_on_fs_eq [OF d _ assms(4)] by (simp add: name_of_def)
  qed
  then show ?thesis
    using search_ok [of "dev_links s" "alt_fs_list s" "[]" xs] alt_list.succ_head [OF assms(1)] assms(1)
    by (simp add: alt_find_file_def)
qed

lemma register_ok:
  assumes "ring (dev_links s) (alt_dev_list s) xs" and "named s (dev # xs)" and "dev \<noteq> NULL"
    and "valid (dev_links s) dev" and "dev \<notin> set (alt_dev_list s # xs)" and "CHR 0x00 \<notin> set name"
  shows "\<exists>h. alt_dev_reg dev s = Some (0, s\<lparr>dev_links := h\<rparr>) \<and> alt_find_dev beyond name (alt_dev_list s) (s\<lparr>dev_links := h\<rparr>)
    = (if name = name_of s dev then Some dev else alt_find_dev beyond name (alt_dev_list s) s)"
proof -
  obtain h where h: "alt_llist_insert (alt_dev_list s) dev (dev_links s) = Some h"
    "ring h (alt_dev_list s) (dev # xs)"
    using alt_list.insert_ok [OF assms(1,4,5)] by blast
  let ?s = "s\<lparr>dev_links := h\<rparr>"
  have old: "alt_find_dev beyond name (alt_dev_list s) s
      = Some (case List.find (\<lambda>p. name_of s p = name) xs of None \<Rightarrow> NULL | Some p \<Rightarrow> p)"
    using assms by (intro find_dev_ok) (auto simp: named_def)
  have "alt_find_dev beyond name (alt_dev_list s) ?s
      = Some (case List.find (\<lambda>p. name_of ?s p = name) (dev # xs) of None \<Rightarrow> NULL | Some p \<Rightarrow> p)"
    using h(2) assms by (intro find_dev_ok) (auto simp: named_def)
  moreover have "name_of ?s = name_of s" by (simp add: fun_eq_iff name_of_def)
  moreover have "alt_dev_reg dev s = Some (0, ?s)"
    using assms(2,3) h(1) by (auto simp: alt_dev_reg_def alt_dev_llist_insert_def named_def)
  ultimately show ?thesis using old by auto
qed

section \<open>Properties\<close>

text \<open>
  C33: looking up a device after registering one: the new device is found under its name
  (also when an older one has the same name), and every other name gives what it gave
  before, whatever bytes lie behind the strings in memory.
\<close>

theorem register_then_find:
  assumes "ring (dev_links s) (alt_dev_list s) xs" and "named s (dev # xs)" and "dev \<noteq> NULL"
    and "valid (dev_links s) dev" and "dev \<notin> set (alt_dev_list s # xs)" and "CHR 0x00 \<notin> set name"
  shows "\<exists>s'. alt_dev_reg dev s = Some (0, s') \<and> alt_find_dev beyond name (alt_dev_list s) s'
    = (if name = name_of s dev then Some dev else alt_find_dev beyond name (alt_dev_list s) s)"
  using register_ok [OF assms, of beyond] by blast

definition demo_device :: "string \<Rightarrow> alt_dev" where
  "demo_device n = \<lparr>d_name = Some n, d_open = 0, d_close = 0, d_read = 0, d_write = 0, d_lseek = 0,
     d_fstat = 0, d_ioctl = 0\<rparr>"

text \<open>\<open>/dev/null\<close> at 12 is registered, a UART at 16 is not yet; no file systems.\<close>

definition demo_devs :: dev_state where
  "demo_devs = \<lparr>dev_links = the (alt_llist_insert 8 12
       (llist_entry 16 (llist_entry 12 (llist_head 4 (llist_head 8 (\<lambda>_. None)))))),
     devs = [12 \<mapsto> demo_device ''/dev/null'', 16 \<mapsto> demo_device ''/dev/jtag_uart''],
     alt_dev_list = 8, alt_fs_list = 4, errno = 0\<rparr>"

lemma demo_devs_ring: "ring (dev_links demo_devs) 8 [12]" "valid (dev_links demo_devs) 16"
  by (simp_all add: demo_devs_def ring_def edge_def llist_head_def llist_entry_def alt_llist_insert_def
      set_next_def set_previous_def next_of_def previous_of_def valid_def)

theorem register_then_find_witness:
  "\<exists>s'. alt_dev_reg 16 demo_devs = Some (0, s')
    \<and> alt_find_dev (\<lambda>_ _. CHR ''x'') ''/dev/jtag_uart'' 8 s' = Some 16"
  using register_then_find [of demo_devs "[12]" 16 "''/dev/jtag_uart''" "\<lambda>_ _. CHR ''x''"] demo_devs_ring
  by (simp add: demo_devs_def named_def name_of_def demo_device_def)

text \<open>
  \<open>alt_find_file\<close> returns the first registered file system whose mount point, without a
  final slash, is the path or is followed by a slash in it, and null if there is none;
  a mount point that is longer than the path, where the code reads behind the end of the
  path, is never matched.
\<close>

theorem find_file_first_mount:
  assumes "ring (dev_links s) (alt_fs_list s) xs" and "named s xs" and "\<forall>p \<in> set xs. name_of s p \<noteq> []"
    and "CHR 0x00 \<notin> set path"
  shows "alt_find_file beyond path s
    = Some (case List.find (\<lambda>p. on_fs path (name_of s p)) xs of None \<Rightarrow> NULL | Some p \<Rightarrow> p)"
  by (rule find_file_ok [OF assms])

definition demo_fs :: dev_state where
  "demo_fs = \<lparr>dev_links = the (alt_llist_insert 4 12 (llist_entry 12 (llist_head 4 (\<lambda>_. None)))),
     devs = [12 \<mapsto> demo_device ''/mnt/zip/''], alt_dev_list = 8, alt_fs_list = 4, errno = 0\<rparr>"

theorem find_file_first_mount_witness:
  "alt_find_file (\<lambda>_ _. CHR ''/'') ''/mnt/zip/a'' demo_fs = Some 12
   \<and> alt_find_file (\<lambda>_ _. CHR ''/'') ''/mnt'' demo_fs = Some NULL"
proof -
  have "ring (dev_links demo_fs) (alt_fs_list demo_fs) [12]"
    by (simp add: demo_fs_def ring_def edge_def llist_head_def llist_entry_def alt_llist_insert_def
      set_next_def set_previous_def next_of_def previous_of_def)
  moreover have "named demo_fs [12]" "name_of demo_fs 12 = ''/mnt/zip/''"
    by (simp_all add: demo_fs_def named_def name_of_def demo_device_def)
  moreover have "on_fs ''/mnt/zip/a'' ''/mnt/zip/''" "\<not> on_fs ''/mnt'' ''/mnt/zip/''"
    by (simp_all add: on_fs_def Let_def)
  ultimately show ?thesis
    using find_file_first_mount [of demo_fs "[12]" "''/mnt/zip/a''"] find_file_first_mount [of demo_fs "[12]" "''/mnt''"]
    by simp
qed

end
