(* ===== verification/Files.thy ===== *)
theory Files
  imports Devices
begin

text \<open>
  The file descriptor layer of the HAL: the descriptor table (\<open>alt_dev.c\<close>, \<open>alt_get_fd.c\<close>,
  \<open>alt_release_fd.c\<close>), exclusive access (\<open>alt_fd_lock.c\<close>, \<open>alt_fd_unlock.c\<close>) and the system
  calls \<open>alt_open.c\<close>, \<open>alt_close.c\<close>, \<open>alt_read.c\<close>, \<open>alt_write.c\<close>, \<open>alt_lseek.c\<close>,
  \<open>alt_fstat.c\<close>, \<open>alt_isatty.c\<close>, \<open>alt_ioctl.c\<close>, \<open>alt_fcntl.c\<close>, \<open>alt_io_redirect.c\<close> and
  \<open>alt_stat.c\<close>, in both variants: through the table, and the \<open>ALT_USE_DIRECT_DRIVERS\<close>
  variant that this project is built with.

  A descriptor pointer is its index in \<open>alt_fd_list\<close>.  The driver functions that a device
  points to are the parameter \<open>drv\<close>, which runs the function at an address on the whole
  state.  \<open>None\<close> is an access outside the table or through a descriptor with no device.
  The semaphores are empty in the single-threaded HAL.
\<close>

section \<open>State\<close>

abbreviation ALT_MAX_FD :: nat where "ALT_MAX_FD \<equiv> 4"

record alt_fd =
  fd_dev :: addr
  fd_priv :: addr
  fd_flags :: u32

record 'e file_state = dev_state +
  alt_fd_list :: "alt_fd list"
  alt_max_fd :: int
  io_env :: 'e

abbreviation (input) ALT_FD_EXCL :: u32 where "ALT_FD_EXCL \<equiv> 0x80000000"
abbreviation (input) ALT_FD_DEV :: u32 where "ALT_FD_DEV \<equiv> 0x40000000"
abbreviation (input) ALT_FD_FLAGS_MASK :: u32 where "ALT_FD_FLAGS_MASK \<equiv> 0xC0000000"
abbreviation (input) O_RDONLY :: u32 where "O_RDONLY \<equiv> 0"
abbreviation (input) O_WRONLY :: u32 where "O_WRONLY \<equiv> 1"
abbreviation (input) O_ACCMODE :: u32 where "O_ACCMODE \<equiv> 3"
text \<open>\<open>O_APPEND | O_NONBLOCK\<close>\<close>
abbreviation (input) ALT_FCNTL_FLAGS_MASK :: u32 where "ALT_FCNTL_FLAGS_MASK \<equiv> 0x4008"
abbreviation (input) IFCHR :: u32 where "IFCHR \<equiv> 0x2000"
abbreviation (input) TIOCEXCL :: u32 where "TIOCEXCL \<equiv> 0x740d"
abbreviation (input) TIOCNXCL :: u32 where "TIOCNXCL \<equiv> 0x740e"

abbreviation (input) EMFILE :: int where "EMFILE \<equiv> 24"
abbreviation (input) EACCES :: int where "EACCES \<equiv> 13"
abbreviation (input) EBADFD :: int where "EBADFD \<equiv> 81"
abbreviation (input) ENOTTY :: int where "ENOTTY \<equiv> 25"
abbreviation (input) ENOSYS_fd :: int where "ENOSYS_fd \<equiv> 88"
abbreviation (input) ENOTSUP_fd :: int where "ENOTSUP_fd \<equiv> 134"

text \<open>Running a driver's function: its address, the descriptor, and the remaining arguments.\<close>

record 's drivers =
  call_open :: "u32 \<Rightarrow> nat \<Rightarrow> string \<Rightarrow> u32 \<Rightarrow> u32 \<Rightarrow> 's \<Rightarrow> int \<times> 's"
  call_close :: "u32 \<Rightarrow> nat \<Rightarrow> 's \<Rightarrow> int \<times> 's"
  call_read :: "u32 \<Rightarrow> nat \<Rightarrow> addr \<Rightarrow> u32 \<Rightarrow> 's \<Rightarrow> int \<times> 's"
  call_write :: "u32 \<Rightarrow> nat \<Rightarrow> addr \<Rightarrow> u32 \<Rightarrow> 's \<Rightarrow> int \<times> 's"
  call_lseek :: "u32 \<Rightarrow> nat \<Rightarrow> int \<Rightarrow> int \<Rightarrow> 's \<Rightarrow> int \<times> 's"
  call_fstat :: "u32 \<Rightarrow> nat \<Rightarrow> u32 \<Rightarrow> 's \<Rightarrow> int \<times> u32 \<times> 's"
  call_ioctl :: "u32 \<Rightarrow> nat \<Rightarrow> u32 \<Rightarrow> u32 \<Rightarrow> 's \<Rightarrow> int \<times> 's"

text \<open>\<open>alt_dev_null\<close> and the initial table: the three standard descriptors on it.\<close>

definition alt_dev_null_write :: "u32 \<Rightarrow> int" where
  "alt_dev_null_write len = sint len"

definition alt_dev_null :: "u32 \<Rightarrow> alt_dev" where
  "alt_dev_null write_fn = \<lparr>d_name = Some ''/dev/null'', d_open = 0, d_close = 0, d_read = 0,
     d_write = write_fn, d_lseek = 0, d_fstat = 0, d_ioctl = 0\<rparr>"

definition init_fd_list :: "addr \<Rightarrow> alt_fd list" where
  "init_fd_list null_dev = replicate 3 \<lparr>fd_dev = null_dev, fd_priv = 0, fd_flags = 0\<rparr>
     @ [\<lparr>fd_dev = NULL, fd_priv = 0, fd_flags = 0\<rparr>]"

section \<open>Descriptors\<close>

definition get_descr :: "nat \<Rightarrow> ('e, 'm) file_state_scheme \<Rightarrow> alt_fd option" where
  "get_descr i s = rd (alt_fd_list s) i"

definition put_descr :: "nat \<Rightarrow> alt_fd \<Rightarrow> ('e, 'm) file_state_scheme \<Rightarrow> ('e, 'm) file_state_scheme option" where
  "put_descr i f s = do { l \<leftarrow> wr (alt_fd_list s) i f; Some (s\<lparr>alt_fd_list := l\<rparr>) }"

function get_fd_loop :: "nat \<Rightarrow> addr \<Rightarrow> ('e, 'm) file_state_scheme \<Rightarrow> (int \<times> ('e, 'm) file_state_scheme) option" where
  "get_fd_loop i dev s =
     (if i < ALT_MAX_FD then do {
        f \<leftarrow> get_descr i s;
        if fd_dev f = NULL then do {
          s \<leftarrow> put_descr i (f\<lparr>fd_dev := dev\<rparr>) s;
          let s = (if alt_max_fd s < int i then s\<lparr>alt_max_fd := int i\<rparr> else s);
          Some (int i, s)
        } else get_fd_loop (i + 1) dev s
      } else Some (- EMFILE, s))"
  by auto
termination by (relation "measure (\<lambda>(i, _, _). ALT_MAX_FD - i)") auto

declare get_fd_loop.simps [simp del]

definition alt_get_fd :: "addr \<Rightarrow> ('e, 'm) file_state_scheme \<Rightarrow> (int \<times> ('e, 'm) file_state_scheme) option" where
  "alt_get_fd dev s = get_fd_loop 0 dev s"

definition alt_release_fd :: "int \<Rightarrow> ('e, 'm) file_state_scheme \<Rightarrow> ('e, 'm) file_state_scheme option" where
  "alt_release_fd fd s =
     (if fd > 2 then do {
        f \<leftarrow> get_descr (nat fd) s;
        put_descr (nat fd) (f\<lparr>fd_flags := 0, fd_dev := NULL\<rparr>) s
      } else Some s)"

text \<open>\<open>alt_fd_lock\<close> compares with the descriptors \<open>i < alt_max_fd\<close>.\<close>

function fd_lock_loop :: "nat \<Rightarrow> nat \<Rightarrow> ('e, 'm) file_state_scheme \<Rightarrow> bool option" where
  "fd_lock_loop i fd s =
     (if int i < alt_max_fd s then do {
        f \<leftarrow> get_descr i s;
        me \<leftarrow> get_descr fd s;
        if i \<noteq> fd \<and> fd_dev f = fd_dev me then Some True else fd_lock_loop (i + 1) fd s
      } else Some False)"
  by auto
termination by (relation "measure (\<lambda>(i, _, s). nat (alt_max_fd s) - i)") auto

declare fd_lock_loop.simps [simp del]

definition alt_fd_lock :: "nat \<Rightarrow> ('e, 'm) file_state_scheme \<Rightarrow> (int \<times> ('e, 'm) file_state_scheme) option" where
  "alt_fd_lock fd s = do {
     busy \<leftarrow> fd_lock_loop 0 fd s;
     if busy then Some (- EACCES, s)
     else do {
       f \<leftarrow> get_descr fd s;
       s \<leftarrow> put_descr fd (f\<lparr>fd_flags := fd_flags f OR ALT_FD_EXCL\<rparr>) s;
       Some (0, s)
     }
   }"

definition alt_fd_unlock :: "nat \<Rightarrow> ('e, 'm) file_state_scheme \<Rightarrow> (int \<times> ('e, 'm) file_state_scheme) option" where
  "alt_fd_unlock fd s = do {
     f \<leftarrow> get_descr fd s;
     s \<leftarrow> put_descr fd (f\<lparr>fd_flags := fd_flags f AND NOT ALT_FD_EXCL\<rparr>) s;
     Some (0, s)
   }"

section \<open>System calls on the table\<close>

text \<open>\<open>alt_file_locked\<close> compares its unsigned index with the signed \<open>alt_max_fd\<close>, inclusively.\<close>

function file_locked_loop :: "nat \<Rightarrow> nat \<Rightarrow> ('e, 'm) file_state_scheme \<Rightarrow> bool option" where
  "file_locked_loop i fd s =
     (if i \<le> unat (word_of_int (alt_max_fd s) :: u32) then do {
        f \<leftarrow> get_descr i s;
        me \<leftarrow> get_descr fd s;
        if fd_dev f = fd_dev me \<and> fd_flags f AND ALT_FD_EXCL \<noteq> 0 \<and> i \<noteq> fd then Some True
        else file_locked_loop (i + 1) fd s
      } else Some False)"
  by auto
termination by (relation "measure (\<lambda>(i, _, s). unat (word_of_int (alt_max_fd s) :: u32) + 1 - i)") auto

declare file_locked_loop.simps [simp del]

definition alt_file_locked :: "nat \<Rightarrow> ('e, 'm) file_state_scheme \<Rightarrow> (int \<times> ('e, 'm) file_state_scheme) option" where
  "alt_file_locked fd s = do {
     f \<leftarrow> get_descr fd s;
     s \<leftarrow> put_descr fd (f\<lparr>fd_flags := fd_flags f OR ALT_FD_DEV\<rparr>) s;
     locked \<leftarrow> file_locked_loop 0 fd s;
     Some (if locked then - EACCES else 0, s)
   }"

text \<open>The device a descriptor points to; \<open>None\<close> when the pointer is null or dangling.\<close>

definition descr_dev :: "nat \<Rightarrow> ('e, 'm) file_state_scheme \<Rightarrow> alt_dev option" where
  "descr_dev i s = do { f \<leftarrow> get_descr i s; if fd_dev f = NULL then None else devs s (fd_dev f) }"

definition alt_open ::
  "(string \<Rightarrow> nat \<Rightarrow> char) \<Rightarrow> ('e, 'm) file_state_scheme drivers \<Rightarrow> string \<Rightarrow> u32 \<Rightarrow> u32
    \<Rightarrow> ('e, 'm) file_state_scheme \<Rightarrow> (int \<times> ('e, 'm) file_state_scheme) option" where
  "alt_open beyond drv file flags mode s = do {
     dev \<leftarrow> alt_find_dev beyond file (alt_dev_list s) s;
     (dev, isafs) \<leftarrow> (if dev = NULL then do { dev \<leftarrow> alt_find_file beyond file s; Some (dev, True) }
                      else Some (dev, False));
     (index, status, s) \<leftarrow>
       (if dev \<noteq> NULL then do {
          (index, s) \<leftarrow> alt_get_fd dev s;
          if index < 0 then Some (index, index, s)
          else do {
            let fd = nat index;
            f \<leftarrow> get_descr fd s;
            s \<leftarrow> put_descr fd (f\<lparr>fd_flags := flags AND NOT ALT_FD_FLAGS_MASK\<rparr>) s;
            (status, s) \<leftarrow> (if isafs then Some (- ENODEV, s) else alt_file_locked fd s);
            if isafs \<or> 0 \<le> status then do {
              d \<leftarrow> devs s dev;
              let (status, s) = (if d_open d \<noteq> 0 then call_open drv (d_open d) fd file flags mode s else (0, s));
              Some (index, status, s)
            } else Some (index, status, s)
          }
        } else Some (- 1, - ENODEV, s));
     if status < 0 then do {
       s \<leftarrow> alt_release_fd index s;
       Some (- 1, s\<lparr>errno := - status\<rparr>)
     } else Some (index, s)
   }"

definition alt_close ::
  "('e, 'm) file_state_scheme drivers \<Rightarrow> int \<Rightarrow> ('e, 'm) file_state_scheme \<Rightarrow> (int \<times> ('e, 'm) file_state_scheme) option" where
  "alt_close drv fildes s =
     (if fildes < 0 then Some (- 1, s\<lparr>errno := EBADFD\<rparr>)
      else do {
        d \<leftarrow> descr_dev (nat fildes) s;
        let (rval, s) = (if d_close d \<noteq> 0 then call_close drv (d_close d) (nat fildes) s else (0, s));
        s \<leftarrow> alt_release_fd fildes s;
        Some (if rval < 0 then (- 1, s\<lparr>errno := - rval\<rparr>) else (0, s))
      })"

definition alt_read ::
  "('e, 'm) file_state_scheme drivers \<Rightarrow> int \<Rightarrow> addr \<Rightarrow> u32 \<Rightarrow> ('e, 'm) file_state_scheme
    \<Rightarrow> (int \<times> ('e, 'm) file_state_scheme) option" where
  "alt_read drv file ptr len s =
     (if file < 0 then Some (- 1, s\<lparr>errno := EBADFD\<rparr>)
      else do {
        f \<leftarrow> get_descr (nat file) s;
        readable \<leftarrow> (if fd_flags f AND O_ACCMODE \<noteq> O_WRONLY
                     then do { d \<leftarrow> descr_dev (nat file) s; Some (d_read d) } else Some 0);
        if readable \<noteq> 0 then
          (let (rval, s) = call_read drv readable (nat file) ptr len s
           in Some (if rval < 0 then (- 1, s\<lparr>errno := - rval\<rparr>) else (rval, s)))
        else Some (- 1, s\<lparr>errno := EACCES\<rparr>)
      })"

definition alt_write ::
  "('e, 'm) file_state_scheme drivers \<Rightarrow> int \<Rightarrow> addr \<Rightarrow> u32 \<Rightarrow> ('e, 'm) file_state_scheme
    \<Rightarrow> (int \<times> ('e, 'm) file_state_scheme) option" where
  "alt_write drv file ptr len s =
     (if file < 0 then Some (- 1, s\<lparr>errno := EBADFD\<rparr>)
      else do {
        f \<leftarrow> get_descr (nat file) s;
        writable \<leftarrow> (if fd_flags f AND O_ACCMODE \<noteq> O_RDONLY
                     then do { d \<leftarrow> descr_dev (nat file) s; Some (d_write d) } else Some 0);
        if writable \<noteq> 0 then
          (let (rval, s) = call_write drv writable (nat file) ptr len s
           in Some (if rval < 0 then (- 1, s\<lparr>errno := - rval\<rparr>) else (rval, s)))
        else Some (- 1, s\<lparr>errno := EACCES\<rparr>)
      })"

definition alt_lseek ::
  "('e, 'm) file_state_scheme drivers \<Rightarrow> int \<Rightarrow> int \<Rightarrow> int \<Rightarrow> ('e, 'm) file_state_scheme
    \<Rightarrow> (int \<times> ('e, 'm) file_state_scheme) option" where
  "alt_lseek drv file ptr dir s = do {
     (rc, s) \<leftarrow> (if file < 0 then Some (- EBADFD, s)
                 else do {
                   d \<leftarrow> descr_dev (nat file) s;
                   Some (if d_lseek d \<noteq> 0 then call_lseek drv (d_lseek d) (nat file) ptr dir s
                         else (- ENOTSUP_fd, s))
                 });
     Some (if rc < 0 then (- 1, s\<lparr>errno := - rc\<rparr>) else (rc, s))
   }"

text \<open>\<open>st\<close> is the \<open>st_mode\<close> of the caller's structure, before and after.\<close>

definition alt_fstat ::
  "('e, 'm) file_state_scheme drivers \<Rightarrow> int \<Rightarrow> u32 \<Rightarrow> ('e, 'm) file_state_scheme
    \<Rightarrow> (int \<times> u32 \<times> ('e, 'm) file_state_scheme) option" where
  "alt_fstat drv file st s =
     (if file < 0 then Some (- 1, st, s\<lparr>errno := EBADFD\<rparr>)
      else do {
        d \<leftarrow> descr_dev (nat file) s;
        Some (if d_fstat d \<noteq> 0 then call_fstat drv (d_fstat d) (nat file) st s else (0, IFCHR, s))
      })"

definition alt_isatty ::
  "('e, 'm) file_state_scheme drivers \<Rightarrow> u32 \<Rightarrow> int \<Rightarrow> ('e, 'm) file_state_scheme
    \<Rightarrow> (int \<times> ('e, 'm) file_state_scheme) option" where
  "alt_isatty drv junk file s =
     (if file < 0 then Some (0, s\<lparr>errno := EBADFD\<rparr>)
      else do {
        d \<leftarrow> descr_dev (nat file) s;
        if d_fstat d = 0 then Some (1, s)
        else do {
          (_, st, s) \<leftarrow> alt_fstat drv file junk s;
          Some (if st = IFCHR then 1 else 0, s)
        }
      })"

definition alt_ioctl ::
  "('e, 'm) file_state_scheme drivers \<Rightarrow> int \<Rightarrow> u32 \<Rightarrow> u32 \<Rightarrow> ('e, 'm) file_state_scheme
    \<Rightarrow> (int \<times> ('e, 'm) file_state_scheme) option" where
  "alt_ioctl drv file req arg s = do {
     (rc, s) \<leftarrow>
       (if file < 0 then Some (- EBADFD, s)
        else do {
          f \<leftarrow> get_descr (nat file) s;
          if fd_flags f AND ALT_FD_DEV \<noteq> 0 \<and> req = TIOCEXCL then alt_fd_lock (nat file) s
          else if fd_flags f AND ALT_FD_DEV \<noteq> 0 \<and> req = TIOCNXCL then alt_fd_unlock (nat file) s
          else do {
            d \<leftarrow> descr_dev (nat file) s;
            Some (if d_ioctl d \<noteq> 0 then call_ioctl drv (d_ioctl d) (nat file) req arg s else (- ENOTTY, s))
          }
        });
     Some (rc, if rc < 0 then s\<lparr>errno := - rc\<rparr> else s)
   }"

text \<open>\<open>F_GETFL\<close> is 3 and \<open>F_SETFL\<close> is 4.\<close>

definition alt_fcntl ::
  "int \<Rightarrow> int \<Rightarrow> u32 \<Rightarrow> ('e, 'm) file_state_scheme \<Rightarrow> (int \<times> ('e, 'm) file_state_scheme) option" where
  "alt_fcntl file cmd flags s =
     (if file < 0 then Some (- 1, s\<lparr>errno := EBADFD\<rparr>)
      else do {
        f \<leftarrow> get_descr (nat file) s;
        if cmd = 3 then Some (sint (fd_flags f AND NOT ALT_FD_FLAGS_MASK), s)
        else if cmd = 4 then do {
          let f = f\<lparr>fd_flags := fd_flags f AND NOT ALT_FCNTL_FLAGS_MASK\<rparr>;
          let f = f\<lparr>fd_flags := fd_flags f OR (flags AND ALT_FCNTL_FLAGS_MASK)\<rparr>;
          s \<leftarrow> put_descr (nat file) f s;
          Some (0, s)
        } else Some (- 1, s\<lparr>errno := EINVAL_dev\<rparr>)
      })"

definition alt_open_fd ::
  "(string \<Rightarrow> nat \<Rightarrow> char) \<Rightarrow> ('e, 'm) file_state_scheme drivers \<Rightarrow> nat \<Rightarrow> string \<Rightarrow> u32 \<Rightarrow> u32
    \<Rightarrow> ('e, 'm) file_state_scheme \<Rightarrow> ('e, 'm) file_state_scheme option" where
  "alt_open_fd beyond drv fd name flags mode s = do {
     (old, s) \<leftarrow> alt_open beyond drv name flags mode s;
     if 0 \<le> old then do {
       o_fd \<leftarrow> get_descr (nat old) s;
       f \<leftarrow> get_descr fd s;
       s \<leftarrow> put_descr fd (f\<lparr>fd_dev := fd_dev o_fd, fd_priv := fd_priv o_fd, fd_flags := fd_flags o_fd\<rparr>) s;
       alt_release_fd old s
     } else Some s
   }"

text \<open>The mode is \<open>0777\<close>.\<close>

definition alt_io_redirect ::
  "(string \<Rightarrow> nat \<Rightarrow> char) \<Rightarrow> ('e, 'm) file_state_scheme drivers \<Rightarrow> string \<Rightarrow> string \<Rightarrow> string
    \<Rightarrow> ('e, 'm) file_state_scheme \<Rightarrow> ('e, 'm) file_state_scheme option" where
  "alt_io_redirect beyond drv stdout_dev stdin_dev stderr_dev s = do {
     s \<leftarrow> alt_open_fd beyond drv 1 stdout_dev O_WRONLY 511 s;
     s \<leftarrow> alt_open_fd beyond drv 0 stdin_dev O_RDONLY 511 s;
     alt_open_fd beyond drv 2 stderr_dev O_WRONLY 511 s
   }"

text \<open>\<open>open (file, 0)\<close> leaves the mode to whatever the variadic call finds.\<close>

definition alt_stat ::
  "(string \<Rightarrow> nat \<Rightarrow> char) \<Rightarrow> ('e, 'm) file_state_scheme drivers \<Rightarrow> u32 \<Rightarrow> string \<Rightarrow> u32
    \<Rightarrow> ('e, 'm) file_state_scheme \<Rightarrow> (int \<times> u32 \<times> ('e, 'm) file_state_scheme) option" where
  "alt_stat beyond drv junk_mode file st s = do {
     (fd, s) \<leftarrow> alt_open beyond drv file 0 junk_mode s;
     (rc, st, s) \<leftarrow> alt_fstat drv fd st s;
     (_, s) \<leftarrow> alt_close drv fd s;
     Some (rc, st, s)
   }"

section \<open>System calls with direct drivers\<close>

text \<open>
  The drivers of the standard devices are called by name; each is present or not.  The state
  is any record with \<open>errno\<close>.
\<close>

definition alt_open_direct :: "'m dev_state_scheme \<Rightarrow> int \<times> 'm dev_state_scheme" where
  "alt_open_direct s = (- 1, s\<lparr>errno := ENOSYS_fd\<rparr>)"

definition alt_close_direct :: "'m dev_state_scheme \<Rightarrow> int \<times> 'm dev_state_scheme" where
  "alt_close_direct s = (- 1, s\<lparr>errno := ENOSYS_fd\<rparr>)"

definition alt_lseek_direct :: "'m dev_state_scheme \<Rightarrow> int \<times> 'm dev_state_scheme" where
  "alt_lseek_direct s = (- 1, s\<lparr>errno := ENOSYS_fd\<rparr>)"

definition alt_read_direct ::
  "(addr \<Rightarrow> u32 \<Rightarrow> u32 \<Rightarrow> 'm dev_state_scheme \<Rightarrow> int \<times> 'm dev_state_scheme) option
    \<Rightarrow> int \<Rightarrow> addr \<Rightarrow> u32 \<Rightarrow> 'm dev_state_scheme \<Rightarrow> int \<times> 'm dev_state_scheme" where
  "alt_read_direct stdin_read file ptr len s =
     (case stdin_read of
        Some rd_fn \<Rightarrow> if file = 0 then rd_fn ptr len 0 s else (- 1, s\<lparr>errno := EBADFD\<rparr>)
      | None \<Rightarrow> (- 1, s\<lparr>errno := EBADFD\<rparr>))"

definition alt_write_direct ::
  "(addr \<Rightarrow> u32 \<Rightarrow> u32 \<Rightarrow> 'm dev_state_scheme \<Rightarrow> int \<times> 'm dev_state_scheme) option
    \<Rightarrow> (addr \<Rightarrow> u32 \<Rightarrow> u32 \<Rightarrow> 'm dev_state_scheme \<Rightarrow> int \<times> 'm dev_state_scheme) option
    \<Rightarrow> int \<Rightarrow> addr \<Rightarrow> u32 \<Rightarrow> 'm dev_state_scheme \<Rightarrow> int \<times> 'm dev_state_scheme" where
  "alt_write_direct stdout_write stderr_write file ptr len s =
     (case (if file = 1 then stdout_write else if file = 2 then stderr_write else None) of
        Some wr_fn \<Rightarrow> wr_fn ptr len 0 s
      | None \<Rightarrow> (- 1, s\<lparr>errno := EBADFD\<rparr>))"

definition alt_ioctl_direct ::
  "(int \<Rightarrow> (u32 \<Rightarrow> u32 \<Rightarrow> 'm dev_state_scheme \<Rightarrow> int \<times> 'm dev_state_scheme) option)
    \<Rightarrow> int \<Rightarrow> u32 \<Rightarrow> u32 \<Rightarrow> 'm dev_state_scheme \<Rightarrow> int \<times> 'm dev_state_scheme" where
  "alt_ioctl_direct driver_of file req arg s =
     (case (if file \<in> {0, 1, 2} then driver_of file else None) of
        Some io_fn \<Rightarrow> io_fn req arg s
      | None \<Rightarrow> (- 1, s\<lparr>errno := EBADFD\<rparr>))"

definition alt_fstat_direct :: "(int \<Rightarrow> bool) \<Rightarrow> int \<Rightarrow> u32 \<Rightarrow> int \<times> u32" where
  "alt_fstat_direct present file st =
     (if file \<in> {0, 1, 2} \<and> present file then (0, IFCHR) else (- 1, st))"

definition alt_isatty_direct :: "(int \<Rightarrow> bool) \<Rightarrow> int \<Rightarrow> int" where
  "alt_isatty_direct present file = (if file \<in> {0, 1, 2} \<and> present file then 1 else 0)"

section \<open>What the loops over the table compute\<close>

definition free_slot :: "alt_fd list \<Rightarrow> nat \<Rightarrow> bool" where
  "free_slot l i \<longleftrightarrow> fd_dev (l ! i) = NULL"

definition claim :: "nat \<Rightarrow> addr \<Rightarrow> ('e, 'm) file_state_scheme \<Rightarrow> ('e, 'm) file_state_scheme" where
  "claim j dev s = s\<lparr>alt_fd_list := (alt_fd_list s)[j := (alt_fd_list s ! j)\<lparr>fd_dev := dev\<rparr>],
     alt_max_fd := max (alt_max_fd s) (int j)\<rparr>"

lemma get_fd_loop_eq:
  assumes "length (alt_fd_list s) = ALT_MAX_FD" "i \<le> ALT_MAX_FD"
  shows "get_fd_loop i dev s =
    (case List.find (free_slot (alt_fd_list s)) [i..<ALT_MAX_FD] of
       None \<Rightarrow> Some (- EMFILE, s) | Some j \<Rightarrow> Some (int j, claim j dev s))"
  using assms(2)
proof (induction "ALT_MAX_FD - i" arbitrary: i)
  case 0
  then show ?case by (subst get_fd_loop.simps) simp
next
  case (Suc d)
  then have i: "i < ALT_MAX_FD" by simp
  then have "[i..<ALT_MAX_FD] = i # [i + 1..<ALT_MAX_FD]" by (simp add: upt_conv_Cons)
  then show ?case using Suc.hyps(1) [of "i + 1"] Suc.hyps(2) i assms(1)
    by (subst get_fd_loop.simps)
       (simp add: get_descr_def put_descr_def rd_in wr_in free_slot_def claim_def max_def)
qed

definition excluded :: "alt_fd list \<Rightarrow> nat \<Rightarrow> nat \<Rightarrow> bool" where
  "excluded l fd k \<longleftrightarrow> fd_dev (l ! k) = fd_dev (l ! fd) \<and> fd_flags (l ! k) AND ALT_FD_EXCL \<noteq> 0 \<and> k \<noteq> fd"

lemma file_locked_loop_eq:
  assumes "length (alt_fd_list s) = ALT_MAX_FD" "fd < ALT_MAX_FD" "0 \<le> alt_max_fd s" "alt_max_fd s < int ALT_MAX_FD"
  shows "file_locked_loop i fd s
    = Some (\<exists>k. i \<le> k \<and> int k \<le> alt_max_fd s \<and> excluded (alt_fd_list s) fd k)"
proof (induction "ALT_MAX_FD - i" arbitrary: i rule: less_induct)
  case less
  have m: "unat (word_of_int (alt_max_fd s) :: u32) = nat (alt_max_fd s)"
    using assms(3,4) by (simp add: unsigned_of_int take_bit_int_eq_self)
  show ?case
  proof (cases "i \<le> nat (alt_max_fd s)")
    case False
    then show ?thesis using m by (subst file_locked_loop.simps) auto
  next
    case True
    then have i: "i < ALT_MAX_FD" using assms(3,4) by auto
    have IH: "file_locked_loop (i + 1) fd s
      = Some (\<exists>k. i + 1 \<le> k \<and> int k \<le> alt_max_fd s \<and> excluded (alt_fd_list s) fd k)"
      by (rule less) (use i in simp)
    have "file_locked_loop i fd s = (if excluded (alt_fd_list s) fd i then Some True else file_locked_loop (i + 1) fd s)"
      using True m i assms(1,2)
      by (subst file_locked_loop.simps) (simp add: get_descr_def rd_in excluded_def)
    moreover have "int i \<le> alt_max_fd s" using True assms(3) by simp
    ultimately show ?thesis using IH
      by (subst ex_ge_step [where Q = "\<lambda>k. int k \<le> alt_max_fd s \<and> excluded (alt_fd_list s) fd k"]) simp
  qed
qed

lemma fd_lock_loop_eq:
  assumes "length (alt_fd_list s) = ALT_MAX_FD" "fd < ALT_MAX_FD" "alt_max_fd s < int ALT_MAX_FD"
  shows "fd_lock_loop i fd s
    = Some (\<exists>k. i \<le> k \<and> int k < alt_max_fd s \<and> k \<noteq> fd \<and> fd_dev (alt_fd_list s ! k) = fd_dev (alt_fd_list s ! fd))"
proof (induction "ALT_MAX_FD - i" arbitrary: i rule: less_induct)
  case less
  let ?Q = "\<lambda>k. k \<noteq> fd \<and> fd_dev (alt_fd_list s ! k) = fd_dev (alt_fd_list s ! fd)"
  show ?case
  proof (cases "int i < alt_max_fd s")
    case False
    then show ?thesis by (subst fd_lock_loop.simps) auto
  next
    case True
    then have i: "i < ALT_MAX_FD" using assms(3) by simp
    have IH: "fd_lock_loop (i + 1) fd s = Some (\<exists>k. i + 1 \<le> k \<and> int k < alt_max_fd s \<and> ?Q k)"
      by (rule less) (use i in simp)
    have "fd_lock_loop i fd s = (if ?Q i then Some True else fd_lock_loop (i + 1) fd s)"
      using True i assms(1,2) by (subst fd_lock_loop.simps) (simp add: get_descr_def rd_in)
    then show ?thesis using IH True
      by (subst ex_ge_step [where Q = "\<lambda>k. int k < alt_max_fd s \<and> ?Q k"]) simp
  qed
qed

section \<open>Opening a device\<close>

text \<open>\<open>alt_find_dev\<close> only reads the device lists, which the table operations leave alone.\<close>

lemma find_dev_frame:
  "dev_links s' = dev_links s \<Longrightarrow> devs s' = devs s \<Longrightarrow> alt_find_dev beyond name l s' = alt_find_dev beyond name l s"
proof -
  assume l: "dev_links s' = dev_links s" and d: "devs s' = devs s"
  have "same_name beyond name s' = same_name beyond name s"
    by (rule ext) (simp add: same_name_def d)
  then show ?thesis by (simp add: alt_find_dev_def l)
qed

definition opened :: "nat \<Rightarrow> addr \<Rightarrow> u32 \<Rightarrow> ('e, 'm) file_state_scheme \<Rightarrow> ('e, 'm) file_state_scheme" where
  "opened j dev flags s = s\<lparr>alt_max_fd := max (alt_max_fd s) (int j),
     alt_fd_list := (alt_fd_list s)[j := (alt_fd_list s ! j)
       \<lparr>fd_dev := dev, fd_flags := (flags AND NOT ALT_FD_FLAGS_MASK) OR ALT_FD_DEV\<rparr>]\<rparr>"

text \<open>A well-formed table: nothing is in use above \<open>alt_max_fd\<close> but the standard descriptors.\<close>

definition wf_table :: "('e, 'm) file_state_scheme \<Rightarrow> bool" where
  "wf_table s \<longleftrightarrow> length (alt_fd_list s) = ALT_MAX_FD \<and> - 1 \<le> alt_max_fd s \<and> alt_max_fd s < int ALT_MAX_FD"

lemma find_free:
  assumes "List.find P [0..<n] = Some j"
  shows "j < n \<and> P j \<and> (\<forall>k < j. \<not> P k)"
  using assms by (auto simp: find_Some_iff)

lemma open_device:
  assumes "wf_table s" "alt_find_dev beyond file (alt_dev_list s) s = Some dev" "dev \<noteq> NULL" "devs s dev = Some d"
    and slot: "List.find (free_slot (alt_fd_list s)) [0..<ALT_MAX_FD] = Some j"
  defines "locked \<equiv> \<exists>k. int k \<le> max (alt_max_fd s) (int j) \<and> fd_dev (alt_fd_list s ! k) = dev
      \<and> fd_flags (alt_fd_list s ! k) AND ALT_FD_EXCL \<noteq> 0 \<and> k \<noteq> j"
  shows "alt_open beyond drv file flags mode s =
    (let (status, s') = (if locked then (- EACCES, opened j dev flags s)
                         else if d_open d \<noteq> 0 then call_open drv (d_open d) j file flags mode (opened j dev flags s)
                         else (0, opened j dev flags s))
     in if status < 0 then do { s' \<leftarrow> alt_release_fd (int j) s'; Some (- 1, s'\<lparr>errno := - status\<rparr>) }
        else Some (int j, s'))"
proof -
  let ?o = "opened j dev flags s"
  have l: "length (alt_fd_list s) = 4" and m: "alt_max_fd s < 4" using assms(1) by (simp_all add: wf_table_def)
  have j: "j < 4" using find_free [OF slot] by simp
  have get: "alt_get_fd dev s = Some (int j, claim j dev s)"
    using get_fd_loop_eq [of s 0 dev] l slot by (simp add: alt_get_fd_def)
  let ?t = "s\<lparr>alt_max_fd := max (alt_max_fd s) (int j), alt_fd_list := (alt_fd_list s)[j := (alt_fd_list s ! j)
       \<lparr>fd_dev := dev, fd_flags := flags AND NOT ALT_FD_FLAGS_MASK\<rparr>]\<rparr>"
  have lock: "alt_file_locked j ?t = Some (if locked then - EACCES else 0, ?o)"
  proof -
    have "file_locked_loop 0 j ?o = Some locked"
    proof -
      have "(\<exists>k. 0 \<le> k \<and> int k \<le> alt_max_fd ?o \<and> excluded (alt_fd_list ?o) j k) = locked"
        unfolding locked_def using j l by (intro ex_cong1) (auto simp: excluded_def opened_def)
      then show ?thesis using file_locked_loop_eq [of ?o j 0] j l m by (simp add: opened_def)
    qed
    then show ?thesis using j l
      by (simp add: alt_file_locked_def put_descr_def get_descr_def rd_in wr_in claim_def opened_def)
  qed
  have g: "get_descr j (claim j dev s) = Some ((alt_fd_list s ! j)\<lparr>fd_dev := dev\<rparr>)"
    using j l by (simp add: get_descr_def rd_in claim_def)
  have put: "put_descr j ((alt_fd_list s ! j)\<lparr>fd_dev := dev, fd_flags := flags AND NOT ALT_FD_FLAGS_MASK\<rparr>)
      (claim j dev s) = Some ?t"
    using j l by (simp add: put_descr_def wr_in claim_def)
  have d: "devs ?o dev = Some d" using assms(4) by (simp add: opened_def)
  show ?thesis
    unfolding alt_open_def assms(2) bind.bind_lunit
    using assms(3) get g put [simplified] lock [simplified] d
    by (simp add: Let_def case_prod_beta)
qed

lemma release_slot:
  assumes "length (alt_fd_list s) = ALT_MAX_FD" "j < ALT_MAX_FD"
  shows "\<exists>s'. alt_release_fd (int j) s = Some s' \<and> (\<forall>k. k \<noteq> j \<longrightarrow> alt_fd_list s' ! k = alt_fd_list s ! k)
    \<and> io_env s' = io_env s \<and> length (alt_fd_list s') = ALT_MAX_FD"
  using assms by (auto simp: alt_release_fd_def get_descr_def put_descr_def rd_in wr_in)

section \<open>Properties\<close>

text \<open>
  C22: exclusive access holds against \<open>open\<close>: while a descriptor of a device carries the
  exclusive flag, opening the device by name fails with \<open>EACCES\<close> (or \<open>EMFILE\<close> when the
  table is full), the driver is not called and every descriptor in use is unchanged.
\<close>

theorem open_respects_exclusive:
  fixes s :: "('e, 'm) file_state_scheme"
  assumes "wf_table s" and "alt_find_dev beyond file (alt_dev_list s) s = Some dev" and "dev \<noteq> NULL"
    and "devs s dev = Some d" and "int k \<le> alt_max_fd s" and "fd_dev (alt_fd_list s ! k) = dev"
    and "fd_flags (alt_fd_list s ! k) AND ALT_FD_EXCL \<noteq> 0"
  shows "\<exists>s'. alt_open beyond drv file flags mode s = Some (- 1, s') \<and> errno s' \<in> {EACCES, EMFILE}
    \<and> io_env s' = io_env s
    \<and> (\<forall>i < ALT_MAX_FD. fd_dev (alt_fd_list s ! i) \<noteq> NULL \<longrightarrow> alt_fd_list s' ! i = alt_fd_list s ! i)"
proof (cases "List.find (free_slot (alt_fd_list s)) [0..<ALT_MAX_FD]")
  case None
  have l: "length (alt_fd_list s) = 4" using assms(1) by (simp add: wf_table_def)
  have "alt_get_fd dev s = Some (- EMFILE, s)"
    using get_fd_loop_eq [of s 0 dev] l None by (simp add: alt_get_fd_def)
  then have "alt_open beyond drv file flags mode s = Some (- 1, s\<lparr>errno := EMFILE\<rparr>)"
    using assms(2,3) by (simp add: alt_open_def alt_release_fd_def)
  then show ?thesis by simp
next
  case (Some j)
  have l: "length (alt_fd_list s) = 4" using assms(1) by (simp add: wf_table_def)
  have j: "j < 4" "fd_dev (alt_fd_list s ! j) = NULL" using find_free [OF Some] by (simp_all add: free_slot_def)
  then have "\<exists>k. int k \<le> max (alt_max_fd s) (int j) \<and> fd_dev (alt_fd_list s ! k) = dev
      \<and> fd_flags (alt_fd_list s ! k) AND ALT_FD_EXCL \<noteq> 0 \<and> k \<noteq> j"
    using assms(3,5-7) by (intro exI [of _ k]) auto
  note run = open_device [OF assms(1-4) Some, of drv flags mode, unfolded if_P [OF this] Let_def prod.case]
  obtain s' where s': "alt_release_fd (int j) (opened j dev flags s) = Some s'"
    "\<forall>k. k \<noteq> j \<longrightarrow> alt_fd_list s' ! k = alt_fd_list (opened j dev flags s) ! k" "io_env s' = io_env (opened j dev flags s)"
    using release_slot [of "opened j dev flags s" j] j l by (auto simp: opened_def)
  then have "alt_open beyond drv file flags mode s = Some (- 1, s'\<lparr>errno := EACCES\<rparr>)"
    using run by simp
  then show ?thesis using s' j by (intro exI [of _ "s'\<lparr>errno := EACCES\<rparr>"]) (auto simp: opened_def)
qed

text \<open>
  A table on the devices of \<open>register_then_find\<close>: descriptor 0 holds the UART exclusively,
  1 and 2 are on \<open>/dev/null\<close>, 3 is free.
\<close>

definition demo_files :: "unit file_state" where
  "demo_files = \<lparr>dev_links = the (alt_llist_insert 8 16 (the (alt_llist_insert 8 12
       (llist_entry 16 (llist_entry 12 (llist_head 4 (llist_head 8 (\<lambda>_. None)))))))),
     devs = [12 \<mapsto> demo_device ''/dev/null'', 16 \<mapsto> demo_device ''/dev/uart''],
     alt_dev_list = 8, alt_fs_list = 4, errno = 0,
     alt_fd_list = [\<lparr>fd_dev = 16, fd_priv = 0, fd_flags = 0x80000000\<rparr>, \<lparr>fd_dev = 12, fd_priv = 0, fd_flags = 1\<rparr>,
       \<lparr>fd_dev = 12, fd_priv = 0, fd_flags = 1\<rparr>, \<lparr>fd_dev = NULL, fd_priv = 0, fd_flags = 0\<rparr>],
     alt_max_fd = 2, io_env = ()\<rparr>"

definition demo_drivers :: "unit file_state drivers" where
  "demo_drivers = \<lparr>call_open = (\<lambda>f i n fl m s. (0, s)), call_close = (\<lambda>f i s. (0, s)), call_read = (\<lambda>f i p n s. (0, s)),
     call_write = (\<lambda>f i p n s. (sint n, s)), call_lseek = (\<lambda>f i p d s. (0, s)),
     call_fstat = (\<lambda>f i st s. (0, st, s)), call_ioctl = (\<lambda>f i r a s. (0, s))\<rparr>"

lemma demo_files_find:
  "alt_find_dev beyond ''/dev/uart'' 8 demo_files = Some 16"
  "alt_find_dev beyond ''/dev/null'' 8 demo_files = Some 12"
proof -
  have r: "ring (dev_links demo_files) 8 [16, 12]"
    by (simp add: demo_files_def ring_def edge_def llist_head_def llist_entry_def alt_llist_insert_def
      set_next_def set_previous_def next_of_def previous_of_def)
  have n: "named demo_files [16, 12]" by (simp add: demo_files_def named_def demo_device_def)
  have "name_of demo_files 16 = ''/dev/uart''" "name_of demo_files 12 = ''/dev/null''"
    by (simp_all add: name_of_def demo_files_def demo_device_def)
  then show "alt_find_dev beyond ''/dev/uart'' 8 demo_files = Some 16"
    "alt_find_dev beyond ''/dev/null'' 8 demo_files = Some 12"
    using find_dev_ok [OF r n] by simp_all
qed

theorem open_respects_exclusive_witness:
  "\<exists>s'. alt_open (\<lambda>_ _. CHR ''x'') demo_drivers ''/dev/uart'' 2 0 demo_files = Some (- 1, s')"
  using open_respects_exclusive [of demo_files "\<lambda>_ _. CHR ''x''" "''/dev/uart''" 16 "demo_device ''/dev/uart''" 0 demo_drivers 2 0]
    demo_files_find(1) [of "\<lambda>_ _. CHR ''x''"]
  by (auto simp: demo_files_def wf_table_def)

text \<open>
  what taking exclusive access checks.  \<open>alt_fd_lock\<close> succeeds exactly when no other
  descriptor below \<open>alt_max_fd\<close> is open on the same device, and then sets the flag and
  nothing else.  The descriptor \<open>alt_max_fd\<close> itself, the last one opened, is not looked at,
  so two descriptors of a device can be open and one of them be exclusive.
\<close>

theorem fd_lock_outcomes:
  fixes s :: "('e, 'm) file_state_scheme"
  assumes "wf_table s" and "fd < ALT_MAX_FD"
  shows "alt_fd_lock fd s =
    (if \<exists>k. int k < alt_max_fd s \<and> k \<noteq> fd \<and> fd_dev (alt_fd_list s ! k) = fd_dev (alt_fd_list s ! fd)
     then Some (- EACCES, s)
     else Some (0, s\<lparr>alt_fd_list := (alt_fd_list s)[fd := (alt_fd_list s ! fd)
            \<lparr>fd_flags := fd_flags (alt_fd_list s ! fd) OR ALT_FD_EXCL\<rparr>]\<rparr>))"
  using fd_lock_loop_eq [of s fd 0] assms
  by (simp add: alt_fd_lock_def wf_table_def get_descr_def put_descr_def rd_in wr_in)

theorem fd_lock_outcomes_witness:
  "(let s = demo_files\<lparr>alt_fd_list := [\<lparr>fd_dev = 16, fd_priv = 0, fd_flags = 0\<rparr>, \<lparr>fd_dev = 12, fd_priv = 0, fd_flags = 1\<rparr>,
       \<lparr>fd_dev = 12, fd_priv = 0, fd_flags = 1\<rparr>, \<lparr>fd_dev = 16, fd_priv = 0, fd_flags = 0\<rparr>], alt_max_fd := 3\<rparr>
    in map_option fst (alt_fd_lock 0 s) = Some 0 \<and> map_option fst (alt_fd_lock 3 s) = Some (- EACCES)
       \<and> map_option fst (alt_fd_lock 1 s) = Some (- EACCES))"
proof -
  let ?s = "demo_files\<lparr>alt_fd_list := [\<lparr>fd_dev = 16, fd_priv = 0, fd_flags = 0\<rparr>, \<lparr>fd_dev = 12, fd_priv = 0, fd_flags = 1\<rparr>,
       \<lparr>fd_dev = 12, fd_priv = 0, fd_flags = 1\<rparr>, \<lparr>fd_dev = 16, fd_priv = 0, fd_flags = 0\<rparr>], alt_max_fd := 3\<rparr>"
  have w: "wf_table ?s" by (simp add: wf_table_def)
  show ?thesis
    using fd_lock_outcomes [OF w, of 0] fd_lock_outcomes [OF w, of 3] fd_lock_outcomes [OF w, of 1]
    by (simp add: Let_def ex_less_3)
qed

text \<open>The standard descriptors are in use, the last one is free, nobody is exclusive.\<close>

definition streams_ready :: "('e, 'm) file_state_scheme \<Rightarrow> bool" where
  "streams_ready s \<longleftrightarrow> wf_table s \<and> alt_max_fd s \<le> 3 \<and> (\<forall>k < 3. fd_dev (alt_fd_list s ! k) \<noteq> NULL)
     \<and> fd_dev (alt_fd_list s ! 3) = NULL \<and> (\<forall>k < ALT_MAX_FD. fd_flags (alt_fd_list s ! k) AND ALT_FD_EXCL = 0)"

definition redirected :: "nat \<Rightarrow> addr \<Rightarrow> u32 \<Rightarrow> ('e, 'm) file_state_scheme \<Rightarrow> ('e, 'm) file_state_scheme" where
  "redirected fd dev flags s = s\<lparr>alt_max_fd := 3,
      alt_fd_list := (alt_fd_list s)[3 := (alt_fd_list s ! 3)\<lparr>fd_flags := 0, fd_dev := NULL\<rparr>,
        fd := (alt_fd_list s ! fd)\<lparr>fd_dev := dev, fd_priv := fd_priv (alt_fd_list s ! 3), fd_flags := flags OR ALT_FD_DEV\<rparr>]\<rparr>"

lemma redirect_one:
  fixes s :: "('e, 'm) file_state_scheme"
  assumes "streams_ready s" "alt_find_dev beyond name (alt_dev_list s) s = Some dev" "dev \<noteq> NULL"
    and "devs s dev = Some d" "d_open d = 0" "fd < 3" "flags \<in> {O_RDONLY, O_WRONLY}"
  shows "alt_open_fd beyond drv fd name flags mode s = Some (redirected fd dev flags s)"
    and "streams_ready (redirected fd dev flags s)"
proof -
  have w: "wf_table s" "length (alt_fd_list s) = 4" "alt_max_fd s \<le> 3"
    using assms(1) by (simp_all add: streams_ready_def wf_table_def)
  have "[0..<ALT_MAX_FD] = [0, 1, 2, 3]" by (simp add: upt_conv_Cons)
  then have slot: "List.find (free_slot (alt_fd_list s)) [0..<ALT_MAX_FD] = Some 3"
    using assms(1) by (simp add: free_slot_def streams_ready_def)
  have "\<not> (\<exists>k. int k \<le> max (alt_max_fd s) (int 3) \<and> fd_dev (alt_fd_list s ! k) = dev
      \<and> fd_flags (alt_fd_list s ! k) AND ALT_FD_EXCL \<noteq> 0 \<and> k \<noteq> 3)"
    using assms(1) w(3) by (auto simp: streams_ready_def)
  note run = open_device [OF w(1) assms(2-4) slot, of drv flags mode, unfolded if_not_P [OF this]]
  have "alt_open beyond drv name flags mode s = Some (3, opened 3 dev flags s)"
    using run assms(5) by simp
  moreover have "flags AND NOT ALT_FD_FLAGS_MASK = flags" using assms(7) by auto
  moreover have "fd \<noteq> 3" "fd < 4" using assms(6) by auto
  ultimately show "alt_open_fd beyond drv fd name flags mode s = Some (redirected fd dev flags s)"
    using w by (simp add: alt_open_fd_def opened_def get_descr_def put_descr_def alt_release_fd_def
        rd_in wr_in list_update_swap redirected_def)
  show "streams_ready (redirected fd dev flags s)"
    using assms(1,3,6,7) by (auto simp: streams_ready_def wf_table_def redirected_def nth_list_update)
qed

lemma io_redirect_ok:
  fixes s :: "('e, 'm) file_state_scheme"
  assumes "streams_ready s"
    and "alt_find_dev beyond out_name (alt_dev_list s) s = Some out_dev" and "out_dev \<noteq> NULL"
    and "devs s out_dev = Some d1" and "d_open d1 = 0"
    and "alt_find_dev beyond in_name (alt_dev_list s) s = Some in_dev" and "in_dev \<noteq> NULL"
    and "devs s in_dev = Some d0" and "d_open d0 = 0"
    and "alt_find_dev beyond err_name (alt_dev_list s) s = Some err_dev" and "err_dev \<noteq> NULL"
    and "devs s err_dev = Some d2" and "d_open d2 = 0"
  shows "\<exists>s'. alt_io_redirect beyond drv out_name in_name err_name s = Some s' \<and> io_env s' = io_env s \<and> devs s' = devs s
    \<and> map (\<lambda>f. (fd_dev f, fd_flags f)) (alt_fd_list s')
      = [(in_dev, O_RDONLY OR ALT_FD_DEV), (out_dev, O_WRONLY OR ALT_FD_DEV), (err_dev, O_WRONLY OR ALT_FD_DEV), (NULL, 0)]"
proof -
  let ?s1 = "redirected 1 out_dev O_WRONLY s"
  let ?s2 = "redirected 0 in_dev O_RDONLY ?s1"
  let ?s3 = "redirected 2 err_dev O_WRONLY ?s2"
  have frame: "dev_links (redirected fd dev fl t) = dev_links t" "devs (redirected fd dev fl t) = devs t"
    "alt_dev_list (redirected fd dev fl t) = alt_dev_list t" "io_env (redirected fd dev fl t) = io_env t"
    for fd dev fl and t :: "('e, 'm) file_state_scheme" by (simp_all add: redirected_def)
  note find = find_dev_frame [OF frame(1,2)]
  have s1: "streams_ready ?s1" "alt_open_fd beyond drv 1 out_name O_WRONLY 511 s = Some ?s1"
    using redirect_one [OF assms(1-5), of 1 O_WRONLY] by simp_all
  have s2: "streams_ready ?s2" "alt_open_fd beyond drv 0 in_name O_RDONLY 511 ?s1 = Some ?s2"
    using redirect_one [OF s1(1), of beyond in_name in_dev d0 0 O_RDONLY] assms(6-9)
    by (simp_all add: find frame)
  have s3: "alt_open_fd beyond drv 2 err_name O_WRONLY 511 ?s2 = Some ?s3"
    using redirect_one(1) [OF s2(1), of beyond err_name err_dev d2 2 O_WRONLY] assms(10-13)
    by (simp add: find frame)
  have run: "alt_io_redirect beyond drv out_name in_name err_name s = Some ?s3"
    using s1(2) s2(2) s3 by (simp add: alt_io_redirect_def)
  have "length (alt_fd_list s) = 4" using assms(1) by (simp add: streams_ready_def wf_table_def)
  then obtain a b c d where l: "alt_fd_list s = [a, b, c, d]"
    by (auto simp: numeral_eq_Suc length_Suc_conv)
  show ?thesis using run by (intro exI [of _ ?s3]) (simp add: frame, simp add: redirected_def l)
qed

text \<open>
  \<open>alt_io_redirect\<close> puts the three named devices on descriptors 1, 0 and 2 with the
  directions of the standard streams, whatever they were on before, and leaks no descriptor:
  the one used for opening is free again at the end.
\<close>

theorem io_redirect_sets_streams:
  fixes s :: "('e, 'm) file_state_scheme"
  assumes "streams_ready s"
    and "alt_find_dev beyond out_name (alt_dev_list s) s = Some out_dev" and "out_dev \<noteq> NULL"
    and "devs s out_dev = Some d1" and "d_open d1 = 0"
    and "alt_find_dev beyond in_name (alt_dev_list s) s = Some in_dev" and "in_dev \<noteq> NULL"
    and "devs s in_dev = Some d0" and "d_open d0 = 0"
    and "alt_find_dev beyond err_name (alt_dev_list s) s = Some err_dev" and "err_dev \<noteq> NULL"
    and "devs s err_dev = Some d2" and "d_open d2 = 0"
  shows "\<exists>s'. alt_io_redirect beyond drv out_name in_name err_name s = Some s' \<and> io_env s' = io_env s
    \<and> map (\<lambda>f. (fd_dev f, fd_flags f)) (alt_fd_list s')
      = [(in_dev, O_RDONLY OR ALT_FD_DEV), (out_dev, O_WRONLY OR ALT_FD_DEV), (err_dev, O_WRONLY OR ALT_FD_DEV), (NULL, 0)]"
proof -
  obtain s' where "alt_io_redirect beyond drv out_name in_name err_name s = Some s'" "io_env s' = io_env s"
    "map (\<lambda>f. (fd_dev f, fd_flags f)) (alt_fd_list s')
      = [(in_dev, O_RDONLY OR ALT_FD_DEV), (out_dev, O_WRONLY OR ALT_FD_DEV), (err_dev, O_WRONLY OR ALT_FD_DEV), (NULL, 0)]"
    using io_redirect_ok [OF assms, of drv] by (elim exE conjE)
  then show ?thesis by (intro exI [of _ s'] conjI)
qed

theorem io_redirect_sets_streams_witness:
  "\<exists>s'. alt_io_redirect (\<lambda>_ _. CHR ''x'') demo_drivers ''/dev/uart'' ''/dev/uart'' ''/dev/null''
      (demo_files\<lparr>alt_fd_list := init_fd_list 12, alt_max_fd := - 1\<rparr>) = Some s'
    \<and> io_env s' = io_env (demo_files\<lparr>alt_fd_list := init_fd_list 12, alt_max_fd := - 1\<rparr>)
    \<and> map (\<lambda>f. (fd_dev f, fd_flags f)) (alt_fd_list s')
      = [(16, O_RDONLY OR ALT_FD_DEV), (16, O_WRONLY OR ALT_FD_DEV), (12, O_WRONLY OR ALT_FD_DEV), (NULL, 0)]"
proof -
  let ?s = "demo_files\<lparr>alt_fd_list := init_fd_list 12, alt_max_fd := - 1\<rparr>" and ?b = "\<lambda>_ _. CHR ''x''"
  have ready: "streams_ready ?s"
    by (simp add: streams_ready_def wf_table_def init_fd_list_def all_less_3 all_less_4 nth_append)
  have l: "alt_dev_list ?s = 8" by (simp add: demo_files_def)
  have "alt_find_dev ?b n 8 ?s = alt_find_dev ?b n 8 demo_files" for n
    by (rule find_dev_frame) simp_all
  then have f: "alt_find_dev ?b ''/dev/uart'' (alt_dev_list ?s) ?s = Some 16"
    "alt_find_dev ?b ''/dev/null'' (alt_dev_list ?s) ?s = Some 12"
    unfolding l using demo_files_find by simp_all
  have d: "devs ?s 16 = Some (demo_device ''/dev/uart'')" "devs ?s 12 = Some (demo_device ''/dev/null'')"
    "d_open (demo_device n) = 0" "(16 :: addr) \<noteq> 0" "(12 :: addr) \<noteq> 0" for n
    by (simp_all add: demo_files_def demo_device_def)
  show ?thesis
    by (rule io_redirect_sets_streams [OF ready f(1) d(4,1,3) f(1) d(4,1,3) f(2) d(5,2,3)])
qed

end
