(* ===== verification/Uart.thy ===== *)
theory Uart
  imports Alarm Fifo
begin

text \<open>
  The JTAG UART driver: \<open>drivers/src/altera_avalon_jtag_uart_init.c\<close> (initialisation, interrupt
  handler, timeout, close), \<open>_read.c\<close>, \<open>_write.c\<close>, \<open>_ioctl.c\<close> and \<open>_fd.c\<close>, in the interrupt
  driven variant with two ring buffers and in the polled variant
  (\<open>ALTERA_AVALON_JTAG_UART_SMALL\<close>) that this project is built with.

  The device's registers are the parameter \<open>hw\<close>: reading or writing one is a function on
  the hardware's state.  A busy wait for an interrupt repeats the parameter \<open>idle\<close>, what
  interrupts do to the state between two evaluations of the loop's condition.  Semaphores
  and event flags are empty in the single-threaded HAL.  A character written to the data
  register is the byte the device takes from it.
\<close>

section \<open>State\<close>

abbreviation (input) BUF_LEN :: u32 where "BUF_LEN \<equiv> 2048"
abbreviation (input) INT_MAX :: u32 where "INT_MAX \<equiv> 0x7FFFFFFF"
abbreviation (input) CONTROL_RE :: u32 where "CONTROL_RE \<equiv> 1"
abbreviation (input) CONTROL_WE :: u32 where "CONTROL_WE \<equiv> 2"
abbreviation (input) CONTROL_RI :: u32 where "CONTROL_RI \<equiv> 0x100"
abbreviation (input) CONTROL_WI :: u32 where "CONTROL_WI \<equiv> 0x200"
abbreviation (input) CONTROL_AC :: u32 where "CONTROL_AC \<equiv> 0x400"
abbreviation (input) CONTROL_WSPACE :: u32 where "CONTROL_WSPACE \<equiv> 0xFFFF0000"
abbreviation (input) DATA_RVALID :: u32 where "DATA_RVALID \<equiv> 0x8000"
abbreviation (input) DATA_RAVAIL :: u32 where "DATA_RAVAIL \<equiv> 0xFFFF0000"
abbreviation (input) O_NONBLOCK :: u32 where "O_NONBLOCK \<equiv> 0x4000"
abbreviation (input) EWOULDBLOCK :: int where "EWOULDBLOCK \<equiv> 11"
abbreviation (input) EIO :: int where "EIO \<equiv> 5"
abbreviation (input) ENOTTY_uart :: int where "ENOTTY_uart \<equiv> 25"

record 'h uart_hw =
  hw_data :: "'h \<Rightarrow> u32 \<times> 'h"
  hw_control :: "'h \<Rightarrow> u32 \<times> 'h"
  hw_put_data :: "u8 \<Rightarrow> 'h \<Rightarrow> 'h"
  hw_put_control :: "u32 \<Rightarrow> 'h \<Rightarrow> 'h"

record ('e, 'h) uart_state = "'e alarm_state" +
  u_timeout :: u32
  u_irq_enable :: u32
  u_host_inactive :: u32
  u_rx_in :: u32
  u_rx_out :: u32
  u_tx_in :: u32
  u_tx_out :: u32
  u_rx_buf :: "u8 list"
  u_tx_buf :: "u8 list"
  u_alarm :: addr
  u_hw :: 'h

definition put_control ::
  "'h uart_hw \<Rightarrow> u32 \<Rightarrow> ('e, 'h, 'm) uart_state_scheme \<Rightarrow> ('e, 'h, 'm) uart_state_scheme" where
  "put_control hw v s = s\<lparr>u_hw := hw_put_control hw v (u_hw s)\<rparr>"

definition get_control ::
  "'h uart_hw \<Rightarrow> ('e, 'h, 'm) uart_state_scheme \<Rightarrow> u32 \<times> ('e, 'h, 'm) uart_state_scheme" where
  "get_control hw s = (let (v, h) = hw_control hw (u_hw s) in (v, s\<lparr>u_hw := h\<rparr>))"

section \<open>Initialisation\<close>

text \<open>\<open>sp\<close>, \<open>isr\<close> and \<open>timeout_fn\<close> are the addresses of the state and of the two handlers.\<close>

definition altera_avalon_jtag_uart_init ::
  "'h uart_hw \<Rightarrow> addr \<Rightarrow> u32 \<Rightarrow> u32 \<Rightarrow> u32 \<Rightarrow> u32 \<Rightarrow> ('e, 'h, 'm) uart_state_scheme
    \<Rightarrow> ('e, 'h, 'm) uart_state_scheme option" where
  "altera_avalon_jtag_uart_init hw sp isr timeout_fn irq_controller_id irq s = do {
     let s = s\<lparr>u_irq_enable := CONTROL_RE\<rparr>;
     let s = put_control hw (u_irq_enable s) s;
     (_, s) \<leftarrow> alt_ic_isr_register irq_controller_id irq isr sp s;
     let s = s\<lparr>u_host_inactive := 0\<rparr>;
     (rc, s) \<leftarrow> alt_alarm_start (u_alarm s) (alt_ticks_per_second s) timeout_fn sp s;
     Some (if rc < 0 then s\<lparr>u_timeout := INT_MAX\<rparr> else s)
   }"

section \<open>The interrupt handler\<close>

text \<open>
  The receive loop: \<open>data\<close> is the last value read from the data register.  Out of range
  indices are \<open>None\<close>.
\<close>

partial_function (option) rx_loop ::
  "'h uart_hw \<Rightarrow> u32 \<Rightarrow> ('e, 'h, 'm) uart_state_scheme \<Rightarrow> (u32 \<times> ('e, 'h, 'm) uart_state_scheme) option" where
  "rx_loop hw data s =
     (if (u_rx_in s + 1) mod BUF_LEN = u_rx_out s then Some (data, s)
      else do {
        let (data, h) = hw_data hw (u_hw s);
        let s = s\<lparr>u_hw := h\<rparr>;
        if data AND DATA_RVALID = 0 then Some (data, s)
        else do {
          buf \<leftarrow> wr (u_rx_buf s) (unat (u_rx_in s)) (ucast (data AND 0xFF));
          rx_loop hw data (s\<lparr>u_rx_buf := buf, u_rx_in := (u_rx_in s + 1) mod BUF_LEN\<rparr>)
        }
      })"

text \<open>The transmit loop, with the space left in the device's FIFO.\<close>

partial_function (option) tx_loop ::
  "'h uart_hw \<Rightarrow> u32 \<Rightarrow> ('e, 'h, 'm) uart_state_scheme \<Rightarrow> (u32 \<times> ('e, 'h, 'm) uart_state_scheme) option" where
  "tx_loop hw space s =
     (if 0 < space \<and> u_tx_out s \<noteq> u_tx_in s then do {
        c \<leftarrow> rd (u_tx_buf s) (unat (u_tx_out s));
        let s = s\<lparr>u_hw := hw_put_data hw c (u_hw s)\<rparr>;
        tx_loop hw (space - 1) (s\<lparr>u_tx_out := (u_tx_out s + 1) mod BUF_LEN\<rparr>)
      } else Some (space, s))"

definition isr_receive ::
  "'h uart_hw \<Rightarrow> ('e, 'h, 'm) uart_state_scheme \<Rightarrow> ('e, 'h, 'm) uart_state_scheme option" where
  "isr_receive hw s = do {
     (data, s) \<leftarrow> rx_loop hw 0x10000 s;
     if data AND DATA_RAVAIL \<noteq> 0 then do {
       let s = s\<lparr>u_irq_enable := u_irq_enable s AND NOT CONTROL_RE\<rparr>;
       let s = put_control hw (u_irq_enable s) s;
       Some (snd (get_control hw s))
     } else Some s
   }"

definition isr_transmit ::
  "'h uart_hw \<Rightarrow> u32 \<Rightarrow> ('e, 'h, 'm) uart_state_scheme \<Rightarrow> ('e, 'h, 'm) uart_state_scheme option" where
  "isr_transmit hw control s = do {
     (space, s) \<leftarrow> tx_loop hw (drop_bit 16 (control AND CONTROL_WSPACE)) s;
     if 0 < space then do {
       let s = s\<lparr>u_irq_enable := u_irq_enable s AND NOT CONTROL_WE\<rparr>;
       let s = put_control hw (u_irq_enable s) s;
       Some (snd (get_control hw s))
     } else Some s
   }"

partial_function (option) altera_avalon_jtag_uart_irq ::
  "'h uart_hw \<Rightarrow> ('e, 'h, 'm) uart_state_scheme \<Rightarrow> ('e, 'h, 'm) uart_state_scheme option" where
  "altera_avalon_jtag_uart_irq hw s = do {
     let (control, s) = get_control hw s;
     if control AND (CONTROL_RI OR CONTROL_WI) = 0 then Some s
     else do {
       s \<leftarrow> (if control AND CONTROL_RI \<noteq> 0 then isr_receive hw s else Some s);
       s \<leftarrow> (if control AND CONTROL_WI \<noteq> 0 then isr_transmit hw control s else Some s);
       altera_avalon_jtag_uart_irq hw s
     }
   }"

declare rx_loop.simps [code] tx_loop.simps [code] altera_avalon_jtag_uart_irq.simps [code]

section \<open>Timeout, control and close\<close>

definition altera_avalon_jtag_uart_timeout ::
  "'h uart_hw \<Rightarrow> ('e, 'h, 'm) uart_state_scheme \<Rightarrow> u32 \<times> ('e, 'h, 'm) uart_state_scheme" where
  "altera_avalon_jtag_uart_timeout hw s =
     (let (control, s) = get_control hw s;
          s = (if control AND CONTROL_AC \<noteq> 0 then
                 (let s = put_control hw (u_irq_enable s OR CONTROL_AC) s in s\<lparr>u_host_inactive := 0\<rparr>)
               else if u_host_inactive s < INT_MAX - 2 then s\<lparr>u_host_inactive := u_host_inactive s + 1\<rparr>
               else s)
      in (alt_ticks_per_second s, s))"

text \<open>\<open>TIOCSTIMEOUT\<close> and \<open>TIOCGCONNECTED\<close>; the second result is the \<open>int\<close> behind \<open>arg\<close>.\<close>

definition altera_avalon_jtag_uart_ioctl ::
  "u32 \<Rightarrow> u32 \<Rightarrow> ('e, 'h, 'm) uart_state_scheme \<Rightarrow> int \<times> u32 \<times> ('e, 'h, 'm) uart_state_scheme" where
  "altera_avalon_jtag_uart_ioctl req arg s =
     (if req = 0x6a01 then
        if u_timeout s \<noteq> INT_MAX then
          (0, arg, s\<lparr>u_timeout := (if 2 \<le> sint arg \<and> sint arg < sint INT_MAX then arg else INT_MAX - 1)\<rparr>)
        else (- ENOTTY_uart, arg, s)
      else if req = 0x6a02 then
        if u_timeout s \<noteq> INT_MAX then (0, if u_host_inactive s < u_timeout s then 1 else 0, s)
        else (- ENOTTY_uart, arg, s)
      else (- ENOTTY_uart, arg, s))"

partial_function (option) altera_avalon_jtag_uart_close ::
  "(('e, 'h, 'm) uart_state_scheme \<Rightarrow> ('e, 'h, 'm) uart_state_scheme) \<Rightarrow> u32 \<Rightarrow> ('e, 'h, 'm) uart_state_scheme
    \<Rightarrow> (int \<times> ('e, 'h, 'm) uart_state_scheme) option" where
  "altera_avalon_jtag_uart_close idle flags s =
     (if u_tx_out s \<noteq> u_tx_in s \<and> u_host_inactive s < u_timeout s then
        if flags AND O_NONBLOCK \<noteq> 0 then Some (- EWOULDBLOCK, s)
        else altera_avalon_jtag_uart_close idle flags (idle s)
      else Some (0, s))"

partial_function (option) wait_while ::
  "('s \<Rightarrow> bool) \<Rightarrow> ('s \<Rightarrow> 's) \<Rightarrow> 's \<Rightarrow> 's option" where
  "wait_while cond idle s = (if cond s then wait_while cond idle (idle s) else Some s)"

declare altera_avalon_jtag_uart_close.simps [code] wait_while.simps [code]

section \<open>Reading, interrupt driven\<close>

text \<open>The bytes that can be read without wrapping.\<close>

definition rx_avail :: "u32 \<Rightarrow> u32 \<Rightarrow> u32" where
  "rx_avail inp out = (if out \<le> inp then inp - out else BUF_LEN - out)"

text \<open>\<open>memcpy\<close> out of a buffer; \<open>None\<close> if it reaches behind its end.\<close>

definition copy_from :: "u8 list \<Rightarrow> nat \<Rightarrow> nat \<Rightarrow> u8 list option" where
  "copy_from buf pos n = (if pos + n \<le> length buf then Some (take n (drop pos buf)) else None)"

text \<open>
  The inner loop: the state, the space left and the bytes read so far; it returns the last
  value of \<open>in\<close> too.
\<close>

partial_function (option) read_available ::
  "('e, 'h, 'm) uart_state_scheme \<Rightarrow> u32 \<Rightarrow> u8 list \<Rightarrow> (u32 \<times> ('e, 'h, 'm) uart_state_scheme \<times> u32 \<times> u8 list) option" where
  "read_available s space got = do {
     let inp = u_rx_in s;
     let out = u_rx_out s;
     let n = rx_avail inp out;
     if n = 0 then Some (inp, s, space, got)
     else do {
       let n = (if space < n then space else n);
       bytes \<leftarrow> copy_from (u_rx_buf s) (unat out) (unat n);
       let got = got @ bytes;
       let space = space - n;
       let s = s\<lparr>u_rx_out := (out + n) mod BUF_LEN\<rparr>;
       if 0 < sint space then read_available s space got else Some (inp, s, space, got)
     }
   }"

partial_function (option) read_loop ::
  "(('e, 'h, 'm) uart_state_scheme \<Rightarrow> ('e, 'h, 'm) uart_state_scheme) \<Rightarrow> u32 \<Rightarrow> ('e, 'h, 'm) uart_state_scheme \<Rightarrow> u32
    \<Rightarrow> (('e, 'h, 'm) uart_state_scheme \<times> u8 list) option" where
  "read_loop idle flags s space =
     (if 0 < sint space then do {
        (inp, s, space, got) \<leftarrow> read_available s space [];
        if got \<noteq> [] then Some (s, got)
        else if flags AND O_NONBLOCK \<noteq> 0 then Some (s, got)
        else do {
          s \<leftarrow> wait_while (\<lambda>s. inp = u_rx_in s \<and> u_host_inactive s < u_timeout s) idle s;
          if inp = u_rx_in s then Some (s, got) else read_loop idle flags s space
        }
      } else Some (s, []))"

definition altera_avalon_jtag_uart_read ::
  "'h uart_hw \<Rightarrow> (('e, 'h, 'm) uart_state_scheme \<Rightarrow> ('e, 'h, 'm) uart_state_scheme) \<Rightarrow> u32 \<Rightarrow> u32
    \<Rightarrow> ('e, 'h, 'm) uart_state_scheme \<Rightarrow> (int \<times> u8 list \<times> ('e, 'h, 'm) uart_state_scheme) option" where
  "altera_avalon_jtag_uart_read hw idle space flags s = do {
     (s, got) \<leftarrow> read_loop idle flags s space;
     let s = (if got \<noteq> [] then
                (let (context, s) = alt_irq_disable_all s;
                     s = s\<lparr>u_irq_enable := u_irq_enable s OR CONTROL_RE\<rparr>;
                     s = put_control hw (u_irq_enable s) s
                 in alt_irq_enable_all context s)
              else s);
     Some (if got \<noteq> [] then int (length got)
           else if flags AND O_NONBLOCK \<noteq> 0 then - EWOULDBLOCK else - EIO, got, s)
   }"

section \<open>Writing, interrupt driven\<close>

definition tx_room :: "u32 \<Rightarrow> u32 \<Rightarrow> u32" where
  "tx_room inp out =
     (if inp < out then out - 1 - inp
      else if 0 < out then BUF_LEN - inp
      else BUF_LEN - 1 - inp)"

text \<open>\<open>memcpy\<close> into a buffer.\<close>

definition copy_into :: "u8 list \<Rightarrow> nat \<Rightarrow> u8 list \<Rightarrow> u8 list option" where
  "copy_into buf pos bytes = foldM (\<lambda>k buf. wr buf (pos + k) (bytes ! k)) [0..<length bytes] buf"

text \<open>
  The copy loop: \<open>rest\<close> are the bytes not yet copied.  It returns the last value of \<open>out\<close>.
\<close>

partial_function (option) write_fill ::
  "('e, 'h, 'm) uart_state_scheme \<Rightarrow> u32 \<Rightarrow> u8 list \<Rightarrow> (u32 \<times> ('e, 'h, 'm) uart_state_scheme \<times> u8 list) option" where
  "write_fill s out0 rest =
     (if rest \<noteq> [] then do {
        let inp = u_tx_in s;
        let out = u_tx_out s;
        let n = tx_room inp out;
        if n = 0 then Some (out, s, rest)
        else do {
          let n = (if of_nat (length rest) < n then of_nat (length rest) else n);
          buf \<leftarrow> copy_into (u_tx_buf s) (unat inp) (take (unat n) rest);
          let s = s\<lparr>u_tx_buf := buf\<rparr>;
          let rest = drop (unat n) rest;
          write_fill (s\<lparr>u_tx_in := (inp + n) mod BUF_LEN\<rparr>) out rest
        }
      } else Some (out0, s, rest))"

definition enable_transmit ::
  "'h uart_hw \<Rightarrow> ('e, 'h, 'm) uart_state_scheme \<Rightarrow> ('e, 'h, 'm) uart_state_scheme" where
  "enable_transmit hw s =
     (let (context, s) = alt_irq_disable_all s;
          s = s\<lparr>u_irq_enable := u_irq_enable s OR CONTROL_WE\<rparr>;
          s = put_control hw (u_irq_enable s) s
      in alt_irq_enable_all context s)"

partial_function (option) write_loop ::
  "'h uart_hw \<Rightarrow> (('e, 'h, 'm) uart_state_scheme \<Rightarrow> ('e, 'h, 'm) uart_state_scheme) \<Rightarrow> u32 \<Rightarrow> u32
    \<Rightarrow> ('e, 'h, 'm) uart_state_scheme \<Rightarrow> u8 list \<Rightarrow> (('e, 'h, 'm) uart_state_scheme \<times> u8 list) option" where
  "write_loop hw idle flags out0 s rest = do {
     (out, s, rest) \<leftarrow> write_fill s out0 rest;
     let s = enable_transmit hw s;
     if rest \<noteq> [] then
       if flags AND O_NONBLOCK \<noteq> 0 then Some (s, rest)
       else do {
         s \<leftarrow> wait_while (\<lambda>s. out = u_tx_out s \<and> u_host_inactive s < u_timeout s) idle s;
         if u_host_inactive s \<noteq> 0 then Some (s, rest) else write_loop hw idle flags out s rest
       }
     else Some (s, rest)
   }"

declare read_available.simps [code] read_loop.simps [code] write_fill.simps [code] write_loop.simps [code]

text \<open>\<open>ignore_full\<close> is \<open>ALTERA_AVALON_JTAG_UART_IGNORE_FIFO_FULL_ERROR\<close>.\<close>

definition altera_avalon_jtag_uart_write ::
  "bool \<Rightarrow> 'h uart_hw \<Rightarrow> (('e, 'h, 'm) uart_state_scheme \<Rightarrow> ('e, 'h, 'm) uart_state_scheme) \<Rightarrow> u8 list \<Rightarrow> u32
    \<Rightarrow> ('e, 'h, 'm) uart_state_scheme \<Rightarrow> (int \<times> ('e, 'h, 'm) uart_state_scheme) option" where
  "altera_avalon_jtag_uart_write ignore_full hw idle bytes flags s = do {
     (s, rest) \<leftarrow> write_loop hw idle flags 0 s bytes;
     Some (if rest \<noteq> bytes then (int (length bytes) - int (length rest), s)
           else if flags AND O_NONBLOCK \<noteq> 0 then (- EWOULDBLOCK, s)
           else if ignore_full \<and> u_timeout s \<le> u_host_inactive s
             then (int (length rest), s\<lparr>u_tx_in := 0, u_tx_out := 0\<rparr>)
           else (- EIO, s))
   }"

section \<open>The polled variant\<close>

text \<open>
  Reading polls the data register until a byte comes, and then takes what is there.
  Writing polls the control register for space.
\<close>

partial_function (option) read_small_loop ::
  "'h uart_hw \<Rightarrow> int \<Rightarrow> u32 \<Rightarrow> u8 list \<Rightarrow> 'h \<Rightarrow> (u8 list \<times> 'h) option" where
  "read_small_loop hw space flags got h =
     (if int (length got) < space then
        (let (data, h) = hw_data hw h in
         if data AND DATA_RVALID \<noteq> 0 then read_small_loop hw space flags (got @ [ucast (data AND 0xFF)]) h
         else if got \<noteq> [] then Some (got, h)
         else if flags AND O_NONBLOCK \<noteq> 0 then Some (got, h)
         else read_small_loop hw space flags got h)
      else Some (got, h))"

definition altera_avalon_jtag_uart_read_small ::
  "'h uart_hw \<Rightarrow> int \<Rightarrow> u32 \<Rightarrow> 'h \<Rightarrow> (int \<times> u8 list \<times> 'h) option" where
  "altera_avalon_jtag_uart_read_small hw space flags h = do {
     (got, h) \<leftarrow> read_small_loop hw space flags [] h;
     Some (if got \<noteq> [] then int (length got)
           else if flags AND O_NONBLOCK \<noteq> 0 then - EWOULDBLOCK else - EIO, got, h)
   }"

partial_function (option) write_small_loop :: "'h uart_hw \<Rightarrow> u8 list \<Rightarrow> 'h \<Rightarrow> 'h option" where
  "write_small_loop hw rest h =
     (case rest of
        [] \<Rightarrow> Some h
      | c # cs \<Rightarrow> (let (control, h) = hw_control hw h in
          if control AND CONTROL_WSPACE \<noteq> 0 then write_small_loop hw cs (hw_put_data hw c h)
          else write_small_loop hw rest h))"

definition altera_avalon_jtag_uart_write_small ::
  "'h uart_hw \<Rightarrow> u8 list \<Rightarrow> 'h \<Rightarrow> (int \<times> 'h) option" where
  "altera_avalon_jtag_uart_write_small hw bytes h = do {
     h \<leftarrow> write_small_loop hw bytes h;
     Some (int (length bytes), h)
   }"

declare read_small_loop.simps [code] write_small_loop.simps [code]

section \<open>The descriptor level\<close>

text \<open>
  The functions the device structure points to hand the descriptor's flags to the driver:
  \<open>fd_flags\<close> is that field.
\<close>

definition altera_avalon_jtag_uart_read_fd ::
  "'h uart_hw \<Rightarrow> (('e, 'h, 'm) uart_state_scheme \<Rightarrow> ('e, 'h, 'm) uart_state_scheme) \<Rightarrow> u32 \<Rightarrow> u32
    \<Rightarrow> ('e, 'h, 'm) uart_state_scheme \<Rightarrow> (int \<times> u8 list \<times> ('e, 'h, 'm) uart_state_scheme) option" where
  "altera_avalon_jtag_uart_read_fd hw idle fd_flags space s = altera_avalon_jtag_uart_read hw idle space fd_flags s"

definition altera_avalon_jtag_uart_write_fd ::
  "bool \<Rightarrow> 'h uart_hw \<Rightarrow> (('e, 'h, 'm) uart_state_scheme \<Rightarrow> ('e, 'h, 'm) uart_state_scheme) \<Rightarrow> u32 \<Rightarrow> u8 list
    \<Rightarrow> ('e, 'h, 'm) uart_state_scheme \<Rightarrow> (int \<times> ('e, 'h, 'm) uart_state_scheme) option" where
  "altera_avalon_jtag_uart_write_fd ignore_full hw idle fd_flags buffer s =
     altera_avalon_jtag_uart_write ignore_full hw idle buffer fd_flags s"

definition altera_avalon_jtag_uart_close_fd ::
  "(('e, 'h, 'm) uart_state_scheme \<Rightarrow> ('e, 'h, 'm) uart_state_scheme) \<Rightarrow> u32 \<Rightarrow> ('e, 'h, 'm) uart_state_scheme
    \<Rightarrow> (int \<times> ('e, 'h, 'm) uart_state_scheme) option" where
  "altera_avalon_jtag_uart_close_fd idle fd_flags s = altera_avalon_jtag_uart_close idle fd_flags s"

definition altera_avalon_jtag_uart_ioctl_fd ::
  "u32 \<Rightarrow> u32 \<Rightarrow> ('e, 'h, 'm) uart_state_scheme \<Rightarrow> int \<times> u32 \<times> ('e, 'h, 'm) uart_state_scheme" where
  "altera_avalon_jtag_uart_ioctl_fd req arg s = altera_avalon_jtag_uart_ioctl req arg s"

end
