(* ===== verification/UartRing.thy ===== *)
theory UartRing
  imports Uart
begin

text \<open>
  The ring buffers of the JTAG UART driver.  The first part gives the bytes a ring holds and
  proves the contract \<open>bounded_fifo\<close> for it; the second relates the driver's index arithmetic and
  its loops to it.
\<close>

section \<open>What a ring holds\<close>

abbreviation RING :: nat where "RING \<equiv> 2048"

definition ring_used :: "nat \<Rightarrow> nat \<Rightarrow> nat" where
  "ring_used i r = (if r \<le> i then i - r else i + RING - r)"

definition ring_bytes :: "'a list \<Rightarrow> nat \<Rightarrow> nat \<Rightarrow> 'a list" where
  "ring_bytes buf i r = map (\<lambda>k. buf ! ((r + k) mod RING)) [0..<ring_used i r]"

lemma length_ring_bytes [simp]: "length (ring_bytes buf i r) = ring_used i r"
  by (simp add: ring_bytes_def)

lemma mod_RING: "x < 2 * RING \<Longrightarrow> x mod RING = (if x < RING then x else x - RING)"
  by (simp add: mod_if)

lemma ring_index: "r < RING \<Longrightarrow> k < RING \<Longrightarrow> (r + k) mod RING = (if r + k < RING then r + k else r + k - RING)"
  for r k :: nat by (simp add: mod_if)

lemma used_bound: "i < RING \<Longrightarrow> r < RING \<Longrightarrow> ring_used i r < RING"
  by (auto simp: ring_used_def)

lemma used_end: "i < RING \<Longrightarrow> r < RING \<Longrightarrow> (r + ring_used i r) mod RING = i"
  by (simp add: ring_used_def mod_RING)

lemma used_add:
  "i < RING \<Longrightarrow> r < RING \<Longrightarrow> ring_used i r + n < RING \<Longrightarrow> ring_used ((i + n) mod RING) r = ring_used i r + n"
  by (auto simp: ring_used_def mod_RING split: if_splits)

lemma used_sub:
  "i < RING \<Longrightarrow> r < RING \<Longrightarrow> n \<le> ring_used i r \<Longrightarrow> ring_used i ((r + n) mod RING) = ring_used i r - n"
  by (auto simp: ring_used_def mod_RING split: if_splits)

lemma nth_ring_bytes: "k < ring_used i r \<Longrightarrow> ring_bytes buf i r ! k = buf ! ((r + k) mod RING)"
  by (simp add: ring_bytes_def)

text \<open>Publishing \<open>n\<close> cells behind the contents appends what they hold.\<close>

lemma ring_publish:
  assumes "i < RING" "r < RING" "ring_used i r + n < RING" "n \<le> length xs"
    and "\<And>j. j < n \<Longrightarrow> buf ! ((i + j) mod RING) = xs ! j"
  shows "ring_bytes buf ((i + n) mod RING) r = ring_bytes buf i r @ take n xs"
proof (rule nth_equalityI)
  show "length (ring_bytes buf ((i + n) mod RING) r) = length (ring_bytes buf i r @ take n xs)"
    using assms by (simp add: used_add)
  fix k assume "k < length (ring_bytes buf ((i + n) mod RING) r)"
  then have k: "k < ring_used i r + n" using assms by (simp add: used_add)
  show "ring_bytes buf ((i + n) mod RING) r ! k = (ring_bytes buf i r @ take n xs) ! k"
  proof (cases "k < ring_used i r")
    case True
    then show ?thesis using k assms by (simp add: nth_ring_bytes used_add nth_append)
  next
    case False
    define j where "j = k - ring_used i r"
    then have j: "k = ring_used i r + j" "j < n" using False k by auto
    have "(r + k) mod RING = ((r + ring_used i r) mod RING + j) mod RING"
      unfolding j(1) by (simp add: mod_add_left_eq add.assoc)
    then have "(r + k) mod RING = (i + j) mod RING" using used_end [OF assms(1,2)] by simp
    then show ?thesis using j assms k by (simp add: nth_ring_bytes used_add nth_append)
  qed
qed

text \<open>Advancing past \<open>n\<close> cells drops them.\<close>

lemma ring_advance:
  assumes "i < RING" "r < RING" "n \<le> ring_used i r"
  shows "ring_bytes buf i ((r + n) mod RING) = drop n (ring_bytes buf i r)"
proof (rule nth_equalityI)
  show "length (ring_bytes buf i ((r + n) mod RING)) = length (drop n (ring_bytes buf i r))"
    using assms by (simp add: used_sub)
  fix k assume "k < length (ring_bytes buf i ((r + n) mod RING))"
  then have k: "n + k < ring_used i r" using assms by (simp add: used_sub)
  have "((r + n) mod RING + k) mod RING = (r + (n + k)) mod RING"
    by (simp add: mod_add_left_eq add.assoc)
  then show "ring_bytes buf i ((r + n) mod RING) ! k = drop n (ring_bytes buf i r) ! k"
    using k assms by (simp add: nth_ring_bytes used_sub)
qed

text \<open>Cells outside the contents may be written without changing them.\<close>

lemma ring_bytes_frame:
  assumes "i < RING" "r < RING" "\<And>k. k < ring_used i r \<Longrightarrow> buf' ! ((r + k) mod RING) = buf ! ((r + k) mod RING)"
  shows "ring_bytes buf' i r = ring_bytes buf i r"
  using assms by (simp add: ring_bytes_def)

lemma free_cell:
  assumes "i < RING" "r < RING" "ring_used i r + j < RING" "k < ring_used i r"
  shows "(i + j) mod RING \<noteq> (r + k) mod RING"
  using assms by (auto simp: ring_used_def mod_RING split: if_splits)

lemma ring_write_free:
  assumes "i < RING" "r < RING" "ring_used i r + j < RING"
  shows "ring_bytes (buf[(i + j) mod RING := c]) i r = ring_bytes buf i r"
  by (rule ring_bytes_frame) (use assms free_cell in \<open>simp_all add: nth_list_update_neq\<close>)

section \<open>A ring is a bounded first-in first-out buffer\<close>

type_synonym 'a ring = "'a list \<times> nat \<times> nat"

definition ring_ok :: "'a ring \<Rightarrow> bool" where
  "ring_ok q \<longleftrightarrow> (case q of (buf, i, r) \<Rightarrow> length buf = RING \<and> i < RING \<and> r < RING)"

definition ring_contents :: "'a ring \<Rightarrow> 'a list" where
  "ring_contents q = (case q of (buf, i, r) \<Rightarrow> ring_bytes buf i r)"

definition ring_space :: "'a ring \<Rightarrow> nat" where
  "ring_space q = (case q of (buf, i, r) \<Rightarrow> RING - 1 - ring_used i r)"

definition ring_put :: "'a \<Rightarrow> 'a ring \<Rightarrow> 'a ring option" where
  "ring_put c q = (case q of (buf, i, r) \<Rightarrow> do { buf \<leftarrow> wr buf i c; Some (buf, (i + 1) mod RING, r) })"

definition ring_drop :: "nat \<Rightarrow> 'a ring \<Rightarrow> 'a ring option" where
  "ring_drop n q = (case q of (buf, i, r) \<Rightarrow> Some (buf, i, (r + n) mod RING))"

interpretation uart_ring: bounded_fifo ring_ok ring_contents ring_space ring_put ring_drop
proof unfold_locales
  fix q :: "'a ring" and v
  obtain buf i r where q: "q = (buf, i, r)" by (cases q)
  {
    assume ok: "ring_ok q" and sp: "0 < ring_space q"
    have "ring_bytes (buf[i := v]) ((i + 1) mod RING) r = ring_bytes (buf[i := v]) i r @ take 1 [v]"
      by (rule ring_publish) (use ok sp q in \<open>auto simp: ring_ok_def ring_space_def\<close>)
    also have "\<dots> = ring_bytes buf i r @ [v]"
      using ring_write_free [of i r 0 buf v] used_bound [of i r] ok q by (simp add: ring_ok_def)
    finally show "\<exists>q'. ring_put v q = Some q' \<and> ring_ok q' \<and> ring_contents q' = ring_contents q @ [v]
        \<and> ring_space q' = ring_space q - 1"
      using ok sp q used_add [of i r 1] by (simp add: ring_put_def ring_ok_def ring_contents_def ring_space_def wr_in)
  next
    fix n assume "ring_ok q" "n \<le> length (ring_contents q)"
    then show "\<exists>q'. ring_drop n q = Some q' \<and> ring_ok q' \<and> ring_contents q' = drop n (ring_contents q)
        \<and> ring_space q \<le> ring_space q'"
      using q used_sub [of i r n] ring_advance [of i r n buf]
      by (auto simp: ring_drop_def ring_ok_def ring_contents_def ring_space_def)
  }
qed

section \<open>The driver's index arithmetic\<close>

lemma unat_wrap:
  "unat x + unat y < 2 ^ 32 \<Longrightarrow> unat ((x + y) mod BUF_LEN :: u32) = (unat x + unat y) mod RING"
  by (simp add: unat_mod unat_plus_if_small)

lemma unat_wrap_1: "unat x < RING \<Longrightarrow> unat ((x + 1) mod BUF_LEN :: u32) = (unat x + 1) mod RING"
  using unat_wrap [of x 1] by simp

lemma tx_room_ok:
  assumes "unat i < RING" "unat r < RING"
  shows "ring_used (unat i) (unat r) + unat (tx_room i r) < RING" and "unat i + unat (tx_room i r) \<le> RING"
    and "unat (tx_room i r) = 0 \<longleftrightarrow> ring_used (unat i) (unat r) = RING - 1"
proof -
  have "unat (tx_room i r) = (if unat i < unat r then unat r - 1 - unat i
      else if 0 < unat r then RING - unat i else RING - 1 - unat i)"
  proof -
    have "unat (r - 1 - i) = unat r - 1 - unat i" if "i < r"
    proof -
      have "1 \<le> r" using that by (simp add: word_le_nat_alt word_less_nat_alt)
      then have a: "unat (r - 1) = unat r - 1" by (simp add: unat_sub)
      then have "i \<le> r - 1" using that by (simp add: word_le_nat_alt word_less_nat_alt)
      then show ?thesis using a by (simp add: unat_sub)
    qed
    moreover have "unat (BUF_LEN - i) = RING - unat i" "unat (BUF_LEN - 1 - i) = RING - 1 - unat i"
      using assms by (simp_all add: unat_sub word_le_nat_alt)
    ultimately show ?thesis by (simp add: tx_room_def word_less_nat_alt unat_gt_0 word_gt_0 split: if_splits)
  qed
  then show "ring_used (unat i) (unat r) + unat (tx_room i r) < RING" "unat i + unat (tx_room i r) \<le> RING"
    "unat (tx_room i r) = 0 \<longleftrightarrow> ring_used (unat i) (unat r) = RING - 1"
    using assms by (auto simp: ring_used_def)
qed

lemma rx_avail_ok:
  assumes "unat i < RING" "unat r < RING"
  shows "unat (rx_avail i r) \<le> ring_used (unat i) (unat r)" and "unat r + unat (rx_avail i r) \<le> RING"
    and "rx_avail i r = 0 \<longleftrightarrow> ring_used (unat i) (unat r) = 0"
proof -
  have "unat (rx_avail i r) = (if unat r \<le> unat i then unat i - unat r else RING - unat r)"
    using assms by (simp add: rx_avail_def unat_sub word_le_nat_alt)
  then show "unat (rx_avail i r) \<le> ring_used (unat i) (unat r)" "unat r + unat (rx_avail i r) \<le> RING"
    "rx_avail i r = 0 \<longleftrightarrow> ring_used (unat i) (unat r) = 0"
    using assms unat_eq_0 [of "rx_avail i r"] by (auto simp: ring_used_def)
qed

section \<open>The driver's loops on the rings\<close>

definition wf_uart :: "('e, 'h, 'm) uart_state_scheme \<Rightarrow> bool" where
  "wf_uart s \<longleftrightarrow> length (u_rx_buf s) = RING \<and> unat (u_rx_in s) < RING \<and> unat (u_rx_out s) < RING
     \<and> length (u_tx_buf s) = RING \<and> unat (u_tx_in s) < RING \<and> unat (u_tx_out s) < RING"

definition rx_pending :: "('e, 'h, 'm) uart_state_scheme \<Rightarrow> u8 list" where
  "rx_pending s = ring_bytes (u_rx_buf s) (unat (u_rx_in s)) (unat (u_rx_out s))"

definition tx_pending :: "('e, 'h, 'm) uart_state_scheme \<Rightarrow> u8 list" where
  "tx_pending s = ring_bytes (u_tx_buf s) (unat (u_tx_in s)) (unat (u_tx_out s))"

lemma ring_empty: "i < RING \<Longrightarrow> r < RING \<Longrightarrow> ring_used i r = 0 \<longleftrightarrow> i = r"
  by (auto simp: ring_used_def)

lemma ring_first_byte:
  assumes "i < RING" "r < RING" "i \<noteq> r"
  shows "ring_bytes buf i r = buf ! r # ring_bytes buf i ((r + 1) mod RING)"
proof -
  have u: "0 < ring_used i r" using assms ring_empty by auto
  then have "ring_bytes buf i r = hd (ring_bytes buf i r) # drop 1 (ring_bytes buf i r)"
    by (cases "ring_bytes buf i r") (use length_ring_bytes [of buf i r] in auto)
  moreover have "hd (ring_bytes buf i r) = buf ! r"
    using u nth_ring_bytes [of 0 i r buf] assms by (simp add: hd_conv_nth flip: length_greater_0_conv)
  moreover have "drop 1 (ring_bytes buf i r) = ring_bytes buf i ((r + 1) mod RING)"
    using u assms by (intro ring_advance [symmetric]) auto
  ultimately show ?thesis by metis
qed

lemma tx_pending_empty:
  assumes "wf_uart s"
  shows "length (tx_pending s) = 0 \<longleftrightarrow> u_tx_out s = u_tx_in s"
proof -
  have "length (tx_pending s) = 0 \<longleftrightarrow> unat (u_tx_in s) = unat (u_tx_out s)"
    using assms ring_empty [of "unat (u_tx_in s)" "unat (u_tx_out s)"] by (simp add: tx_pending_def wf_uart_def)
  then show ?thesis by (metis word_unat_eq_iff)
qed

lemma tx_loop_stops: "\<not> (0 < space \<and> u_tx_out s \<noteq> u_tx_in s) \<Longrightarrow> tx_loop hw space s = Some (space, s)"
  by (subst tx_loop.simps) (simp only: if_False)

text \<open>The transmit loop sends as much of the ring as the device has space for, in order.\<close>

lemma tx_loop_ok:
  fixes s :: "('e, 'h, 'm) uart_state_scheme"
  assumes "wf_uart s" "m = min (unat space) (length (tx_pending s))"
  shows "\<exists>w. tx_loop hw space s = Some (space - of_nat m,
      s\<lparr>u_hw := fold (hw_put_data hw) (take m (tx_pending s)) (u_hw s), u_tx_out := w\<rparr>)
    \<and> unat w = (unat (u_tx_out s) + m) mod RING"
  using assms
proof (induction m arbitrary: s space)
  case 0
  then have "unat space = 0 \<or> length (tx_pending s) = 0" by linarith
  then have "\<not> (0 < space \<and> u_tx_out s \<noteq> u_tx_in s)"
    using tx_pending_empty [OF 0(1)] by (auto simp: word_less_nat_alt)
  then have "tx_loop hw space s = Some (space, s)" by (rule tx_loop_stops)
  then show ?case using 0(1) by (intro exI [of _ "u_tx_out s"]) (simp add: wf_uart_def)
next
  case (Suc m)
  note w = Suc.prems(1) [unfolded wf_uart_def]
  have "unat space \<noteq> 0" "length (tx_pending s) \<noteq> 0" using Suc.prems(2) by linarith+
  then have pos: "0 < space" "u_tx_out s \<noteq> u_tx_in s"
    using tx_pending_empty [OF Suc.prems(1)] by (simp_all add: word_less_nat_alt)
  let ?c = "u_tx_buf s ! unat (u_tx_out s)"
  let ?s = "s\<lparr>u_hw := hw_put_data hw ?c (u_hw s), u_tx_out := (u_tx_out s + 1) mod BUF_LEN\<rparr>"
  have o1: "unat ((u_tx_out s + 1) mod BUF_LEN) = (unat (u_tx_out s) + 1) mod RING"
    using w by (intro unat_wrap_1) simp
  have "unat (u_tx_in s) \<noteq> unat (u_tx_out s)" using pos(2) by (simp add: word_unat_eq_iff [symmetric])
  then have pend: "tx_pending s = ?c # tx_pending ?s"
    using w ring_first_byte [of "unat (u_tx_in s)" "unat (u_tx_out s)" "u_tx_buf s"] o1 by (simp add: tx_pending_def)
  have sp: "unat (space - 1) = unat space - 1" using pos(1) by (simp add: unat_sub word_le_nat_alt word_less_nat_alt)
  have "wf_uart ?s" using w o1 by (simp add: wf_uart_def)
  moreover have "m = min (unat (space - 1)) (length (tx_pending ?s))"
    using Suc.prems(2) pend sp by simp
  ultimately obtain x where x: "tx_loop hw (space - 1) ?s = Some (space - 1 - of_nat m,
      ?s\<lparr>u_hw := fold (hw_put_data hw) (take m (tx_pending ?s)) (u_hw ?s), u_tx_out := x\<rparr>)
    \<and> unat x = (unat (u_tx_out ?s) + m) mod RING" by (elim Suc.IH [THEN exE])
  have "tx_loop hw space s = tx_loop hw (space - 1) ?s"
    using pos w by (subst tx_loop.simps) (simp add: rd_in)
  then have "tx_loop hw space s = Some (space - of_nat (Suc m),
      s\<lparr>u_hw := fold (hw_put_data hw) (take (Suc m) (tx_pending s)) (u_hw s), u_tx_out := x\<rparr>)"
    using x pend by (simp add: diff_diff_eq)
  moreover have "unat x = (unat (u_tx_out s) + Suc m) mod RING"
    using x o1 by (simp add: mod_add_left_eq)
  ultimately show ?case by blast
qed

lemma copy_into_ok:
  assumes "pos + length bytes \<le> length buf"
  shows "\<exists>buf'. copy_into buf pos bytes = Some buf' \<and> length buf' = length buf
    \<and> (\<forall>j < length buf. buf' ! j = (if pos \<le> j \<and> j < pos + length bytes then bytes ! (j - pos) else buf ! j))"
  unfolding copy_into_def
  by (rule foldM_upt_invariant [where P = "\<lambda>m b. length b = length buf
    \<and> (\<forall>j < length buf. b ! j = (if pos \<le> j \<and> j < pos + m then bytes ! (j - pos) else buf ! j))"])
    (use assms in \<open>auto simp: wr_in nth_list_update\<close>)

text \<open>The copy loop takes as much as fits, and appends it to what is pending.\<close>

lemma write_fill_ok:
  fixes s :: "('e, 'h, 'm) uart_state_scheme"
  assumes "wf_uart s" "length rest < 2 ^ 31"
  defines "m \<equiv> min (RING - 1 - length (tx_pending s)) (length rest)"
  shows "\<exists>out b i. write_fill s out0 rest = Some (out, s\<lparr>u_tx_buf := b, u_tx_in := i\<rparr>, drop m rest)
    \<and> wf_uart (s\<lparr>u_tx_buf := b, u_tx_in := i\<rparr>)
    \<and> tx_pending (s\<lparr>u_tx_buf := b, u_tx_in := i\<rparr>) = tx_pending s @ take m rest"
  using assms(1,2) unfolding m_def
proof (induction "length rest" arbitrary: s rest out0 rule: less_induct)
  case less
  note w = less.prems(1) [unfolded wf_uart_def]
  let ?i = "unat (u_tx_in s)" and ?r = "unat (u_tx_out s)" and ?n = "tx_room (u_tx_in s) (u_tx_out s)"
  let ?k = "min (unat ?n) (length rest)"
  note room = tx_room_ok [of "u_tx_in s" "u_tx_out s"]
  show ?case
  proof (cases "rest = [] \<or> ?n = 0")
    case True
    then have "min (RING - 1 - length (tx_pending s)) (length rest) = 0"
      using room(3) w by (auto simp: tx_pending_def)
    moreover have "\<exists>out. write_fill s out0 rest = Some (out, s, rest)"
      using True by (subst write_fill.simps) (auto simp: Let_def)
    then obtain out where "write_fill s out0 rest = Some (out, s, rest)" by blast
    ultimately show ?thesis using less.prems(1)
      by (intro exI [of _ out] exI [of _ "u_tx_buf s"] exI [of _ "u_tx_in s"]) simp
  next
    case False
    have k: "unat (if of_nat (length rest) < ?n then of_nat (length rest) else ?n) = ?k"
      using less.prems(2) by (auto simp: word_less_nat_alt unat_u32_small)
    have "unat ?n \<noteq> 0" using False unat_eq_0 by blast
    then have kpos: "0 < ?k" using False by simp
    have l: "length (take ?k rest) = ?k" by simp
    have "?i + ?k \<le> RING" using room(2) w by simp
    then have "?i + length (take ?k rest) \<le> length (u_tx_buf s)" using l w by (simp only:)
    from copy_into_ok [OF this] obtain b where b: "copy_into (u_tx_buf s) ?i (take ?k rest) = Some b" "length b = RING"
      "\<forall>j < RING. b ! j = (if ?i \<le> j \<and> j < ?i + ?k then take ?k rest ! (j - ?i) else u_tx_buf s ! j)"
      unfolding l using w by (elim exE conjE) (simp only:)
    define i' where "i' = (u_tx_in s + (if of_nat (length rest) < ?n then of_nat (length rest) else ?n)) mod BUF_LEN"
    have i': "unat i' = (?i + ?k) mod RING"
      unfolding i'_def using unat_wrap [of "u_tx_in s" "if of_nat (length rest) < ?n then of_nat (length rest) else ?n"] k room(2) w
      by simp
    let ?s = "s\<lparr>u_tx_buf := b, u_tx_in := i'\<rparr>"
    have step: "write_fill s out0 rest = write_fill ?s (u_tx_out s) (drop ?k rest)"
      using False k b(1) by (subst write_fill.simps) (simp add: Let_def i'_def)
    have ws: "wf_uart ?s" using w b(2) i' by (simp add: wf_uart_def)
    have fits: "ring_used ?i ?r + ?k < RING" using room(1) w by simp
    have "ring_bytes b ((?i + ?k) mod RING) ?r = ring_bytes b ?i ?r @ take ?k (take ?k rest)"
    proof (rule ring_publish)
      fix j assume j: "j < ?k"
      then have "?i + j < RING" using room(2) w by simp
      then show "b ! ((?i + j) mod RING) = take ?k rest ! j" using b(3) j by simp
    qed (use w fits in auto)
    moreover have "ring_bytes b ?i ?r = ring_bytes (u_tx_buf s) ?i ?r"
    proof (rule ring_bytes_frame)
      fix q assume q: "q < ring_used ?i ?r"
      have "\<not> (?i \<le> (?r + q) mod RING \<and> (?r + q) mod RING < ?i + ?k)"
      proof
        assume a: "?i \<le> (?r + q) mod RING \<and> (?r + q) mod RING < ?i + ?k"
        define j where "j = (?r + q) mod RING - ?i"
        have j: "(?r + q) mod RING = ?i + j" "j < ?k" using a by (auto simp: j_def)
        then have "(?i + j) mod RING = (?r + q) mod RING" by (metis mod_mod_trivial)
        then show False using free_cell [of ?i ?r j q] w fits j(2) q by simp
      qed
      moreover have "(?r + q) mod RING < RING" by simp
      ultimately show "b ! ((?r + q) mod RING) = u_tx_buf s ! ((?r + q) mod RING)"
        using b(3) by (metis (no_types))
    qed (use w in auto)
    ultimately have pend: "tx_pending ?s = tx_pending s @ take ?k rest" by (simp add: tx_pending_def i')
    let ?m = "min (RING - 1 - length (tx_pending ?s)) (length (drop ?k rest))"
    have "length (drop ?k rest) < length rest" using kpos False by auto
    then obtain out c x where IH: "write_fill ?s (u_tx_out s) (drop ?k rest)
        = Some (out, ?s\<lparr>u_tx_buf := c, u_tx_in := x\<rparr>, drop ?m (drop ?k rest))"
      "wf_uart (?s\<lparr>u_tx_buf := c, u_tx_in := x\<rparr>)"
      "tx_pending (?s\<lparr>u_tx_buf := c, u_tx_in := x\<rparr>) = tx_pending ?s @ take ?m (drop ?k rest)"
      using less.hyps [of "drop ?k rest" ?s "u_tx_out s"] ws less.prems(2) by auto
    have m: "min (RING - 1 - length (tx_pending s)) (length rest) = ?k + ?m"
      using pend fits by (simp add: tx_pending_def [of s]) 
    show ?thesis unfolding m step
      using IH pend by (intro exI [of _ out] exI [of _ c] exI [of _ x]) (simp add: take_add add.commute)
  qed
qed

end
