(* ===== verification/UartRace.thy ===== *)
theory UartRace
  imports UartRing
begin

text \<open>
  The interrupt driven JTAG UART driver with its interrupts.  \<open>write\<close> and \<open>read\<close> share their
  ring with the interrupt handler and take no lock: each side advances only its own index.
  Here the thread and the handler move in single steps, in any order: the thread reads the
  other side's index and computes a length, copies one byte, or publishes its own index; the
  handler moves one byte.  Histories of the bytes handed in, taken and sent are added to
  the state; the invariants relate them to the ring in every reachable state.
\<close>

section \<open>The steps of \<open>write\<close> and of the transmit interrupt\<close>

text \<open>
  Between its copies the thread is \<open>Tx_idle\<close>; when there is no room it is \<open>Tx_full\<close> with the value of \<open>tx_out\<close> it
  has read.  It tries again when that has changed, or gives up: because the file is opened with
  \<open>O_NONBLOCK\<close>, or because the host is inactive, neither of which the ring shows.  The bytes not
  copied then are handed back to the caller, who is told how many were accepted.
\<close>

datatype tx_pc = Tx_idle | Tx_copy u32 nat | Tx_full u32

record tx_sys =
  t_buf :: "u8 list"
  t_in :: u32
  t_out :: u32
  t_pc :: tx_pc
  t_rest :: "u8 list"
  t_given :: "u8 list"
  t_sent :: "u8 list"

definition tx_start :: tx_sys where
  "tx_start = \<lparr>t_buf = replicate RING 0, t_in = 0, t_out = 0, t_pc = Tx_idle, t_rest = [], t_given = [], t_sent = []\<rparr>"

definition tx_length :: "tx_sys \<Rightarrow> u32" where
  "tx_length c = (let n = tx_room (t_in c) (t_out c) in
     if of_nat (length (t_rest c)) < n then of_nat (length (t_rest c)) else n)"

inductive tx_step :: "tx_sys \<Rightarrow> tx_sys \<Rightarrow> bool" where
  call: "t_pc c = Tx_idle \<Longrightarrow> t_rest c = [] \<Longrightarrow> length bytes < 2 ^ 31 \<Longrightarrow>
    tx_step c (c\<lparr>t_rest := bytes, t_given := t_given c @ bytes\<rparr>)"
| sample: "t_pc c = Tx_idle \<Longrightarrow> t_rest c \<noteq> [] \<Longrightarrow> tx_length c \<noteq> 0 \<Longrightarrow>
    tx_step c (c\<lparr>t_pc := Tx_copy (tx_length c) 0\<rparr>)"
| full: "t_pc c = Tx_idle \<Longrightarrow> t_rest c \<noteq> [] \<Longrightarrow> tx_length c = 0 \<Longrightarrow>
    tx_step c (c\<lparr>t_pc := Tx_full (t_out c)\<rparr>)"
| retry: "t_pc c = Tx_full r \<Longrightarrow> t_out c \<noteq> r \<Longrightarrow>
    tx_step c (c\<lparr>t_pc := Tx_idle\<rparr>)"
| give_up: "t_pc c = Tx_full r \<Longrightarrow>
    tx_step c (c\<lparr>t_pc := Tx_idle, t_rest := [], t_given := take (length (t_given c) - length (t_rest c)) (t_given c)\<rparr>)"
| copy: "t_pc c = Tx_copy n k \<Longrightarrow> k < unat n \<Longrightarrow> wr (t_buf c) (unat (t_in c) + k) (t_rest c ! k) = Some b \<Longrightarrow>
    tx_step c (c\<lparr>t_buf := b, t_pc := Tx_copy n (k + 1)\<rparr>)"
| publish: "t_pc c = Tx_copy n (unat n) \<Longrightarrow>
    tx_step c (c\<lparr>t_in := (t_in c + n) mod BUF_LEN, t_pc := Tx_idle, t_rest := drop (unat n) (t_rest c)\<rparr>)"
| interrupt: "t_out c \<noteq> t_in c \<Longrightarrow> rd (t_buf c) (unat (t_out c)) = Some b \<Longrightarrow>
    tx_step c (c\<lparr>t_out := (t_out c + 1) mod BUF_LEN, t_sent := t_sent c @ [b]\<rparr>)"

inductive tx_reachable :: "tx_sys \<Rightarrow> bool" where
  start: "tx_reachable tx_start"
| step: "tx_reachable c \<Longrightarrow> tx_step c d \<Longrightarrow> tx_reachable d"

abbreviation tx_ring :: "tx_sys \<Rightarrow> u8 list" where
  "tx_ring c \<equiv> ring_bytes (t_buf c) (unat (t_in c)) (unat (t_out c))"

definition tx_bounds :: "tx_sys \<Rightarrow> bool" where
  "tx_bounds c \<longleftrightarrow> length (t_buf c) = RING \<and> unat (t_in c) < RING \<and> unat (t_out c) < RING \<and> length (t_rest c) < 2 ^ 31"

definition tx_copying :: "tx_sys \<Rightarrow> bool" where
  "tx_copying c \<longleftrightarrow> (case t_pc c of Tx_idle \<Rightarrow> True | Tx_full r \<Rightarrow> True | Tx_copy n k \<Rightarrow>
     k \<le> unat n \<and> unat n \<le> length (t_rest c) \<and> length (tx_ring c) + unat n < RING \<and> unat (t_in c) + unat n \<le> RING
     \<and> (\<forall>j < k. t_buf c ! (unat (t_in c) + j) = t_rest c ! j))"

definition tx_inv :: "tx_sys \<Rightarrow> bool" where
  "tx_inv c \<longleftrightarrow> tx_bounds c \<and> tx_copying c \<and> t_given c = t_sent c @ tx_ring c @ t_rest c"

lemma tx_inv_start: "tx_inv tx_start"
  by (simp add: tx_inv_def tx_bounds_def tx_copying_def tx_start_def ring_bytes_def ring_used_def)

lemma tx_length_ok:
  assumes "tx_bounds c"
  shows "unat (tx_length c) \<le> length (t_rest c)" and "length (tx_ring c) + unat (tx_length c) < RING"
    and "unat (t_in c) + unat (tx_length c) \<le> RING"
proof -
  have "unat (tx_length c) = min (unat (tx_room (t_in c) (t_out c))) (length (t_rest c))"
    using assms by (auto simp: tx_length_def tx_bounds_def Let_def word_less_nat_alt unat_u32_small)
  then show "unat (tx_length c) \<le> length (t_rest c)" "length (tx_ring c) + unat (tx_length c) < RING"
    "unat (t_in c) + unat (tx_length c) \<le> RING"
    using tx_room_ok(1,2) [of "t_in c" "t_out c"] assms by (auto simp: tx_bounds_def)
qed

lemma tx_copy_inv:
  assumes "tx_inv c" "t_pc c = Tx_copy n k" "k < unat n"
  shows "tx_inv (c\<lparr>t_buf := (t_buf c)[unat (t_in c) + k := t_rest c ! k], t_pc := Tx_copy n (k + 1)\<rparr>)"
proof -
  let ?i = "unat (t_in c)" and ?r = "unat (t_out c)"
  have b: "length (t_buf c) = RING" "?i < RING" "?r < RING" "ring_used ?i ?r + unat n < RING" "?i + unat n \<le> RING"
    using assms(1,2) by (simp_all add: tx_inv_def tx_bounds_def tx_copying_def)
  have "(?i + k) mod RING = ?i + k" using b(5) assms(3) by simp
  then have "ring_bytes ((t_buf c)[?i + k := t_rest c ! k]) ?i ?r = tx_ring c"
    using ring_write_free [of ?i ?r k "t_buf c" "t_rest c ! k"] b assms(3) by simp
  then show ?thesis using assms b by (auto simp: tx_inv_def tx_bounds_def tx_copying_def nth_list_update less_Suc_eq)
qed

lemma tx_publish_inv:
  assumes "tx_inv c" "t_pc c = Tx_copy n (unat n)"
  shows "tx_inv (c\<lparr>t_in := (t_in c + n) mod BUF_LEN, t_pc := Tx_idle, t_rest := drop (unat n) (t_rest c)\<rparr>)"
proof -
  let ?i = "unat (t_in c)" and ?r = "unat (t_out c)"
  have b: "?i < RING" "?r < RING" "ring_used ?i ?r + unat n < RING" "unat n \<le> length (t_rest c)" "?i + unat n \<le> RING"
    and cp: "\<And>j. j < unat n \<Longrightarrow> t_buf c ! (?i + j) = t_rest c ! j"
    using assms by (simp_all add: tx_inv_def tx_bounds_def tx_copying_def)
  have w: "unat ((t_in c + n) mod BUF_LEN) = (?i + unat n) mod RING"
    by (rule unat_wrap) (use b in simp)
  have "ring_bytes (t_buf c) ((?i + unat n) mod RING) ?r = tx_ring c @ take (unat n) (t_rest c)"
    by (rule ring_publish) (use b cp in auto)
  moreover have "length (drop (unat n) (t_rest c)) < 2 ^ 31"
    using assms(1) by (auto simp: tx_inv_def tx_bounds_def)
  ultimately show ?thesis using assms w by (simp add: tx_inv_def tx_bounds_def tx_copying_def)
qed

lemma tx_interrupt_inv:
  assumes "tx_inv c" "t_out c \<noteq> t_in c"
  shows "tx_inv (c\<lparr>t_out := (t_out c + 1) mod BUF_LEN, t_sent := t_sent c @ [t_buf c ! unat (t_out c)]\<rparr>)"
proof -
  let ?i = "unat (t_in c)" and ?r = "unat (t_out c)"
  have b: "?i < RING" "?r < RING" using assms(1) by (simp_all add: tx_inv_def tx_bounds_def)
  have w: "unat ((t_out c + 1) mod BUF_LEN) = (?r + 1) mod RING" by (rule unat_wrap_1) (rule b)
  have ne: "?i \<noteq> ?r" using assms(2) by (simp add: word_unat_eq_iff [symmetric])
  then have hd: "tx_ring c = t_buf c ! ?r # ring_bytes (t_buf c) ?i ((?r + 1) mod RING)"
    by (rule ring_first_byte [OF b])
  then have "length (tx_ring c) = ring_used ?i ((?r + 1) mod RING) + 1" by simp
  then have "ring_used ?i ((?r + 1) mod RING) \<le> ring_used ?i ?r" by simp
  then show ?thesis using assms(1) w hd
    by (auto simp: tx_inv_def tx_bounds_def tx_copying_def split: tx_pc.splits)
qed

lemma tx_step_inv: "tx_step c d \<Longrightarrow> tx_inv c \<Longrightarrow> tx_inv d"
proof (induction rule: tx_step.induct)
  case (call c bytes)
  then show ?case by (simp add: tx_inv_def tx_bounds_def tx_copying_def)
next
  case (sample c)
  then show ?case using tx_length_ok [of c] by (simp add: tx_inv_def tx_bounds_def tx_copying_def)
next
  case (full c)
  then show ?case by (simp add: tx_inv_def tx_bounds_def tx_copying_def)
next
  case (retry c r)
  then show ?case by (simp add: tx_inv_def tx_bounds_def tx_copying_def)
next
  case (give_up c r)
  then show ?case by (simp add: tx_inv_def tx_bounds_def tx_copying_def)
next
  case (copy c n k b)
  then show ?case using tx_copy_inv [of c n k] by (simp add: wr_Some_iff)
next
  case (publish c n)
  then show ?case by (intro tx_publish_inv)
next
  case (interrupt c b)
  then show ?case using tx_interrupt_inv [of c] by (simp add: rd_Some_iff)
qed

lemma tx_reachable_inv: "tx_reachable c \<Longrightarrow> tx_inv c"
  by (induction rule: tx_reachable.induct) (auto intro: tx_inv_start tx_step_inv)

text \<open>
  C10: In every reachable state of \<open>write\<close> and the transmit interrupt, whatever the order of their
  steps, the bytes handed to \<open>write\<close> are exactly those sent, then those in the ring, then those
  still to be copied: no byte is lost, sent twice or reordered, although no lock is taken.  This
  includes calls that give up for want of room, without waiting or because the host is
  inactive: the bytes that such a call does not accept are handed back to the caller.
\<close>

theorem tx_stream_preserved:
  assumes "tx_reachable c"
  shows "t_given c = t_sent c @ ring_bytes (t_buf c) (unat (t_in c)) (unat (t_out c)) @ t_rest c"
  using tx_reachable_inv [OF assms] by (simp add: tx_inv_def)

text \<open>
  C15: The copy loop of \<open>write\<close> never leaves the transmit buffer, never writes a cell the interrupt
  handler has yet to send, and the handler never reads outside the buffer: in every
  reachable state the step at hand can be taken.
\<close>

theorem tx_steps_in_bounds:
  assumes "tx_reachable c"
  shows "unat (t_out c) < length (t_buf c)
    \<and> (case t_pc c of Tx_idle \<Rightarrow> True | Tx_full r \<Rightarrow> True
        | Tx_copy n k \<Rightarrow> k = unat n \<or> unat (t_in c) + k < length (t_buf c) \<and> k < length (t_rest c)
            \<and> list_all (\<lambda>q. (unat (t_out c) + q) mod 2048 \<noteq> unat (t_in c) + k) [0..<length (tx_ring c)])"
proof -
  have inv: "tx_bounds c" "tx_copying c" using tx_reachable_inv [OF assms] by (simp_all add: tx_inv_def)
  show ?thesis
  proof (cases "t_pc c")
    case (Tx_copy n k)
    let ?i = "unat (t_in c)" and ?r = "unat (t_out c)"
    have "(?r + q) mod RING \<noteq> ?i + k" if "q < ring_used ?i ?r" "k < unat n" for q
      using free_cell [of ?i ?r k q] inv that Tx_copy
      by (auto simp: tx_bounds_def tx_copying_def)
    then show ?thesis using inv Tx_copy by (auto simp: tx_bounds_def tx_copying_def list_all_iff)
  qed (use inv in \<open>simp_all add: tx_bounds_def\<close>)
qed

text \<open>A run in which the interrupt comes in the middle of the second copy.\<close>

definition tx_demo :: "nat \<Rightarrow> tx_sys" where
  "tx_demo m = (let c = tx_start\<lparr>t_rest := [7, 8], t_given := [7, 8]\<rparr>;
     c1 = c\<lparr>t_pc := Tx_copy 2 0\<rparr>;
     c2 = c1\<lparr>t_buf := (t_buf c1)[0 := 7], t_pc := Tx_copy 2 1\<rparr>;
     c3 = c2\<lparr>t_buf := (t_buf c2)[1 := 8], t_pc := Tx_copy 2 (Suc (Suc 0))\<rparr>;
     c4 = c3\<lparr>t_in := 2, t_pc := Tx_idle, t_rest := []\<rparr>;
     c5 = c4\<lparr>t_rest := [9], t_given := [7, 8, 9]\<rparr>;
     c6 = c5\<lparr>t_pc := Tx_copy 1 0\<rparr>;
     c7 = c6\<lparr>t_out := 1, t_sent := [7]\<rparr>
   in [tx_start, c, c1, c2, c3, c4, c5, c6, c7] ! m)"

lemma tx_demo_reachable: "tx_reachable (tx_demo 8)"
proof -
  note defs = tx_demo_def Let_def tx_start_def tx_length_def tx_room_def
  have 0: "tx_reachable (tx_demo 0)" by (simp add: tx_demo_def tx_reachable.start)
  have 1: "tx_step (tx_demo 0) (tx_demo 1)"
    using tx_step.call [of "tx_demo 0" "[7, 8]"] by (simp add: defs)
  have 2: "tx_step (tx_demo 1) (tx_demo 2)"
    using tx_step.sample [of "tx_demo 1"] by (simp add: defs)
  have 3: "tx_step (tx_demo 2) (tx_demo 3)"
    using tx_step.copy [of "tx_demo 2" 2 0] by (simp add: defs wr_def)
  have 4: "tx_step (tx_demo 3) (tx_demo 4)"
    using tx_step.copy [of "tx_demo 3" 2 1] by (simp add: defs wr_def)
  have 5: "tx_step (tx_demo 4) (tx_demo 5)"
    using tx_step.publish [of "tx_demo 4" 2] by (simp add: defs)
  have 6: "tx_step (tx_demo 5) (tx_demo 6)"
    using tx_step.call [of "tx_demo 5" "[9]"] by (simp add: defs)
  have 7: "tx_step (tx_demo 6) (tx_demo 7)"
    using tx_step.sample [of "tx_demo 6"] by (simp add: defs)
  have 8: "tx_step (tx_demo 7) (tx_demo 8)"
    using tx_step.interrupt [of "tx_demo 7" 7] by (simp add: defs rd_def)
  show ?thesis by (rule step [OF step [OF step [OF step [OF step [OF step [OF step [OF step [OF 0 1] 2] 3] 4] 5] 6] 7] 8])
qed

theorem tx_stream_preserved_witness:
  "t_given (tx_demo 8) = [7, 8, 9] \<and> t_sent (tx_demo 8) = [7]
    \<and> ring_bytes (t_buf (tx_demo 8)) (unat (t_in (tx_demo 8))) (unat (t_out (tx_demo 8))) @ t_rest (tx_demo 8) = [8, 9]"
proof -
  have "t_given (tx_demo 8) = [7, 8, 9]" "t_sent (tx_demo 8) = [7]"
    by (simp_all add: tx_demo_def tx_start_def)
  with tx_stream_preserved [OF tx_demo_reachable] show ?thesis by simp
qed

theorem tx_steps_in_bounds_witness:
  "t_pc (tx_demo 8) = Tx_copy 1 0 \<and> unat (t_in (tx_demo 8)) < length (t_buf (tx_demo 8)) \<and> t_rest (tx_demo 8) \<noteq> []"
proof -
  have "t_pc (tx_demo 8) = Tx_copy 1 0" by (simp add: tx_demo_def Let_def)
  with tx_steps_in_bounds [OF tx_demo_reachable] show ?thesis by auto
qed

section \<open>The steps of \<open>read\<close> and of the receive interrupt\<close>

datatype rx_pc = Rx_idle | Rx_copy u32 nat

text \<open>\<open>r_space\<close> is the space left in the caller's buffer, \<open>r_got\<close> what has been written there.\<close>

record rx_sys =
  r_buf :: "u8 list"
  r_in :: u32
  r_out :: u32
  r_pc :: rx_pc
  r_space :: u32
  r_got :: "u8 list"
  r_arrived :: "u8 list"

definition rx_start :: rx_sys where
  "rx_start = \<lparr>r_buf = replicate RING 0, r_in = 0, r_out = 0, r_pc = Rx_idle, r_space = 0, r_got = [], r_arrived = []\<rparr>"

definition rx_length :: "rx_sys \<Rightarrow> u32" where
  "rx_length c = (let n = rx_avail (r_in c) (r_out c) in if r_space c < n then r_space c else n)"

inductive rx_step :: "rx_sys \<Rightarrow> rx_sys \<Rightarrow> bool" where
  call: "r_pc c = Rx_idle \<Longrightarrow> rx_step c (c\<lparr>r_space := space\<rparr>)"
| sample: "r_pc c = Rx_idle \<Longrightarrow> 0 < sint (r_space c) \<Longrightarrow> rx_length c \<noteq> 0 \<Longrightarrow>
    rx_step c (c\<lparr>r_pc := Rx_copy (rx_length c) 0\<rparr>)"
| copy: "r_pc c = Rx_copy n k \<Longrightarrow> k < unat n \<Longrightarrow> rd (r_buf c) (unat (r_out c) + k) = Some b \<Longrightarrow>
    rx_step c (c\<lparr>r_got := r_got c @ [b], r_pc := Rx_copy n (k + 1)\<rparr>)"
| publish: "r_pc c = Rx_copy n (unat n) \<Longrightarrow>
    rx_step c (c\<lparr>r_out := (r_out c + n) mod BUF_LEN, r_pc := Rx_idle, r_space := r_space c - n\<rparr>)"
| interrupt: "(r_in c + 1) mod BUF_LEN \<noteq> r_out c \<Longrightarrow> wr (r_buf c) (unat (r_in c)) b = Some buf \<Longrightarrow>
    rx_step c (c\<lparr>r_buf := buf, r_in := (r_in c + 1) mod BUF_LEN, r_arrived := r_arrived c @ [b]\<rparr>)"

inductive rx_reachable :: "rx_sys \<Rightarrow> bool" where
  start: "rx_reachable rx_start"
| step: "rx_reachable c \<Longrightarrow> rx_step c d \<Longrightarrow> rx_reachable d"

abbreviation rx_ring :: "rx_sys \<Rightarrow> u8 list" where
  "rx_ring c \<equiv> ring_bytes (r_buf c) (unat (r_in c)) (unat (r_out c))"

text \<open>How many bytes of the ring the running copy has already delivered.\<close>

definition rx_copied :: "rx_sys \<Rightarrow> nat" where
  "rx_copied c = (case r_pc c of Rx_idle \<Rightarrow> 0 | Rx_copy n k \<Rightarrow> k)"

definition rx_inv :: "rx_sys \<Rightarrow> bool" where
  "rx_inv c \<longleftrightarrow> length (r_buf c) = RING \<and> unat (r_in c) < RING \<and> unat (r_out c) < RING
     \<and> (case r_pc c of Rx_idle \<Rightarrow> True
         | Rx_copy n k \<Rightarrow> k \<le> unat n \<and> unat n \<le> length (rx_ring c) \<and> unat (r_out c) + unat n \<le> RING)
     \<and> r_arrived c = r_got c @ drop (rx_copied c) (rx_ring c)"

lemma rx_inv_start: "rx_inv rx_start"
  by (simp add: rx_inv_def rx_start_def ring_bytes_def ring_used_def rx_copied_def)

lemma rx_length_ok:
  assumes "unat (r_in c) < RING" "unat (r_out c) < RING"
  shows "unat (rx_length c) \<le> length (rx_ring c)" and "unat (r_out c) + unat (rx_length c) \<le> RING"
proof -
  have "unat (rx_length c) \<le> unat (rx_avail (r_in c) (r_out c))"
    by (simp add: rx_length_def Let_def word_less_nat_alt)
  then show "unat (rx_length c) \<le> length (rx_ring c)" "unat (r_out c) + unat (rx_length c) \<le> RING"
    using rx_avail_ok(1,2) [OF assms] by simp_all
qed

lemma rx_copy_inv:
  assumes "rx_inv c" "r_pc c = Rx_copy n k" "k < unat n"
  shows "rx_inv (c\<lparr>r_got := r_got c @ [r_buf c ! (unat (r_out c) + k)], r_pc := Rx_copy n (k + 1)\<rparr>)"
proof -
  let ?i = "unat (r_in c)" and ?r = "unat (r_out c)"
  have b: "k < length (rx_ring c)" "?r + k < RING" using assms by (simp_all add: rx_inv_def)
  then have "drop k (rx_ring c) = rx_ring c ! k # drop (k + 1) (rx_ring c)" by (simp add: Cons_nth_drop_Suc)
  moreover have "rx_ring c ! k = r_buf c ! (?r + k)" using b by (simp add: nth_ring_bytes)
  ultimately show ?thesis using assms by (simp add: rx_inv_def rx_copied_def)
qed

lemma rx_publish_inv:
  assumes "rx_inv c" "r_pc c = Rx_copy n (unat n)"
  shows "rx_inv (c\<lparr>r_out := (r_out c + n) mod BUF_LEN, r_pc := Rx_idle, r_space := r_space c - n\<rparr>)"
proof -
  let ?i = "unat (r_in c)" and ?r = "unat (r_out c)"
  have b: "?i < RING" "?r < RING" "unat n \<le> ring_used ?i ?r" "?r + unat n \<le> RING"
    using assms by (simp_all add: rx_inv_def)
  have w: "unat ((r_out c + n) mod BUF_LEN) = (?r + unat n) mod RING"
    by (rule unat_wrap) (use b in simp)
  show ?thesis using assms w ring_advance [OF b(1-3), of "r_buf c"] by (simp add: rx_inv_def rx_copied_def)
qed

lemma rx_interrupt_inv:
  assumes "rx_inv c" "(r_in c + 1) mod BUF_LEN \<noteq> r_out c"
  shows "rx_inv (c\<lparr>r_buf := (r_buf c)[unat (r_in c) := b], r_in := (r_in c + 1) mod BUF_LEN, r_arrived := r_arrived c @ [b]\<rparr>)"
    (is "rx_inv ?c")
proof -
  let ?i = "unat (r_in c)" and ?r = "unat (r_out c)" and ?buf = "(r_buf c)[unat (r_in c) := b]"
  have l: "?i < RING" "?r < RING" "length (r_buf c) = RING" using assms(1) by (simp_all add: rx_inv_def)
  have w: "unat ((r_in c + 1) mod BUF_LEN) = (?i + 1) mod RING" by (rule unat_wrap_1) (rule l)
  then have "(?i + 1) mod RING \<noteq> ?r" using assms(2) by (simp add: word_unat_eq_iff)
  then have room: "ring_used ?i ?r + 1 < RING"
    using l by (auto simp: ring_used_def mod_RING split: if_splits)
  have "ring_bytes ?buf ((?i + 1) mod RING) ?r = ring_bytes ?buf ?i ?r @ take 1 [b]"
    by (rule ring_publish) (use l room in simp_all)
  also have "ring_bytes ?buf ?i ?r = rx_ring c"
    using ring_write_free [of ?i ?r 0 "r_buf c" b] l room by simp
  finally have app: "rx_ring ?c = rx_ring c @ [b]" by (simp add: w)
  have "rx_copied c \<le> length (rx_ring c)" using assms(1) by (auto simp: rx_inv_def rx_copied_def split: rx_pc.splits)
  then show ?thesis using assms(1) l w app
    by (auto simp: rx_inv_def rx_copied_def used_add [OF l(1,2) room] split: rx_pc.splits)
qed

lemma rx_step_inv: "rx_step c d \<Longrightarrow> rx_inv c \<Longrightarrow> rx_inv d"
proof (induction rule: rx_step.induct)
  case (call c space)
  then show ?case by (simp add: rx_inv_def rx_copied_def)
next
  case (sample c)
  then show ?case using rx_length_ok [of c] by (simp add: rx_inv_def rx_copied_def)
next
  case (copy c n k b)
  then show ?case using rx_copy_inv [of c n k] by (simp add: rd_Some_iff)
next
  case (publish c n)
  then show ?case by (intro rx_publish_inv)
next
  case (interrupt c b buf)
  then show ?case using rx_interrupt_inv [of c b] by (simp add: wr_Some_iff)
qed

text \<open>
  C11: In every reachable state of \<open>read\<close> and the receive interrupt, whatever the order of their
  steps, what has arrived is exactly what callers were given followed by what is in the ring
  and not yet copied: a byte arriving during a copy is neither lost nor delivered early.
\<close>

theorem rx_stream_preserved:
  assumes "rx_reachable c"
  shows "r_arrived c = r_got c @ drop (rx_copied c) (ring_bytes (r_buf c) (unat (r_in c)) (unat (r_out c)))"
proof -
  have "rx_inv c" using assms by (induction rule: rx_reachable.induct) (auto intro: rx_inv_start rx_step_inv)
  then show ?thesis by (simp add: rx_inv_def)
qed

theorem rx_stream_preserved_witness:
  "rx_reachable (rx_start\<lparr>r_buf := (replicate RING 0)[0 := 65], r_in := 1, r_arrived := [65], r_space := 4, r_pc := Rx_copy 1 0\<rparr>)
    \<and> take 1 (ring_bytes ((replicate RING 0)[0 := 65]) (unat (1 :: u32)) 0) = [65 :: u8]"
proof -
  let ?a = "rx_start\<lparr>r_buf := (replicate RING 0)[0 := 65], r_in := 1, r_arrived := [65]\<rparr>"
  let ?b = "?a\<lparr>r_space := 4\<rparr>"
  let ?c = "?b\<lparr>r_pc := Rx_copy 1 0\<rparr>"
  have a: "rx_step rx_start ?a"
    using rx_step.interrupt [of rx_start 65] by (simp add: rx_start_def wr_def)
  have b: "rx_step ?a ?b" by (rule rx_step.call) (simp add: rx_start_def)
  have c: "rx_step ?b ?c"
    using rx_step.sample [of ?b] by (simp add: rx_start_def rx_length_def rx_avail_def)
  have r: "rx_reachable ?c"
    by (rule rx_reachable.step [OF rx_reachable.step [OF rx_reachable.step [OF rx_reachable.start a] b] c])
  from rx_stream_preserved [OF r] r show ?thesis by (simp add: rx_start_def rx_copied_def ring_used_def)
qed

end
