(* ===== verification/UartIO.thy ===== *)
theory UartIO
  imports UartRing
begin

text \<open>
  What the JTAG UART driver's operations do to the two byte streams: the halves of the
  interrupt handler, \<open>read\<close> and \<open>write\<close> in non-blocking mode, and the polled \<open>write\<close>.
  \<open>tx_pending\<close> and \<open>rx_pending\<close> are the bytes in the two rings.
\<close>

section \<open>Shared facts\<close>

named_theorems uart_simps

lemma irq_bracket:
  "alt_irq_enable_all (cpu_status s) (put_control hw v ((snd (alt_irq_disable_all s))\<lparr>u_irq_enable := v\<rparr>))
    = put_control hw v (s\<lparr>u_irq_enable := v\<rparr>)"
  for s :: "('e, 'h, 'm) uart_state_scheme"
  by (cases s) (simp add: alt_irq_enable_all_def alt_irq_disable_all_def put_control_def Let_def)

lemma u_irq_enable_disabled [simp]: "u_irq_enable (snd (alt_irq_disable_all s)) = u_irq_enable s"
  by (simp add: alt_irq_disable_all_def Let_def)

lemma fst_disable_all [simp]: "fst (alt_irq_disable_all s) = cpu_status s"
  by (simp add: alt_irq_disable_all_def Let_def)

lemma enable_transmit_eq:
  "enable_transmit hw s = put_control hw (u_irq_enable s OR 2) (s\<lparr>u_irq_enable := u_irq_enable s OR 2\<rparr>)"
  using irq_bracket [of s hw "u_irq_enable s OR 2"] by (simp add: enable_transmit_def split_beta Let_def put_control_def)

lemma wf_put_control [uart_simps]: "wf_uart (put_control hw v s) = wf_uart s"
  by (simp add: wf_uart_def put_control_def)

lemma wf_irq_enable [uart_simps]: "wf_uart (s\<lparr>u_irq_enable := v\<rparr>) = wf_uart s"
  by (simp add: wf_uart_def)

lemma wf_hw [uart_simps]: "wf_uart (s\<lparr>u_hw := h\<rparr>) = wf_uart s"
  by (simp add: wf_uart_def)

lemma tx_pending_put_control [uart_simps]: "tx_pending (put_control hw v s) = tx_pending s"
  by (simp add: tx_pending_def put_control_def)

lemma tx_pending_irq_enable [uart_simps]: "tx_pending (s\<lparr>u_irq_enable := v\<rparr>) = tx_pending s"
  by (simp add: tx_pending_def)

lemma tx_pending_hw [uart_simps]: "tx_pending (s\<lparr>u_hw := h\<rparr>) = tx_pending s"
  by (simp add: tx_pending_def)

lemma rx_pending_put_control [uart_simps]: "rx_pending (put_control hw v s) = rx_pending s"
  by (simp add: rx_pending_def put_control_def)

lemma rx_pending_irq_enable [uart_simps]: "rx_pending (s\<lparr>u_irq_enable := v\<rparr>) = rx_pending s"
  by (simp add: rx_pending_def)

lemma rx_pending_hw [uart_simps]: "rx_pending (s\<lparr>u_hw := h\<rparr>) = rx_pending s"
  by (simp add: rx_pending_def)

lemma rx_pending_tx [uart_simps]:
  "rx_pending (s\<lparr>u_tx_out := w\<rparr>) = rx_pending s" "rx_pending (s\<lparr>u_tx_buf := b, u_tx_in := w\<rparr>) = rx_pending s"
  by (simp_all add: rx_pending_def)

lemma get_control_eq: "get_control hw s = (fst (hw_control hw (u_hw s)), s\<lparr>u_hw := snd (hw_control hw (u_hw s))\<rparr>)"
  by (simp add: get_control_def split_beta)

lemma high_half: "(drop_bit 16 c AND 65535 :: u32) = drop_bit 16 c" for c :: u32
proof (rule bit_word_eqI)
  fix n assume "n < LENGTH(32)"
  have "(drop_bit 16 c AND 65535 :: u32) = take_bit 16 (drop_bit 16 c)"
    by (simp add: take_bit_eq_mask mask_eq_exp_minus_1)
  then show "bit (drop_bit 16 c AND 65535) n = bit (drop_bit 16 c) n"
    using bit_imp_le_length [of c "16 + n"] by (auto simp: bit_simps)
qed

lemma control_space: "unat (drop_bit 16 (c AND 0xFFFF0000) :: u32) = unat c div 65536" for c :: u32
proof -
  have "drop_bit 16 (c AND 0xFFFF0000) = drop_bit 16 c" by (simp add: high_half)
  then show ?thesis by (simp only: unat_drop_bit_eq drop_bit_eq_div) (simp add: unat_div)
qed

section \<open>The transmit half of the interrupt handler\<close>

lemma wf_tx_out: "wf_uart s \<Longrightarrow> unat w = (k mod RING) \<Longrightarrow> wf_uart (s\<lparr>u_tx_out := w\<rparr>)"
  by (simp add: wf_uart_def)

lemma tx_pending_out:
  assumes "wf_uart s" "unat w = (unat (u_tx_out s) + m) mod RING" "m \<le> length (tx_pending s)"
  shows "tx_pending (s\<lparr>u_tx_out := w\<rparr>) = drop m (tx_pending s)"
  using assms ring_advance [of "unat (u_tx_in s)" "unat (u_tx_out s)" m "u_tx_buf s"]
  by (simp add: tx_pending_def wf_uart_def)

lemma isr_transmit_ok:
  fixes s :: "('e, 'h, 'm) uart_state_scheme" and hw :: "'h uart_hw" and control :: u32
  assumes "wf_uart s"
  defines "n \<equiv> unat control div 65536"
  defines "h \<equiv> fold (hw_put_data hw) (take n (tx_pending s)) (u_hw s)"
  defines "en \<equiv> u_irq_enable s AND NOT 2"
  shows "\<exists>s'. isr_transmit hw control s = Some s' \<and> wf_uart s'
    \<and> tx_pending s' = drop n (tx_pending s) \<and> rx_pending s' = rx_pending s
    \<and> (u_hw s', u_irq_enable s') = (if length (tx_pending s) < n
          then (snd (hw_control hw (hw_put_control hw en h)), en) else (h, u_irq_enable s))"
proof -
  let ?space = "drop_bit 16 (control AND 0xFFFF0000) :: u32"
  have sp: "unat ?space = n" by (simp only: control_space n_def)
  define m where "m = min n (length (tx_pending s))"
  have "m = min (unat ?space) (length (tx_pending s))" by (simp only: sp m_def)
  from tx_loop_ok [OF assms(1) this, of hw] obtain w where
    w: "tx_loop hw ?space s = Some (?space - of_nat m,
      s\<lparr>u_hw := fold (hw_put_data hw) (take m (tx_pending s)) (u_hw s), u_tx_out := w\<rparr>)"
      "unat w = (unat (u_tx_out s) + m) mod RING" by (elim exE conjE)
  have tk: "take m (tx_pending s) = take n (tx_pending s)" "drop m (tx_pending s) = drop n (tx_pending s)"
    by (auto simp: m_def min_def)
  have m: "m \<le> length (tx_pending s)" by (simp add: m_def)
  have hm: "fold (hw_put_data hw) (take m (tx_pending s)) (u_hw s) = h" by (simp only: tk(1) h_def)
  note out = wf_tx_out [OF assms(1) w(2)] tx_pending_out [OF assms(1) w(2) m]
    rx_pending_tx(1) [of w s]
  have "wf_uart (s\<lparr>u_hw := h, u_tx_out := w\<rparr>)"
    "tx_pending (s\<lparr>u_hw := h, u_tx_out := w\<rparr>) = drop n (tx_pending s)"
    using out(1,2) tk(2) by (simp_all add: wf_uart_def tx_pending_def)
  note out' = this
  have "m \<le> unat ?space" unfolding sp by (simp add: m_def)
  then have "unat (?space - of_nat m) = n - m"
    using unat_sub [of "of_nat m" ?space] sp unat_u32_lt [of ?space]
    by (simp add: word_le_nat_alt unat_u32_small)
  then have left: "0 < ?space - of_nat m \<longleftrightarrow> length (tx_pending s) < n"
    unfolding word_less_nat_alt by (auto simp: m_def)
  show ?thesis
    using w(1) [unfolded hm] out out' left tk(2)
    by (cases "length (tx_pending s) < n")
      (simp_all add: isr_transmit_def get_control_eq uart_simps en_def put_control_def)
qed

text \<open>
  When the device reports room for \<open>n\<close> bytes, the transmit half of the interrupt handler
  hands it the \<open>n\<close> oldest bytes of the transmit ring (all of them if there are fewer), in
  order, removes exactly these from the ring, and masks the transmit interrupt if room is left.
\<close>

theorem isr_transmit_drains:
  fixes s :: "('e, 'h, 'm) uart_state_scheme" and hw :: "'h uart_hw" and control :: u32
  assumes "wf_uart s"
  defines "n \<equiv> unat control div 65536"
  defines "h \<equiv> fold (hw_put_data hw) (take n (tx_pending s)) (u_hw s)"
  defines "en \<equiv> u_irq_enable s AND NOT 2"
  shows "\<exists>s'. isr_transmit hw control s = Some s' \<and> wf_uart s'
    \<and> tx_pending s' = drop n (tx_pending s) \<and> rx_pending s' = rx_pending s
    \<and> (u_hw s', u_irq_enable s') = (if length (tx_pending s) < n
          then (snd (hw_control hw (hw_put_control hw en h)), en) else (h, u_irq_enable s))"
  unfolding n_def h_def en_def by (rule isr_transmit_ok [OF assms(1)])

text \<open>A board whose device always has room for five bytes and logs what it is given.\<close>

definition demo_hw :: "u32 \<Rightarrow> u8 list uart_hw" where
  "demo_hw control = \<lparr>hw_data = (\<lambda>h. (0, h)), hw_control = (\<lambda>h. (control, h)),
     hw_put_data = (\<lambda>c h. h @ [c]), hw_put_control = (\<lambda>_ h. h)\<rparr>"

definition demo_uart :: "u8 list \<Rightarrow> u8 list \<Rightarrow> (unit, u8 list) uart_state" where
  "demo_uart rx tx = \<lparr>cpu_status = 1, cpu_ienable = 0, alt_irq_active = 0, alt_priority_mask = 0, alt_irq = [],
     alt_tick_rate = 0, tick_count = 0, alarm_list = 0, links = (\<lambda>_. None), alarms = (\<lambda>_. None), env = (),
     u_timeout = 0, u_irq_enable = 3, u_host_inactive = 0,
     u_rx_in = of_nat (length rx), u_rx_out = 0, u_tx_in = of_nat (length tx), u_tx_out = 0,
     u_rx_buf = rx @ replicate (RING - length rx) 0, u_tx_buf = tx @ replicate (RING - length tx) 0,
     u_alarm = 0, u_hw = []\<rparr>"

lemma demo_uart_wf: "length rx < RING \<Longrightarrow> length tx < RING \<Longrightarrow> wf_uart (demo_uart rx tx)"
  by (simp add: wf_uart_def demo_uart_def unat_u32_small)

lemma ring_bytes_flat: "length xs < RING \<Longrightarrow> ring_bytes (xs @ ys) (length xs) 0 = xs"
  by (rule nth_equalityI) (simp_all add: ring_used_def nth_ring_bytes nth_append)

lemma demo_uart_pending:
  "length rx < RING \<Longrightarrow> rx_pending (demo_uart rx tx) = rx"
  "length tx < RING \<Longrightarrow> tx_pending (demo_uart rx tx) = tx"
  by (simp_all add: rx_pending_def tx_pending_def demo_uart_def unat_u32_small ring_bytes_flat)

theorem isr_transmit_drains_witness:
  "\<exists>s'. isr_transmit (demo_hw 0) 0x20000 (demo_uart [] [7, 8, 9]) = Some s' \<and> tx_pending s' = [9] \<and> u_hw s' = [7, 8]"
  using isr_transmit_drains [of "demo_uart [] [7, 8, 9]" "demo_hw 0" "0x20000"]
  by (auto simp: demo_uart_wf demo_uart_pending demo_hw_def) (simp add: demo_uart_def)

section \<open>Non-blocking write\<close>

lemma drop_same_iff: "n \<le> length xs \<Longrightarrow> drop n xs = xs \<longleftrightarrow> n = 0"
proof
  assume le: "n \<le> length xs" and "drop n xs = xs"
  then have "length xs - n = length xs" by (metis length_drop)
  with le show "n = 0" by arith
qed simp

lemma write_nonblocking_ok:
  fixes s :: "('e, 'h, 'm) uart_state_scheme" and bytes :: "u8 list"
  assumes "wf_uart s" "length bytes < 2 ^ 31" "flags AND 0x4000 \<noteq> 0"
  defines "m \<equiv> min (RING - 1 - length (tx_pending s)) (length bytes)"
  shows "\<exists>s'. altera_avalon_jtag_uart_write ignore_full hw idle bytes flags s
      = Some (if m = 0 then - 11 else int m, s') \<and> wf_uart s'
    \<and> tx_pending s' = tx_pending s @ take m bytes \<and> rx_pending s' = rx_pending s
    \<and> u_irq_enable s' = u_irq_enable s OR 2 \<and> u_hw s' = hw_put_control hw (u_irq_enable s OR 2) (u_hw s)"
proof -
  obtain out b i where f: "write_fill s 0 bytes = Some (out, s\<lparr>u_tx_buf := b, u_tx_in := i\<rparr>, drop m bytes)"
    "wf_uart (s\<lparr>u_tx_buf := b, u_tx_in := i\<rparr>)"
    "tx_pending (s\<lparr>u_tx_buf := b, u_tx_in := i\<rparr>) = tx_pending s @ take m bytes"
    using write_fill_ok [OF assms(1,2), of 0] unfolding m_def by (elim exE conjE)
  let ?s = "s\<lparr>u_tx_buf := b, u_tx_in := i\<rparr>"
  have "write_loop hw idle flags 0 s bytes = Some (enable_transmit hw ?s, drop m bytes)"
    using f(1) assms(3) by (subst write_loop.simps) (simp add: Let_def)
  moreover have "drop m bytes = bytes \<longleftrightarrow> m = 0" by (rule drop_same_iff) (simp add: m_def)
  moreover have "int (length bytes) - int (length (drop m bytes)) = int m" by (simp add: m_def)
  ultimately have w: "altera_avalon_jtag_uart_write ignore_full hw idle bytes flags s
      = Some (if m = 0 then - 11 else int m, enable_transmit hw ?s)"
    using assms(3) by (simp add: altera_avalon_jtag_uart_write_def)
  show ?thesis unfolding w
    using f(2,3) by (simp add: enable_transmit_eq uart_simps) (simp add: put_control_def)
qed

text \<open>
  A non-blocking \<open>write\<close> appends to the transmit ring as many of its bytes as fit beside
  what is pending, in order and without touching what is pending, unmasks the transmit
  interrupt, and returns their number; when none fits (or none is given) it returns
  \<open>-EWOULDBLOCK\<close>.
\<close>

theorem uart_write_nonblocking:
  fixes s :: "('e, 'h, 'm) uart_state_scheme" and bytes :: "u8 list"
  assumes "wf_uart s" "length bytes < 2 ^ 31" "flags AND 0x4000 \<noteq> 0"
  defines "m \<equiv> min (RING - 1 - length (tx_pending s)) (length bytes)"
  shows "\<exists>s'. altera_avalon_jtag_uart_write ignore_full hw idle bytes flags s
      = Some (if m = 0 then - 11 else int m, s') \<and> wf_uart s'
    \<and> tx_pending s' = tx_pending s @ take m bytes \<and> rx_pending s' = rx_pending s
    \<and> u_irq_enable s' = u_irq_enable s OR 2 \<and> u_hw s' = hw_put_control hw (u_irq_enable s OR 2) (u_hw s)"
  unfolding m_def by (rule write_nonblocking_ok [OF assms(1-3)])

theorem uart_write_nonblocking_witness:
  "\<exists>s'. altera_avalon_jtag_uart_write False (demo_hw 0) id [5, 6] 0x4000 (demo_uart [] [7]) = Some (2, s')
    \<and> tx_pending s' = [7, 5, 6]"
  using uart_write_nonblocking [of "demo_uart [] [7]" "[5, 6]" "0x4000" False "demo_hw 0" id]
  by (auto simp: demo_uart_wf demo_uart_pending)

section \<open>Reading\<close>

lemma wf_rx_out: "wf_uart s \<Longrightarrow> unat w = (k mod RING) \<Longrightarrow> wf_uart (s\<lparr>u_rx_out := w\<rparr>)"
  by (simp add: wf_uart_def)

lemma rx_pending_out:
  assumes "wf_uart s" "unat w = (unat (u_rx_out s) + m) mod RING" "m \<le> length (rx_pending s)"
  shows "rx_pending (s\<lparr>u_rx_out := w\<rparr>) = drop m (rx_pending s)"
  using assms ring_advance [of "unat (u_rx_in s)" "unat (u_rx_out s)" m "u_rx_buf s"]
  by (simp add: rx_pending_def wf_uart_def)

lemma sint_pos_u32: "0 < sint x \<Longrightarrow> 0 < unat x \<and> unat x < 2 ^ 31" for x :: u32
proof -
  assume pos: "0 < sint x"
  then have "\<not> 2 ^ 31 \<le> unat x" unfolding sint_u32_neg [symmetric] by simp
  then have "unat x < 2 ^ 31" by simp
  moreover from this have "sint x = int (unat x)" by (rule sint_u32_small)
  ultimately show ?thesis using pos by linarith
qed

text \<open>A copy that does not wrap takes the oldest bytes.\<close>

lemma copy_from_ring:
  assumes "length buf = RING" "i < RING" "r < RING" "r + n \<le> RING" "n \<le> ring_used i r"
  shows "copy_from buf r n = Some (take n (ring_bytes buf i r))"
proof -
  have "take n (drop r buf) = take n (ring_bytes buf i r)"
  proof (rule nth_equalityI)
    show "length (take n (drop r buf)) = length (take n (ring_bytes buf i r))" using assms by simp
    fix k assume "k < length (take n (drop r buf))"
    then have "k < n" by simp
    then show "take n (drop r buf) ! k = take n (ring_bytes buf i r) ! k"
      using assms by (simp add: nth_ring_bytes)
  qed
  then show ?thesis using assms by (simp add: copy_from_def)
qed

text \<open>The inner loop of \<open>read\<close> takes what is there, up to the space it is given.\<close>

lemma read_available_ok:
  fixes s :: "('e, 'h, 'm) uart_state_scheme"
  assumes "wf_uart s" "0 < unat space" "unat space < 2 ^ 31"
  defines "m \<equiv> min (unat space) (length (rx_pending s))"
  shows "\<exists>w left. read_available s space got = Some (u_rx_in s, s\<lparr>u_rx_out := w\<rparr>, left, got @ take m (rx_pending s))
    \<and> unat w = (unat (u_rx_out s) + m) mod RING \<and> unat left = unat space - m"
  using assms(1-3) unfolding m_def
proof (induction "length (rx_pending s)" arbitrary: s space got rule: less_induct)
  case less
  note w = less.prems(1) [unfolded wf_uart_def]
  let ?i = "unat (u_rx_in s)" and ?r = "unat (u_rx_out s)" and ?a = "rx_avail (u_rx_in s) (u_rx_out s)"
  let ?L = "length (rx_pending s)"
  have a: "unat ?a \<le> ?L" "?r + unat ?a \<le> RING" "?a = 0 \<longleftrightarrow> ?L = 0"
    using rx_avail_ok [of "u_rx_in s" "u_rx_out s"] w by (simp_all add: rx_pending_def)
  show ?case
  proof (cases "?a = 0")
    case True
    then have "read_available s space got = Some (u_rx_in s, s, space, got)"
      by (subst read_available.simps) (simp add: Let_def)
    then show ?thesis using True a(3) w by (intro exI [of _ "u_rx_out s"] exI [of _ space]) simp
  next
    case False
    define n where "n = (if space < ?a then space else ?a)"
    have n: "unat n = min (unat space) (unat ?a)" by (simp add: n_def word_less_nat_alt)
    have npos: "0 < unat n" using False less.prems(2) unat_eq_0 [of ?a] n by simp
    have nL: "unat n \<le> ?L" "?r + unat n \<le> RING" using n a by simp_all
    define v where "v = (u_rx_out s + n) mod BUF_LEN"
    have v: "unat v = (?r + unat n) mod RING"
      unfolding v_def by (rule unat_wrap) (use nL(2) in simp)
    let ?s = "s\<lparr>u_rx_out := v\<rparr>" and ?got = "got @ take (unat n) (rx_pending s)"
    have cp: "copy_from (u_rx_buf s) ?r (unat n) = Some (take (unat n) (rx_pending s))"
      unfolding rx_pending_def by (rule copy_from_ring) (use w nL in \<open>simp_all add: rx_pending_def\<close>)
    have left: "unat (space - n) = unat space - unat n"
      by (rule unat_sub) (simp add: word_le_nat_alt n)
    have ps: "rx_pending ?s = drop (unat n) (rx_pending s)" by (rule rx_pending_out [OF less.prems(1) v nL(1)])
    have ws: "wf_uart ?s" by (rule wf_rx_out [OF less.prems(1) v])
    have step: "read_available s space got = (if 0 < sint (space - n) then read_available ?s (space - n) ?got
        else Some (u_rx_in s, ?s, space - n, ?got))"
      using False cp by (subst read_available.simps) (simp add: Let_def n_def [symmetric] v_def [symmetric])
    have sg: "0 < sint (space - n) \<longleftrightarrow> unat n < unat space"
      using sint_u32_small [of "space - n"] left less.prems(3) by auto
    show ?thesis
    proof (cases "unat n < unat space")
      case True
      have "length (rx_pending ?s) < ?L" using ps npos nL(1) by simp
      moreover have "0 < unat (space - n)" "unat (space - n) < 2 ^ 31" using True left less.prems(3) by simp_all
      ultimately obtain u lf where
        u: "read_available ?s (space - n) ?got = Some (u_rx_in ?s, ?s\<lparr>u_rx_out := u\<rparr>, lf,
            ?got @ take (min (unat (space - n)) (length (rx_pending ?s))) (rx_pending ?s))"
          "unat u = (unat (u_rx_out ?s) + min (unat (space - n)) (length (rx_pending ?s))) mod RING"
          "unat lf = unat (space - n) - min (unat (space - n)) (length (rx_pending ?s))"
        using less.hyps [OF _ ws, of "space - n" ?got] by (elim meta_impE exE conjE)
      let ?m = "min (unat (space - n)) (length (rx_pending ?s))"
      have m: "min (unat space) ?L = unat n + ?m" using ps left nL(1) True by simp
      have "unat u = (?r + (unat n + ?m)) mod RING"
        unfolding u(2) by (simp add: v mod_add_left_eq add.assoc)
      moreover have "unat lf = unat space - (unat n + ?m)" using u(3) left by simp
      moreover have "read_available s space got = Some (u_rx_in s, s\<lparr>u_rx_out := u\<rparr>, lf,
          got @ take (unat n + ?m) (rx_pending s))"
        using step sg True u(1) ps by (simp add: take_add)
      ultimately show ?thesis unfolding m by blast
    next
      case no: False
      then have m: "min (unat space) ?L = unat n" using n nL(1) by simp
      have "read_available s space got = Some (u_rx_in s, ?s, space - n, ?got)" using step sg no by simp
      then show ?thesis unfolding m using v left by blast
    qed
  qed
qed

lemma read_pending_ok:
  fixes s :: "('e, 'h, 'm) uart_state_scheme" and space :: u32
  assumes "wf_uart s" "0 < sint space" "rx_pending s \<noteq> []"
  defines "m \<equiv> min (unat space) (length (rx_pending s))"
  shows "\<exists>s'. altera_avalon_jtag_uart_read hw idle space flags s = Some (int m, take m (rx_pending s), s')
    \<and> wf_uart s' \<and> rx_pending s' = drop m (rx_pending s) \<and> tx_pending s' = tx_pending s
    \<and> u_irq_enable s' = u_irq_enable s OR 1 \<and> u_hw s' = hw_put_control hw (u_irq_enable s OR 1) (u_hw s)"
proof -
  have sp: "0 < unat space" "unat space < 2 ^ 31"
    using sint_pos_u32 [OF assms(2)] by simp_all
  obtain w left where r: "read_available s space [] = Some (u_rx_in s, s\<lparr>u_rx_out := w\<rparr>, left, take m (rx_pending s))"
    "unat w = (unat (u_rx_out s) + m) mod RING"
    using read_available_ok [OF assms(1) sp, of "[]"] unfolding m_def append_Nil by (elim exE conjE)
  have m: "0 < m" "m \<le> length (rx_pending s)" using sp(1) assms(3) by (simp_all add: m_def)
  let ?s = "s\<lparr>u_rx_out := w\<rparr>" and ?e = "u_irq_enable s OR 1"
  have ne: "take m (rx_pending s) \<noteq> []" "length (take m (rx_pending s)) = m" using m assms(3) by simp_all
  have "read_loop idle flags s space = Some (?s, take m (rx_pending s))"
    using r(1) ne(1) assms(2) by (subst read_loop.simps) simp
  then have read: "altera_avalon_jtag_uart_read hw idle space flags s
      = Some (int m, take m (rx_pending s), put_control hw ?e (?s\<lparr>u_irq_enable := ?e\<rparr>))"
    using irq_bracket [of ?s hw ?e] ne
    by (simp add: altera_avalon_jtag_uart_read_def split_beta Let_def put_control_def)
  show ?thesis unfolding read
    using wf_rx_out [OF assms(1) r(2)] rx_pending_out [OF assms(1) r(2) m(2)]
    by (simp add: uart_simps) (simp add: put_control_def tx_pending_def)
qed

text \<open>
  \<open>read\<close> with bytes pending does not wait: it returns the oldest bytes of the receive ring,
  as many as there are and as the caller has space for, in order, removes exactly these from
  the ring, and unmasks the receive interrupt.
\<close>

theorem uart_read_takes_pending:
  fixes s :: "('e, 'h, 'm) uart_state_scheme" and space :: u32
  assumes "wf_uart s" "0 < sint space" "rx_pending s \<noteq> []"
  defines "m \<equiv> min (unat space) (length (rx_pending s))"
  shows "\<exists>s'. altera_avalon_jtag_uart_read hw idle space flags s = Some (int m, take m (rx_pending s), s')
    \<and> wf_uart s' \<and> rx_pending s' = drop m (rx_pending s) \<and> tx_pending s' = tx_pending s
    \<and> u_irq_enable s' = u_irq_enable s OR 1 \<and> u_hw s' = hw_put_control hw (u_irq_enable s OR 1) (u_hw s)"
  unfolding m_def by (rule read_pending_ok [OF assms(1-3)])

theorem uart_read_takes_pending_witness:
  "\<exists>s'. altera_avalon_jtag_uart_read (demo_hw 0) id 2 0 (demo_uart [4, 5, 6] []) = Some (2, [4, 5], s')
    \<and> rx_pending s' = [6]"
  using uart_read_takes_pending [of "demo_uart [4, 5, 6] []" 2 "demo_hw 0" id 0]
  by (auto simp: demo_uart_wf demo_uart_pending)

section \<open>The receive half of the interrupt handler\<close>

text \<open>
  What the data register delivers to a receiver with \<open>room\<close>: the bytes up to the first
  value without \<open>RVALID\<close>, the last value read, and the device afterwards.
\<close>

primrec device_bytes :: "'h uart_hw \<Rightarrow> nat \<Rightarrow> u32 \<Rightarrow> 'h \<Rightarrow> u8 list \<times> u32 \<times> 'h" where
  "device_bytes hw 0 data h = ([], data, h)"
| "device_bytes hw (Suc room) data h =
     (let (d, h) = hw_data hw h in
      if d AND 0x8000 = 0 then ([], d, h)
      else let (bs, d', h) = device_bytes hw room d h in (ucast (d AND 0xFF) # bs, d', h))"

lemma device_bytes_numeral:
  "device_bytes hw (numeral k) data h =
     (let (d, h) = hw_data hw h in
      if d AND 0x8000 = 0 then ([], d, h)
      else let (bs, d', h) = device_bytes hw (pred_numeral k) d h in (ucast (d AND 0xFF) # bs, d', h))"
  by (simp add: numeral_eq_Suc)

lemma rx_push:
  assumes "wf_uart s" "length (rx_pending s) < RING - 1"
    and "unat w = (unat (u_rx_in s) + 1) mod RING"
  shows "wf_uart (s\<lparr>u_rx_buf := (u_rx_buf s)[unat (u_rx_in s) := c], u_rx_in := w\<rparr>)" (is "wf_uart ?s")
    and "rx_pending (s\<lparr>u_rx_buf := (u_rx_buf s)[unat (u_rx_in s) := c], u_rx_in := w\<rparr>) = rx_pending s @ [c]"
proof -
  note wf = assms(1) [unfolded wf_uart_def]
  show "wf_uart ?s" using wf assms(3) by (simp add: wf_uart_def)
  let ?i = "unat (u_rx_in s)" and ?r = "unat (u_rx_out s)"
  have "ring_bytes ((u_rx_buf s)[?i := c]) ((?i + 1) mod RING) ?r
      = ring_bytes ((u_rx_buf s)[?i := c]) ?i ?r @ take 1 [c]"
    by (rule ring_publish) (use wf assms(2) in \<open>simp_all add: rx_pending_def\<close>)
  also have "ring_bytes ((u_rx_buf s)[?i := c]) ?i ?r = ring_bytes (u_rx_buf s) ?i ?r"
    using ring_write_free [of ?i ?r 0 "u_rx_buf s" c] used_bound [of ?i ?r] wf by simp
  finally show "rx_pending ?s = rx_pending s @ [c]" by (simp add: rx_pending_def assms(3))
qed

lemma rx_full:
  assumes "wf_uart s"
  shows "(u_rx_in s + 1) mod 0x800 = u_rx_out s \<longleftrightarrow> length (rx_pending s) = RING - 1"
proof -
  note wf = assms [unfolded wf_uart_def]
  have "unat ((u_rx_in s + 1) mod 0x800) = (unat (u_rx_in s) + 1) mod RING"
    by (rule unat_wrap_1) (use wf in simp)
  then have "(u_rx_in s + 1) mod 0x800 = u_rx_out s \<longleftrightarrow> (unat (u_rx_in s) + 1) mod RING = unat (u_rx_out s)"
    by (simp add: word_unat_eq_iff)
  also have "\<dots> \<longleftrightarrow> ring_used (unat (u_rx_in s)) (unat (u_rx_out s)) = RING - 1"
    using wf by (auto simp: ring_used_def mod_RING split: if_splits)
  finally show ?thesis by (simp add: rx_pending_def)
qed

text \<open>The receive loop stores what the device delivers, as long as the ring has room.\<close>

lemma rx_loop_ok:
  fixes s :: "('e, 'h, 'm) uart_state_scheme"
  assumes "wf_uart s" "room = RING - 1 - length (rx_pending s)" "device_bytes hw room data (u_hw s) = (bs, d, h)"
  shows "\<exists>s'. rx_loop hw data s = Some (d, s') \<and> wf_uart s' \<and> rx_pending s' = rx_pending s @ bs
    \<and> tx_pending s' = tx_pending s \<and> u_hw s' = h \<and> u_irq_enable s' = u_irq_enable s"
  using assms
proof (induction room arbitrary: s data bs)
  case 0
  have "length (rx_pending s) < RING"
    using 0(1) used_bound unfolding rx_pending_def wf_uart_def length_ring_bytes by blast
  then have "(u_rx_in s + 1) mod 0x800 = u_rx_out s" using rx_full [OF 0(1)] 0(2) by simp
  then have "rx_loop hw data s = Some (data, s)" by (subst rx_loop.simps) simp
  then show ?case using 0 by simp
next
  case (Suc room)
  note wf = Suc.prems(1) [unfolded wf_uart_def]
  have room: "length (rx_pending s) < RING - 1" using Suc.prems(2) by simp
  then have go: "(u_rx_in s + 1) mod 0x800 \<noteq> u_rx_out s" using rx_full [OF Suc.prems(1)] by simp
  obtain v h1 where dv: "hw_data hw (u_hw s) = (v, h1)" by (cases "hw_data hw (u_hw s)")
  let ?t = "s\<lparr>u_hw := h1\<rparr>"
  show ?case
  proof (cases "v AND 0x8000 = 0")
    case True
    then have "rx_loop hw data s = Some (v, ?t)" using go dv by (subst rx_loop.simps) simp
    then show ?thesis using True Suc.prems(1,3) dv by (simp add: uart_simps)
  next
    case False
    let ?c = "ucast (v AND 0xFF) :: u8" and ?w = "(u_rx_in s + 1) mod 0x800"
    let ?u = "?t\<lparr>u_rx_buf := (u_rx_buf ?t)[unat (u_rx_in ?t) := ?c], u_rx_in := ?w\<rparr>"
    have iw: "unat ?w = (unat (u_rx_in ?t) + 1) mod RING"
      using unat_wrap_1 [of "u_rx_in s"] wf by simp
    have push: "wf_uart ?u" "rx_pending ?u = rx_pending s @ [?c]"
      using rx_push [of ?t ?w ?c] iw Suc.prems(1) room by (simp_all add: uart_simps)
    obtain bs' where bs': "device_bytes hw room v h1 = (bs', d, h)" "bs = ?c # bs'"
      using Suc.prems(3) dv False by (auto split: prod.splits)
    have "rx_loop hw data s = rx_loop hw v ?u"
      using go dv False wf by (subst rx_loop.simps) (simp add: wr_in)
    moreover have "tx_pending ?u = tx_pending s" "u_irq_enable ?u = u_irq_enable s" "u_hw ?u = h1"
      by (simp_all add: tx_pending_def)
    moreover have "room = RING - 1 - length (rx_pending ?u)" using push(2) Suc.prems(2) by simp
    ultimately show ?thesis
      using Suc.IH [OF push(1), of v bs'] bs' push(2) by simp
  qed
qed

text \<open>
  The receive half of the interrupt handler appends to the receive ring the bytes the
  device delivers, in order, until the device has no more or the ring is full, and never
  overwrites a byte not yet read; it masks the receive interrupt when it leaves bytes behind.
\<close>

theorem isr_receive_stores:
  fixes s :: "('e, 'h, 'm) uart_state_scheme"
  assumes "wf_uart s"
    and "device_bytes hw (RING - 1 - length (rx_pending s)) 0x10000 (u_hw s) = (bytes, last_data, h)"
  shows "\<exists>s'. isr_receive hw s = Some s' \<and> wf_uart s'
    \<and> rx_pending s' = rx_pending s @ bytes \<and> tx_pending s' = tx_pending s
    \<and> u_irq_enable s' = (if last_data AND 0xFFFF0000 \<noteq> 0 then u_irq_enable s AND NOT 1 else u_irq_enable s)"
  using rx_loop_ok [OF assms(1) refl assms(2)]
  by (auto simp: isr_receive_def get_control_eq uart_simps put_control_def)

text \<open>A device with a fixed list of bytes to deliver.\<close>

definition demo_input :: "u8 list uart_hw" where
  "demo_input = \<lparr>
     hw_data = (\<lambda>h. case h of [] \<Rightarrow> (0, []) | c # cs \<Rightarrow> (push_bit 16 (of_nat (length cs)) OR 0x8000 OR ucast c, cs)),
     hw_control = (\<lambda>h. (0, h)), hw_put_data = (\<lambda>_ h. h), hw_put_control = (\<lambda>_ h. h)\<rparr>"

theorem isr_receive_stores_witness:
  "\<exists>s'. isr_receive demo_input (demo_uart [1] []\<lparr>u_hw := [7, 8]\<rparr>) = Some s' \<and> rx_pending s' = [1, 7, 8]"
proof -
  let ?s = "demo_uart [1] []\<lparr>u_hw := [7, 8]\<rparr>"
  have p: "wf_uart ?s" "rx_pending ?s = [1]" by (simp_all add: uart_simps demo_uart_wf demo_uart_pending)
  have "device_bytes demo_input 2046 0x10000 [7, 8] = ([7, 8], 0, [])"
    by (simp add: device_bytes_numeral demo_input_def)
  then have "device_bytes demo_input (RING - 1 - length (rx_pending ?s)) 0x10000 (u_hw ?s) = ([7, 8], 0, [])"
    by (simp add: p)
  from isr_receive_stores [OF p(1) this] show ?thesis using p(2) by auto
qed

section \<open>The polled variant\<close>

text \<open>
  What the polled \<open>write\<close> relies on.  The device has space when its control register says so; a
  byte written then is taken, one written to a full device is lost; space that has been
  reported does not go away before the next byte; and \<open>wait\<close> bounds how often the control
  register still reports no space.  \<open>taken\<close> is the sequence of bytes the device took.
\<close>

definition has_space :: "'h uart_hw \<Rightarrow> 'h \<Rightarrow> bool" where
  "has_space hw h \<longleftrightarrow> fst (hw_control hw h) AND 0xFFFF0000 \<noteq> 0"

definition device_logs :: "'h uart_hw \<Rightarrow> ('h \<Rightarrow> u8 list) \<Rightarrow> bool" where
  "device_logs hw taken \<longleftrightarrow>
     (\<forall>h c. taken (hw_put_data hw c h) = (if has_space hw h then taken h @ [c] else taken h))
     \<and> (\<forall>h. taken (snd (hw_control hw h)) = taken h \<and> (has_space hw h \<longrightarrow> has_space hw (snd (hw_control hw h))))"

definition device_grants :: "'h uart_hw \<Rightarrow> ('h \<Rightarrow> nat) \<Rightarrow> bool" where
  "device_grants hw wait \<longleftrightarrow> (\<forall>h. \<not> has_space hw h \<longrightarrow> wait (snd (hw_control hw h)) < wait h)"

lemma device_logsD:
  assumes "device_logs hw taken" "hw_control hw h = (v, h1)"
  shows "taken h1 = taken h" "v AND 0xFFFF0000 \<noteq> 0 \<Longrightarrow> taken (hw_put_data hw c h1) = taken h @ [c]"
proof -
  have "taken (snd (hw_control hw h)) = taken h \<and> (has_space hw h \<longrightarrow> has_space hw (snd (hw_control hw h)))"
    using assms(1) by (simp add: device_logs_def)
  then show t: "taken h1 = taken h" and "v AND 0xFFFF0000 \<noteq> 0 \<Longrightarrow> taken (hw_put_data hw c h1) = taken h @ [c]"
    using assms by (simp_all add: device_logs_def has_space_def [of hw h])
qed

lemma device_grantsD:
  "device_grants hw wait \<Longrightarrow> hw_control hw h = (v, h1) \<Longrightarrow> v AND 0xFFFF0000 = 0 \<Longrightarrow> wait h1 < wait h"
  by (auto simp: device_grants_def has_space_def dest: spec [of _ h])

text \<open>What the accesses of the driver keep.\<close>

definition kept_by :: "('h \<Rightarrow> bool) \<Rightarrow> 'h uart_hw \<Rightarrow> bool" where
  "kept_by ok hw \<longleftrightarrow> (\<forall>h. ok h \<longrightarrow> ok (snd (hw_control hw h)) \<and> (\<forall>c. ok (hw_put_data hw c h)))"

lemma write_small_byte:
  assumes "device_logs hw taken" "device_grants hw wait" "kept_by ok hw"
  shows "ok h \<Longrightarrow> \<exists>h'. write_small_loop hw (c # cs) h = write_small_loop hw cs h' \<and> taken h' = taken h @ [c] \<and> ok h'"
proof (induction "wait h" arbitrary: h rule: less_induct)
  case less
  obtain v h1 where v: "hw_control hw h = (v, h1)" by (cases "hw_control hw h")
  note l = device_logsD [OF assms(1) v]
  have k: "ok h1" "ok (hw_put_data hw c h1)" using assms(3) less.prems v unfolding kept_by_def by (metis snd_conv)+
  show ?case
  proof (cases "v AND 0xFFFF0000 = 0")
    case True
    then have "wait h1 < wait h" by (rule device_grantsD [OF assms(2) v])
    moreover have "write_small_loop hw (c # cs) h = write_small_loop hw (c # cs) h1"
      using True v by (subst write_small_loop.simps) simp
    ultimately show ?thesis using less.hyps [of h1] l(1) k by metis
  next
    case False
    then have "write_small_loop hw (c # cs) h = write_small_loop hw cs (hw_put_data hw c h1)"
      using v by (subst write_small_loop.simps) simp
    then show ?thesis using l(2) [OF False] k by auto
  qed
qed

lemma write_small_keeps:
  assumes "device_logs hw taken" "device_grants hw wait" "kept_by ok hw" "ok h"
  shows "\<exists>h'. altera_avalon_jtag_uart_write_small hw bytes h = Some (int (length bytes), h')
    \<and> taken h' = taken h @ bytes \<and> ok h'"
proof -
  have "\<exists>h'. write_small_loop hw bytes h = Some h' \<and> taken h' = taken h @ bytes \<and> ok h'"
    using assms(4)
  proof (induction bytes arbitrary: h)
    case Nil
    then show ?case by (subst write_small_loop.simps) simp
  next
    case (Cons c cs)
    obtain h1 where "write_small_loop hw (c # cs) h = write_small_loop hw cs h1" "taken h1 = taken h @ [c]" "ok h1"
      using write_small_byte [OF assms(1-3) Cons.prems] by blast
    then show ?case using Cons.IH [of h1] by auto
  qed
  then show ?thesis by (auto simp: altera_avalon_jtag_uart_write_small_def)
qed

lemma write_small_ok:
  assumes "device_logs hw taken" "device_grants hw wait"
  shows "\<exists>h'. altera_avalon_jtag_uart_write_small hw bytes h = Some (int (length bytes), h')
    \<and> taken h' = taken h @ bytes"
  using write_small_keeps [OF assms, of "\<lambda>_. True"] by (simp add: kept_by_def)

text \<open>
  C32: The polled \<open>write\<close> on a device that loses what is written to it while it is full.  If the
  device grants space after finitely many polls, keeps it until it is used and takes a byte
  written then, \<open>write\<close> returns, reports the full length, and the device has taken exactly the
  caller's bytes, in order: none is written before the device has room for it.
\<close>

theorem write_small_sends_all:
  assumes "device_logs hw taken" "device_grants hw wait"
  shows "\<exists>h'. altera_avalon_jtag_uart_write_small hw bytes h = Some (int (length bytes), h')
    \<and> taken h' = taken h @ bytes"
  by (rule write_small_ok [OF assms])

text \<open>A device that has room for a byte every third time it is asked, and loses what comes before.\<close>

definition demo_slow :: "(nat \<times> u8 list) uart_hw" where
  "demo_slow = \<lparr>hw_data = (\<lambda>h. (0, h)),
     hw_control = (\<lambda>(n, l). (if n = 0 then 0x10000 else 0, n - 1, l)),
     hw_put_data = (\<lambda>c (n, l). if n = 0 then (2, l @ [c]) else (n, l)), hw_put_control = (\<lambda>_ h. h)\<rparr>"

lemma demo_slow_logs: "device_logs demo_slow snd" "device_grants demo_slow fst"
  by (auto simp: device_logs_def device_grants_def has_space_def demo_slow_def)

theorem write_small_sends_all_witness:
  "\<exists>h'. altera_avalon_jtag_uart_write_small demo_slow [104, 105] (2, []) = Some (2, h') \<and> snd h' = [104, 105]"
  using write_small_sends_all [OF demo_slow_logs, of "[104, 105]" "(2, [])"] by simp

lemma read_small_loop_ok:
  assumes "device_bytes hw room data h = (bs, d, h')" "flags AND 0x4000 \<noteq> 0 \<or> got @ bs \<noteq> []"
    and "int (length got) + int room = space \<or> (room = 0 \<and> space \<le> int (length got))"
  shows "read_small_loop hw space flags got h = Some (got @ bs, h')"
  using assms
proof (induction room arbitrary: got data h bs)
  case 0
  then show ?case by (subst read_small_loop.simps) auto
next
  case (Suc room)
  obtain v h1 where v: "hw_data hw h = (v, h1)" by (cases "hw_data hw h")
  show ?case
  proof (cases "v AND 0x8000 = 0")
    case True
    then show ?thesis using Suc.prems v by (subst read_small_loop.simps) (auto split: prod.splits)
  next
    case False
    obtain bs' where bs': "device_bytes hw room v h1 = (bs', d, h')" "bs = ucast (v AND 0xFF) # bs'"
      using Suc.prems(1) v False by (auto split: prod.splits)
    have "read_small_loop hw space flags got h = read_small_loop hw space flags (got @ [ucast (v AND 0xFF)]) h1"
      using False v Suc.prems(3) by (subst read_small_loop.simps) auto
    also have "\<dots> = Some ((got @ [ucast (v AND 0xFF)]) @ bs', h')"
      using Suc.prems(3) by (intro Suc.IH [OF bs'(1)]) auto
    finally show ?thesis using bs'(2) by simp
  qed
qed

text \<open>
  The polled \<open>read\<close> with space for \<open>n\<close> bytes, when a byte is there at once or the call is
  non-blocking, returns the bytes the device delivers up to the first gap, at most \<open>n\<close> of them
  and in order; when there is none (or no space was given) it is \<open>-EWOULDBLOCK\<close>.
\<close>

theorem read_small_outcomes:
  assumes "device_bytes hw (nat space) data h = (bytes, d, h')" "flags AND 0x4000 \<noteq> 0 \<or> bytes \<noteq> []"
  shows "altera_avalon_jtag_uart_read_small hw space flags h
    = Some (if bytes = [] then - 11 else int (length bytes), bytes, h') \<and> length bytes \<le> nat space"
proof -
  have "read_small_loop hw space flags [] h = Some ([] @ bytes, h')"
    by (rule read_small_loop_ok [OF assms(1)]) (use assms(2) in auto)
  moreover have "length bs \<le> n" if "device_bytes hw n data h = (bs, d, h')" for bs n data h
    using that by (induction n arbitrary: bs data h) (auto split: prod.splits if_splits)
  ultimately show ?thesis using assms by (auto simp: altera_avalon_jtag_uart_read_small_def)
qed

theorem read_small_outcomes_witness:
  "altera_avalon_jtag_uart_read_small demo_input 2 0 [7, 8, 9] = Some (2, [7, 8], [9])"
proof -
  have "device_bytes demo_input (nat 2) 0 [7, 8, 9] = ([7, 8], 0x18008, [9])"
    by (simp add: device_bytes_numeral demo_input_def)
  from read_small_outcomes [OF this, of 0] show ?thesis by simp
qed

end
