(* ===== verification/UartType.thy ===== *)
theory UartType
  imports UartIO
begin

text \<open>
  The type of the JTAG UART driver's state.  The operations of the driver, called by the
  program or by an interrupt, are the steps of a relation; whatever their order, and whatever
  interrupts come while one of them waits, the rings keep their size and the four indices
  stay inside them.
\<close>

section \<open>The driver's operations as steps\<close>

inductive uart_interrupt ::
  "'h uart_hw \<Rightarrow> ('e, 'h, 'm) uart_state_scheme \<Rightarrow> ('e, 'h, 'm) uart_state_scheme \<Rightarrow> bool"
  for hw :: "'h uart_hw" where
  device: "altera_avalon_jtag_uart_irq hw s = Some s' \<Longrightarrow> uart_interrupt hw s s'"
| timer: "altera_avalon_jtag_uart_timeout hw s = (next_time, s') \<Longrightarrow> uart_interrupt hw s s'"

inductive uart_op ::
  "bool \<Rightarrow> 'h uart_hw \<Rightarrow> (('e, 'h, 'm) uart_state_scheme \<Rightarrow> ('e, 'h, 'm) uart_state_scheme)
    \<Rightarrow> ('e, 'h, 'm) uart_state_scheme \<Rightarrow> ('e, 'h, 'm) uart_state_scheme \<Rightarrow> bool"
  for ignore_full :: bool and hw :: "'h uart_hw"
    and idle :: "('e, 'h, 'm) uart_state_scheme \<Rightarrow> ('e, 'h, 'm) uart_state_scheme" where
  op_start: "altera_avalon_jtag_uart_init hw sp isr timeout_fn ic irq s = Some s' \<Longrightarrow> uart_op ignore_full hw idle s s'"
| op_interrupt: "uart_interrupt hw s s' \<Longrightarrow> uart_op ignore_full hw idle s s'"
| op_read: "altera_avalon_jtag_uart_read hw idle space flags s = Some (rc, bytes, s') \<Longrightarrow> uart_op ignore_full hw idle s s'"
| op_write: "altera_avalon_jtag_uart_write ignore_full hw idle bytes flags s = Some (rc, s') \<Longrightarrow> length bytes < 2 ^ 31
    \<Longrightarrow> uart_op ignore_full hw idle s s'"
| op_ioctl: "altera_avalon_jtag_uart_ioctl req arg s = (rc, arg', s') \<Longrightarrow> uart_op ignore_full hw idle s s'"
| op_close: "altera_avalon_jtag_uart_close idle flags s = Some (rc, s') \<Longrightarrow> uart_op ignore_full hw idle s s'"

section \<open>Operations that leave the rings alone\<close>

definition rings :: "('e, 'h, 'm) uart_state_scheme \<Rightarrow> u8 list \<times> u32 \<times> u32 \<times> u8 list \<times> u32 \<times> u32" where
  "rings s = (u_rx_buf s, u_rx_in s, u_rx_out s, u_tx_buf s, u_tx_in s, u_tx_out s)"

lemma wf_rings: "rings s' = rings s \<Longrightarrow> wf_uart s' = wf_uart s"
  by (simp add: rings_def wf_uart_def)

lemma rings_isr_register: "alt_ic_isr_register ic irq isr ctx s = Some (rc, s') \<Longrightarrow> rings s' = rings s"
  by (auto simp: alt_ic_isr_register_def alt_iic_isr_register_def set_entry_def alt_ic_irq_enable_def
      alt_ic_irq_disable_def alt_irq_enable_def alt_irq_disable_def alt_irq_disable_all_def alt_irq_enable_all_def
      rings_def Let_def bind_eq_Some_conv split: if_splits)

lemma rings_alarm_start: "alt_alarm_start p n cb ctx s = Some (rc, s') \<Longrightarrow> rings s' = rings s"
  by (auto simp: alt_alarm_start_def alt_irq_disable_all_def alt_irq_enable_all_def put_alarm_def
      rings_def Let_def bind_eq_Some_conv split: if_splits)

lemma rings_control [simp]:
  "rings (put_control hw v s) = rings s" "rings (snd (get_control hw s)) = rings s"
  "rings (s\<lparr>u_irq_enable := v\<rparr>) = rings s" "rings (s\<lparr>u_host_inactive := v\<rparr>) = rings s"
  "rings (s\<lparr>u_timeout := v\<rparr>) = rings s" "rings (s\<lparr>u_hw := h\<rparr>) = rings s"
  by (simp_all add: rings_def put_control_def get_control_def split_beta)

lemma rings_init:
  "altera_avalon_jtag_uart_init hw sp isr timeout_fn ic irq s = Some s' \<Longrightarrow> rings s' = rings s"
  by (auto simp: altera_avalon_jtag_uart_init_def Let_def bind_eq_Some_conv
      dest!: rings_isr_register rings_alarm_start)

lemma rings_timeout: "altera_avalon_jtag_uart_timeout hw s = (n, s') \<Longrightarrow> rings s' = rings s"
  using rings_control(2) [of hw s]
  by (auto simp: altera_avalon_jtag_uart_timeout_def Let_def split_beta)

lemma rings_ioctl: "altera_avalon_jtag_uart_ioctl req arg s = (rc, arg', s') \<Longrightarrow> rings s' = rings s"
  by (auto simp: altera_avalon_jtag_uart_ioctl_def split: if_splits)

section \<open>The loops keep the type\<close>

lemma wf_receive:
  assumes "wf_uart s" "isr_receive hw s = Some s'"
  shows "wf_uart s'"
proof -
  obtain bs d h where "device_bytes hw (RING - 1 - length (rx_pending s)) 0x10000 (u_hw s) = (bs, d, h)"
    by (rule prod_cases3)
  from rx_loop_ok [OF assms(1) refl this] obtain t where t: "rx_loop hw 0x10000 s = Some (d, t)" "wf_uart t" by blast
  have "rings s' = rings t"
    using assms(2) unfolding isr_receive_def t(1) by (simp add: Let_def split: if_split_asm) (drule sym, simp)
  then show ?thesis using t(2) wf_rings by blast
qed

lemma wf_transmit:
  assumes "wf_uart s" "isr_transmit hw control s = Some s'"
  shows "wf_uart s'"
proof -
  let ?sp = "drop_bit 16 (control AND 0xFFFF0000) :: u32"
  obtain sp h w m where t: "tx_loop hw ?sp s = Some (sp, s\<lparr>u_hw := h, u_tx_out := w\<rparr>)" "unat w = m mod RING"
    using tx_loop_ok [OF assms(1) refl, of hw ?sp] by blast
  have "rings s' = rings (s\<lparr>u_hw := h, u_tx_out := w\<rparr>)"
    using assms(2) unfolding isr_transmit_def t(1) by (simp add: Let_def split: if_split_asm) (drule sym, simp)
  moreover have "wf_uart (s\<lparr>u_hw := h, u_tx_out := w\<rparr>)" using assms(1) t(2) by (simp add: wf_uart_def)
  ultimately show ?thesis using wf_rings by blast
qed

lemma wf_irq:
  fixes s :: "('e, 'h, 'm) uart_state_scheme"
  assumes "altera_avalon_jtag_uart_irq hw s = Some s'"
  shows "wf_uart s \<longrightarrow> wf_uart s'"
proof (rule altera_avalon_jtag_uart_irq.raw_induct [where P = "\<lambda>hw s s'. wf_uart s \<longrightarrow> wf_uart s'", OF _ assms], rule impI)
  fix irq and hw :: "'h uart_hw" and s s' :: "('e, 'h, 'm) uart_state_scheme"
  assume IH: "\<And>hw s s'. irq hw s = Some s' \<Longrightarrow> wf_uart s \<longrightarrow> wf_uart s'"
    and run: "(let (control, s) = get_control hw s
      in if control AND (256 OR 512) = 0 then Some s
         else do {
           s \<leftarrow> (if control AND 256 \<noteq> 0 then isr_receive hw s else Some s);
           s \<leftarrow> (if control AND 512 \<noteq> 0 then isr_transmit hw control s else Some s);
           irq hw s
         }) = Some s'" and wf: "wf_uart s"
  obtain control s1 where g: "get_control hw s = (control, s1)" by (rule prod.exhaust)
  have w1: "wf_uart s1" using wf wf_rings [of s1 s] rings_control(2) [of hw s] g by simp
  show "wf_uart s'"
  proof (cases "control AND (256 OR 512) = 0")
    case True
    then show ?thesis using run w1 unfolding g by simp
  next
    case False
    then obtain s2 s3 where s: "(if control AND 256 \<noteq> 0 then isr_receive hw s1 else Some s1) = Some s2"
        "(if control AND 512 \<noteq> 0 then isr_transmit hw control s2 else Some s2) = Some s3" "irq hw s3 = Some s'"
      using run unfolding g by (auto simp only: Let_def prod.case if_False bind_eq_Some_conv)
    have "wf_uart s2" using s(1) w1 wf_receive [of s1 hw s2] by (simp split: if_split_asm)
    then have "wf_uart s3" using s(2) wf_transmit [of s2 hw control s3] by (simp split: if_split_asm)
    then show ?thesis using IH [OF s(3)] by blast
  qed
qed

lemma wf_interrupts:
  assumes "(uart_interrupt hw)\<^sup>*\<^sup>* s s'" "wf_uart s"
  shows "wf_uart s'"
  using assms
proof (induction rule: rtranclp_induct)
  case (step t u)
  from step(2) show ?case
  proof cases
    case device
    then show ?thesis using wf_irq step by blast
  next
    case timer
    then show ?thesis using rings_timeout wf_rings step by blast
  qed
qed

lemma wait_while_keeps:
  assumes "\<And>s. P s \<Longrightarrow> P (idle s)" "wait_while cond idle s = Some s'" "P s"
  shows "P s'"
proof -
  have "P s \<longrightarrow> P s'"
    by (rule wait_while.raw_induct [where P = "\<lambda>c i s s'. i = idle \<longrightarrow> P s \<longrightarrow> P s'", OF _ assms(2), THEN mp [OF _ refl]])
      (use assms(1) in \<open>auto split: if_split_asm\<close>)
  then show ?thesis using assms(3) by blast
qed

lemma wf_close:
  fixes s :: "('e, 'h, 'm) uart_state_scheme"
  assumes "\<And>s. wf_uart s \<Longrightarrow> wf_uart (idle s)" "altera_avalon_jtag_uart_close idle flags s = Some (rc, s')" "wf_uart s"
  shows "wf_uart s'"
proof -
  have "idle = idle \<longrightarrow> wf_uart s \<longrightarrow> wf_uart (snd (rc, s'))"
    by (rule altera_avalon_jtag_uart_close.raw_induct
        [where P = "\<lambda>i fl s y. i = idle \<longrightarrow> wf_uart s \<longrightarrow> wf_uart (snd y)", OF _ assms(2)])
      (use assms(1) in \<open>auto split: if_split_asm\<close>)
  then show ?thesis using assms(3) by simp
qed

lemma wf_read_loop:
  fixes s :: "('e, 'h, 'm) uart_state_scheme"
  assumes "\<And>s. wf_uart s \<Longrightarrow> wf_uart (idle s)" "read_loop idle flags s space = Some (s', got)" "wf_uart s"
  shows "wf_uart s'"
proof -
  have "idle = idle \<longrightarrow> wf_uart s \<longrightarrow> wf_uart (fst (s', got))"
  proof (rule read_loop.raw_induct
        [where P = "\<lambda>i fl s sp y. i = idle \<longrightarrow> wf_uart s \<longrightarrow> wf_uart (fst y)", OF _ assms(2)], intro impI)
    fix loop and i :: "('e, 'h, 'm) uart_state_scheme \<Rightarrow> ('e, 'h, 'm) uart_state_scheme" and fl sp :: u32
      and s :: "('e, 'h, 'm) uart_state_scheme" and y
    assume IH: "\<And>i fl s sp y. loop i fl s sp = Some y \<Longrightarrow> i = idle \<longrightarrow> wf_uart s \<longrightarrow> wf_uart (fst y)"
      and run: "(if 0 < sint sp then do {
        (inp, s, space, got) \<leftarrow> read_available s sp [];
        if got \<noteq> [] then Some (s, got)
        else if fl AND 0x4000 \<noteq> 0 then Some (s, got)
        else do {
          s \<leftarrow> wait_while (\<lambda>s. inp = u_rx_in s \<and> u_host_inactive s < u_timeout s) i s;
          if inp = u_rx_in s then Some (s, got) else loop i fl s space
        }
      } else Some (s, [])) = Some y" and i: "i = idle" and wf: "wf_uart s"
    show "wf_uart (fst y)"
    proof (cases "0 < sint sp")
      case True
      obtain w left got where a: "read_available s sp [] = Some (u_rx_in s, s\<lparr>u_rx_out := w\<rparr>, left, got)"
          "wf_uart (s\<lparr>u_rx_out := w\<rparr>)"
        using read_available_ok [OF wf conjunct1 [OF sint_pos_u32 [OF True]] conjunct2 [OF sint_pos_u32 [OF True]], of "[]"]
          wf_rx_out [OF wf] by (elim exE conjE) blast
      have keep: "wait_while c i (s\<lparr>u_rx_out := w\<rparr>) = Some t \<Longrightarrow> wf_uart t" for c t
        unfolding i by (rule wait_while_keeps [where P = wf_uart, OF assms(1) _ a(2)])
      show ?thesis using run True a i
        by (auto simp: bind_eq_Some_conv split: if_split_asm dest: IH keep [unfolded i])
    qed (use run wf in auto)
  qed
  then show ?thesis using assms(3) by simp
qed

lemma wf_write_loop:
  fixes s :: "('e, 'h, 'm) uart_state_scheme"
  assumes "\<And>s. wf_uart s \<Longrightarrow> wf_uart (idle s)" "write_loop hw idle flags out0 s bytes = Some (s', rest)"
    and "wf_uart s" "length bytes < 2 ^ 31"
  shows "wf_uart s'"
proof -
  have "idle = idle \<longrightarrow> wf_uart s \<longrightarrow> length bytes < 2 ^ 31 \<longrightarrow> wf_uart (fst (s', rest))"
  proof (rule write_loop.raw_induct
        [where P = "\<lambda>hw i fl o0 s bs y. i = idle \<longrightarrow> wf_uart s \<longrightarrow> length bs < 2 ^ 31 \<longrightarrow> wf_uart (fst y)", OF _ assms(2)], intro impI)
    fix loop and hw :: "'h uart_hw" and i :: "('e, 'h, 'm) uart_state_scheme \<Rightarrow> ('e, 'h, 'm) uart_state_scheme"
      and fl o0 :: u32 and s :: "('e, 'h, 'm) uart_state_scheme" and bs :: "u8 list" and y
    assume IH: "\<And>hw i fl o0 s bs y. loop hw i fl o0 s bs = Some y
        \<Longrightarrow> i = idle \<longrightarrow> wf_uart s \<longrightarrow> length bs < 2 ^ 31 \<longrightarrow> wf_uart (fst y)"
      and run: "do {
        (out, s, rest) \<leftarrow> write_fill s o0 bs;
        let s = enable_transmit hw s;
        if rest \<noteq> [] then
          if fl AND 0x4000 \<noteq> 0 then Some (s, rest)
          else do {
            s \<leftarrow> wait_while (\<lambda>s. out = u_tx_out s \<and> u_host_inactive s < u_timeout s) i s;
            if u_host_inactive s \<noteq> 0 then Some (s, rest) else loop hw i fl out s rest
          }
        else Some (s, rest)
      } = Some y" and i: "i = idle" and wf: "wf_uart s" and len: "length bs < 2 ^ 31"
    obtain out b x m where f: "write_fill s o0 bs = Some (out, s\<lparr>u_tx_buf := b, u_tx_in := x\<rparr>, drop m bs)"
        "wf_uart (s\<lparr>u_tx_buf := b, u_tx_in := x\<rparr>)" using write_fill_ok [OF wf len, of o0] by blast
    let ?s = "enable_transmit hw (s\<lparr>u_tx_buf := b, u_tx_in := x\<rparr>)"
    have ws: "wf_uart ?s" using f(2) by (simp add: enable_transmit_eq uart_simps)
    have keep: "wait_while c i ?s = Some t \<Longrightarrow> wf_uart t" for c t
      unfolding i by (rule wait_while_keeps [where P = wf_uart, OF assms(1) _ ws])
    have "length (drop m bs) < 2 ^ 31" using len by simp
    then show "wf_uart (fst y)" using run unfolding f(1)
      using ws i by (auto simp: bind_eq_Some_conv Let_def split: if_split_asm dest: IH keep [unfolded i])
  qed
  then show ?thesis using assms(3,4) by simp
qed

section \<open>Every operation keeps the type\<close>

lemma rings_read_end [simp]:
  "rings (alt_irq_enable_all c (put_control hw v ((snd (alt_irq_disable_all s))\<lparr>u_irq_enable := e\<rparr>))) = rings s"
  for s :: "('e, 'h, 'm) uart_state_scheme"
  by (simp add: rings_def alt_irq_enable_all_def alt_irq_disable_all_def put_control_def Let_def)

lemma wf_read:
  fixes s :: "('e, 'h, 'm) uart_state_scheme"
  assumes "\<And>s. wf_uart s \<Longrightarrow> wf_uart (idle s)" "altera_avalon_jtag_uart_read hw idle space flags s = Some (rc, bytes, s')"
    and "wf_uart s"
  shows "wf_uart s'"
proof -
  obtain t got where t: "read_loop idle flags s space = Some (t, got)"
    using assms(2) by (auto simp: altera_avalon_jtag_uart_read_def bind_eq_Some_conv)
  have "rings s' = rings t"
    using assms(2) unfolding altera_avalon_jtag_uart_read_def t by (auto simp: Let_def split_beta split: if_split_asm)
  then show ?thesis using wf_read_loop [OF assms(1) t assms(3)] wf_rings by blast
qed

lemma wf_write:
  fixes s :: "('e, 'h, 'm) uart_state_scheme"
  assumes "\<And>s. wf_uart s \<Longrightarrow> wf_uart (idle s)" "altera_avalon_jtag_uart_write ignore_full hw idle bytes flags s = Some (rc, s')"
    and "wf_uart s" "length bytes < 2 ^ 31"
  shows "wf_uart s'"
proof -
  obtain t rest where t: "write_loop hw idle flags 0 s bytes = Some (t, rest)"
    using assms(2) by (auto simp: altera_avalon_jtag_uart_write_def bind_eq_Some_conv)
  have "s' = t \<or> s' = t\<lparr>u_tx_in := 0, u_tx_out := 0\<rparr>"
    using assms(2) unfolding altera_avalon_jtag_uart_write_def t by (simp split: if_split_asm)
  then show ?thesis using wf_write_loop [OF assms(1) t assms(3,4)] by (auto simp: wf_uart_def)
qed

text \<open>What comes while an operation waits: any number of interrupts.\<close>

definition idles :: "'h uart_hw \<Rightarrow> (('e, 'h, 'm) uart_state_scheme \<Rightarrow> ('e, 'h, 'm) uart_state_scheme) \<Rightarrow> bool" where
  "idles hw idle \<longleftrightarrow> (\<forall>s. (uart_interrupt hw)\<^sup>*\<^sup>* s (idle s))"

lemma uart_op_keeps:
  assumes "uart_op ignore_full hw idle s s'" "idles hw idle" "wf_uart s"
  shows "wf_uart s'"
proof -
  have idle: "wf_uart s \<Longrightarrow> wf_uart (idle s)" for s using wf_interrupts assms(2) by (auto simp: idles_def)
  from assms(1) show ?thesis
  proof cases
    case op_start
    then show ?thesis using rings_init wf_rings assms(3) by blast
  next
    case op_interrupt
    then show ?thesis using wf_interrupts [OF r_into_rtranclp] assms(3) by blast
  next
    case (op_read space flags rc bytes)
    then show ?thesis using wf_read [of idle, OF idle _ assms(3)] by blast
  next
    case (op_write bytes flags rc)
    then show ?thesis using wf_write [of idle, OF idle _ assms(3)] by blast
  next
    case op_ioctl
    then show ?thesis using rings_ioctl wf_rings assms(3) by blast
  next
    case (op_close flags rc)
    then show ?thesis using wf_close [of idle, OF idle _ assms(3)] by blast
  qed
qed

text \<open>
  C12: the driver's state keeps its type.  From a state whose rings have 2048 cells and whose
  indices are inside them, every sequence of driver calls that return (start, read, write,
  control, close) and of interrupts, also of interrupts that come while a call waits, leads to
  such a state again.
\<close>

theorem uart_state_typed:
  fixes s s' :: "('e, 'h, 'm) uart_state_scheme"
  assumes "idles hw idle" and "(uart_op ignore_full hw idle)\<^sup>*\<^sup>* s s'"
    and "length (u_rx_buf s) = 2048" and "u_rx_in s < 2048" and "u_rx_out s < 2048"
    and "length (u_tx_buf s) = 2048" and "u_tx_in s < 2048" and "u_tx_out s < 2048"
  shows "length (u_rx_buf s') = 2048 \<and> u_rx_in s' < 2048 \<and> u_rx_out s' < 2048
    \<and> length (u_tx_buf s') = 2048 \<and> u_tx_in s' < 2048 \<and> u_tx_out s' < 2048"
proof -
  have wf: "wf_uart s" using assms(3-8) by (simp add: wf_uart_def word_less_nat_alt)
  from assms(2) have "wf_uart s'"
    by (induction rule: rtranclp_induct) (use wf uart_op_keeps assms(1) in blast)+
  then show ?thesis by (simp add: wf_uart_def word_less_nat_alt)
qed

theorem uart_state_typed_witness:
  "\<exists>s'. altera_avalon_jtag_uart_write False (demo_hw 0) id [5, 6] 0x4000 (demo_uart [] [7]) = Some (2, s')
    \<and> length (u_tx_buf s') = 2048 \<and> u_tx_in s' < 2048"
proof -
  obtain s' where run: "altera_avalon_jtag_uart_write False (demo_hw 0) id [5, 6] 0x4000 (demo_uart [] [7]) = Some (2, s')"
    using write_nonblocking_ok [of "demo_uart [] [7]" "[5, 6]" "0x4000" False "demo_hw 0" id]
    by (auto simp: demo_uart_wf demo_uart_pending)
  have step: "(uart_op False (demo_hw 0) id)\<^sup>*\<^sup>* (demo_uart [] [7]) s'"
    by (rule r_into_rtranclp, rule op_write [OF run]) simp
  have "wf_uart (demo_uart [] [7])" by (simp add: demo_uart_wf)
  moreover have "idles (demo_hw 0) (id :: (unit, u8 list) uart_state \<Rightarrow> _)" by (simp add: idles_def)
  ultimately have "length (u_tx_buf s') = 2048 \<and> u_tx_in s' < 2048"
    using uart_state_typed [OF _ step] by (simp add: wf_uart_def word_less_nat_alt)
  with run show ?thesis by blast
qed

end
