(* ===== verification/Stdio.thy ===== *)
theory Stdio
  imports UartIO "HOL-Library.Char_ord"
begin

text \<open>
  Character output: \<open>alt_printf.c\<close>, \<open>alt_putchar.c\<close>, \<open>alt_putstr.c\<close>, \<open>alt_getchar.c\<close> and the
  semihosting buffer of \<open>alt_putcharbuf.c\<close>.

  Formatted output is defined over any function that puts a character, because the source
  exchanges \<open>alt_putchar\<close> for \<open>alt_putcharbuf\<close> by a macro.  The contract of such a function
  is the locale \<open>char_sink\<close>; inside it \<open>alt_printf\<close> is shown to implement \<open>printf_text\<close>, the
  text as a function of format and arguments.  The direct drivers (the variant of this
  project) reach the polled JTAG UART of theory Uart.
\<close>

section \<open>The output functions\<close>

text \<open>\<open>int alt_putchar (int c)\<close> with direct drivers, and with \<open>write\<close> of semihosting as a parameter.\<close>

definition alt_putchar :: "'h uart_hw \<Rightarrow> u32 \<Rightarrow> 'h \<Rightarrow> (int \<times> 'h) option" where
  "alt_putchar hw c h = do {
     let c1 = (ucast (c AND 0xFF) :: u8);
     (rc, h) \<leftarrow> altera_avalon_jtag_uart_write_small hw [c1] h;
     Some (if rc = - 1 then - 1 else sint c, h)
   }"

definition alt_putchar_semihosting :: "(u8 list \<Rightarrow> 'e \<Rightarrow> int \<times> 'e) \<Rightarrow> u32 \<Rightarrow> 'e \<Rightarrow> int \<times> 'e" where
  "alt_putchar_semihosting write1 c e = (let c1 = (ucast (c AND 0xFF) :: u8) in write1 [c1] e)"

definition alt_putstr :: "'h uart_hw \<Rightarrow> u8 list \<Rightarrow> 'h \<Rightarrow> (int \<times> 'h) option" where
  "alt_putstr hw str h = altera_avalon_jtag_uart_write_small hw str h"

text \<open>\<open>fd_flags\<close> are those of \<open>alt_fd_list[STDIN_FILENO]\<close>; \<open>char\<close> is signed on this processor.\<close>

definition alt_getchar :: "'h uart_hw \<Rightarrow> u32 \<Rightarrow> 'h \<Rightarrow> (int \<times> 'h) option" where
  "alt_getchar hw fd_flags h = do {
     (rc, got, h) \<leftarrow> altera_avalon_jtag_uart_read_small hw 1 fd_flags h;
     if rc \<le> 0 then Some (- 1, h)
     else do { c \<leftarrow> rd got 0; Some (sint c, h) }
   }"

text \<open>The semihosting buffer.\<close>

abbreviation (input) ALT_PUTBUF_SIZE :: u32 where "ALT_PUTBUF_SIZE \<equiv> 64"

record 'e putbuf =
  pb_buf :: "u8 list"
  pb_fill_index :: u32
  pb_env :: 'e

definition putbuf_start :: "'e \<Rightarrow> 'e putbuf" where
  "putbuf_start e = \<lparr>pb_buf = replicate 64 0, pb_fill_index = 0, pb_env = e\<rparr>"

definition alt_putbufflush :: "(u8 list \<Rightarrow> 'e \<Rightarrow> int \<times> 'e) \<Rightarrow> 'e putbuf \<Rightarrow> int \<times> 'e putbuf" where
  "alt_putbufflush write1 s =
     (let (results, e) = write1 (take (unat (pb_fill_index s)) (pb_buf s)) (pb_env s)
      in (results, s\<lparr>pb_env := e, pb_fill_index := 0\<rparr>))"

definition alt_putcharbuf :: "(u8 list \<Rightarrow> 'e \<Rightarrow> int \<times> 'e) \<Rightarrow> u32 \<Rightarrow> 'e putbuf \<Rightarrow> (int \<times> 'e putbuf) option" where
  "alt_putcharbuf write1 c s = do {
     buf \<leftarrow> wr (pb_buf s) (unat (pb_fill_index s)) (ucast (c AND 0xFF));
     let s = s\<lparr>pb_buf := buf, pb_fill_index := pb_fill_index s + 1\<rparr>;
     let s = (if ALT_PUTBUF_SIZE \<le> pb_fill_index s then snd (alt_putbufflush write1 s) else s);
     Some (sint c, s)
   }"

section \<open>Formatted output\<close>

text \<open>An argument is an integer or the string a pointer leads to; a missing one is undefined.\<close>

datatype arg = Num u32 | Str "u8 list"

type_synonym 's put_fn = "u32 \<Rightarrow> 's \<Rightarrow> (int \<times> 's) option"

definition put1 :: "'s put_fn \<Rightarrow> u32 \<Rightarrow> 's \<Rightarrow> 's option" where
  "put1 put c s = do { (_, s) \<leftarrow> put c s; Some s }"

text \<open>The search for the first non-zero digit; a negative shift is undefined.\<close>

function first_digit :: "u32 \<Rightarrow> int \<Rightarrow> int option" where
  "first_digit v digit_shift =
     (if digit_shift < 0 then None
      else if v AND push_bit (nat digit_shift) 0xF = 0 then first_digit v (digit_shift - 4)
      else Some digit_shift)"
  by pat_completeness auto
termination by (relation "measure (\<lambda>(v, d). nat (d + 4))") auto

function print_digits :: "'s put_fn \<Rightarrow> u32 \<Rightarrow> int \<Rightarrow> 's \<Rightarrow> 's option" where
  "print_digits put v digit_shift s =
     (if 0 \<le> digit_shift then do {
        let digit = drop_bit (nat digit_shift) (v AND push_bit (nat digit_shift) 0xF);
        let c = (if digit \<le> 9 then 0x30 + digit else 0x61 + digit - 10);
        s \<leftarrow> put1 put c s;
        print_digits put v (digit_shift - 4) s
      } else Some s)"
  by pat_completeness auto
termination by (relation "measure (\<lambda>(p, v, d, s). nat (d + 4))") auto

declare first_digit.simps [simp del] print_digits.simps [simp del]

definition print_hex :: "'s put_fn \<Rightarrow> u32 \<Rightarrow> 's \<Rightarrow> 's option" where
  "print_hex put v s =
     (if v = 0 then put1 put 0x30 s
      else do { digit_shift \<leftarrow> first_digit v 28; print_digits put v digit_shift s })"

definition print_str :: "'s put_fn \<Rightarrow> u8 list \<Rightarrow> 's \<Rightarrow> 's option" where
  "print_str put str s = foldM (\<lambda>c. put1 put (ucast c)) str s"

text \<open>The format is the string without its terminator.\<close>

fun alt_printf :: "'s put_fn \<Rightarrow> u8 list \<Rightarrow> arg list \<Rightarrow> 's \<Rightarrow> 's option" where
  "alt_printf put [] args s = Some s"
| "alt_printf put (c # w) args s =
     (if c \<noteq> 0x25 then do { s \<leftarrow> put1 put (ucast c) s; alt_printf put w args s }
      else case w of
        [] \<Rightarrow> Some s
      | c # w \<Rightarrow>
          if c = 0x25 then do { s \<leftarrow> put1 put (ucast c) s; alt_printf put w args s }
          else if c = 0x63 then
            (case args of Num v # args \<Rightarrow> do { s \<leftarrow> put1 put v s; alt_printf put w args s } | _ \<Rightarrow> None)
          else if c = 0x78 then
            (case args of Num v # args \<Rightarrow> do { s \<leftarrow> print_hex put v s; alt_printf put w args s } | _ \<Rightarrow> None)
          else if c = 0x73 then
            (case args of Str str # args \<Rightarrow> do { s \<leftarrow> print_str put str s; alt_printf put w args s } | _ \<Rightarrow> None)
          else alt_printf put w args s)"

text \<open>With semihosting the buffer is flushed at the end.\<close>

definition alt_printf_semihosting ::
  "(u8 list \<Rightarrow> 'e \<Rightarrow> int \<times> 'e) \<Rightarrow> u8 list \<Rightarrow> arg list \<Rightarrow> 'e putbuf \<Rightarrow> 'e putbuf option" where
  "alt_printf_semihosting write1 fmt args s = do {
     s \<leftarrow> alt_printf (alt_putcharbuf write1) fmt args s;
     Some (snd (alt_putbufflush write1 s))
   }"

section \<open>The text a call prints\<close>

text \<open>The lower-case digits of \<open>v\<close> in base 16, without leading zeros; \<open>0\<close> has one digit.\<close>

definition hex_digit :: "nat \<Rightarrow> u8" where
  "hex_digit d = of_nat (if d \<le> 9 then 48 + d else 87 + d)"

fun hex_digits :: "nat \<Rightarrow> u8 list" where
  "hex_digits n = (if n < 16 then [hex_digit n] else hex_digits (n div 16) @ [hex_digit (n mod 16)])"

declare hex_digits.simps [simp del]

definition hex_text :: "u32 \<Rightarrow> u8 list" where
  "hex_text v = hex_digits (unat v)"

fun printf_text :: "u8 list \<Rightarrow> arg list \<Rightarrow> u8 list option" where
  "printf_text [] args = Some []"
| "printf_text (c # w) args =
     (if c \<noteq> 0x25 then map_option ((#) c) (printf_text w args)
      else case w of
        [] \<Rightarrow> Some []
      | c # w \<Rightarrow>
          if c = 0x25 then map_option ((#) c) (printf_text w args)
          else if c = 0x63 then
            (case args of Num v # args \<Rightarrow> map_option ((#) (ucast v)) (printf_text w args) | _ \<Rightarrow> None)
          else if c = 0x78 then
            (case args of Num v # args \<Rightarrow> map_option ((@) (hex_text v)) (printf_text w args) | _ \<Rightarrow> None)
          else if c = 0x73 then
            (case args of Str str # args \<Rightarrow> map_option ((@) str) (printf_text w args) | _ \<Rightarrow> None)
          else printf_text w args)"

section \<open>Hexadecimal digits\<close>

lemma bit_15: "bit (0xF :: int) n \<longleftrightarrow> n < 4"
proof -
  have "(0xF :: int) = mask 4" by (simp add: mask_eq_exp_minus_1)
  then have "bit (0xF :: int) n \<longleftrightarrow> bit (mask 4 :: int) n" by (simp only:)
  then show ?thesis unfolding bit_mask_iff by simp
qed

lemma digit_word: "drop_bit s (v AND push_bit s 0xF) = take_bit 4 (drop_bit s v)" for v :: u32
proof (rule bit_word_eqI)
  fix n assume "n < LENGTH(32)"
  then show "bit (drop_bit s (v AND push_bit s 0xF)) n = bit (take_bit 4 (drop_bit s v)) n"
    using bit_imp_le_length [of v "s + n"] by (auto simp: bit_simps bit_15)
qed

lemma unat_digit: "unat (take_bit 4 (drop_bit s v)) = unat v div 2 ^ s mod 16" for v :: u32
  by (simp add: take_bit_eq_mod drop_bit_eq_div unat_mod unat_drop_bit_eq flip: drop_bit_eq_div)

lemma digit_zero: "v AND push_bit s 0xF = 0 \<longleftrightarrow> unat v div 2 ^ s mod 16 = 0" for v :: u32
proof -
  have "v AND push_bit s 0xF = push_bit s (drop_bit s (v AND push_bit s 0xF))"
    by (intro bit_word_eqI) (auto simp: bit_simps)
  then have "v AND push_bit s 0xF = 0 \<longleftrightarrow> drop_bit s (v AND push_bit s 0xF) = 0"
    by (metis drop_bit_of_0 push_bit_of_0)
  then show ?thesis by (simp only: digit_word unat_digit [symmetric] unat_eq_0)
qed

lemma pow_16: "(2 :: nat) ^ (4 * k) = 16 ^ k"
  by (simp add: power_mult)

lemma digit_char:
  assumes "d = take_bit 4 (drop_bit s v)"
  shows "ucast (if d \<le> 9 then 0x30 + d else 0x61 + d - 10 :: u32) = hex_digit (unat v div 2 ^ s mod 16)"
proof -
  have "unat d < 16" by (simp add: assms unat_digit)
  moreover have "d = of_nat (unat d)" by simp
  ultimately have "d \<in> (\<lambda>n. of_nat n) ` {..<16}" by blast
  then have "ucast (if d \<le> 9 then 0x30 + d else 0x61 + d - 10 :: u32) = hex_digit (unat d)"
    by (auto simp: lessThan_nat_numeral hex_digit_def)
  then show ?thesis by (simp only: assms unat_digit)
qed

text \<open>The first \<open>k\<close> digits from the right, written with a fixed width.\<close>

definition low_digits :: "nat \<Rightarrow> nat \<Rightarrow> u8 list" where
  "low_digits k n = map (\<lambda>j. hex_digit (n div 16 ^ j mod 16)) (rev [0..<k])"

lemma low_digits_Suc: "low_digits (Suc k) n = hex_digit (n div 16 ^ k mod 16) # low_digits k n"
  by (simp add: low_digits_def)

lemma low_digits_last: "low_digits (Suc k) n = low_digits k (n div 16) @ [hex_digit (n mod 16)]"
  by (induction k) (simp_all add: low_digits_Suc div_mult2_eq [symmetric], simp_all add: low_digits_def)

lemma hex_digits_width: "16 ^ k \<le> n \<or> k = 0 \<Longrightarrow> n < 16 ^ Suc k \<Longrightarrow> hex_digits n = low_digits (Suc k) n"
proof (induction k arbitrary: n)
  case 0
  then show ?case by (subst hex_digits.simps) (simp add: low_digits_def)
next
  case (Suc k)
  then have "16 \<le> n" by (metis Suc_neq_Zero le_trans one_le_numeral power_Suc mult_le_mono1 nat_mult_1_right mult.commute one_le_power)
  have "16 ^ k \<le> n div 16" using Suc.prems(1) by (simp add: less_eq_div_iff_mult_less_eq mult.commute)
  moreover have "n div 16 < 16 ^ Suc k" using Suc.prems(2) by (simp add: less_mult_imp_div_less mult.commute)
  ultimately have "hex_digits (n div 16) = low_digits (Suc k) (n div 16)" using Suc.IH by blast
  then show ?case using \<open>16 \<le> n\<close> by (subst hex_digits.simps) (simp add: low_digits_last [of "Suc k"])
qed

lemma first_digit_step:
  "first_digit v (int s) = (if v AND push_bit s 0xF = 0 then first_digit v (int s - 4) else Some (int s))"
  by (subst first_digit.simps) simp

lemma first_digit_ok:
  assumes "v \<noteq> 0" "unat v < 16 ^ Suc k"
  shows "\<exists>j. first_digit v (4 * int k) = Some (4 * int j) \<and> (16 ^ j \<le> unat v \<or> j = 0) \<and> unat v < 16 ^ Suc j"
  using assms
proof (induction k)
  case 0
  have "unat v \<noteq> 0" using 0(1) by (simp add: unat_eq_0)
  then have "v AND push_bit 0 0xF \<noteq> 0" unfolding digit_zero using 0(2) by simp
  then show ?case using 0 by (subst first_digit.simps) (auto intro: exI [of _ 0])
next
  case (Suc k)
  have i: "int (4 * Suc k) = 4 * int (Suc k)" "4 * int (Suc k) - 4 = 4 * int k" by simp_all
  note step = first_digit_step [of v "4 * Suc k", unfolded i]
  have dz: "v AND push_bit (4 * Suc k) 0xF = 0 \<longleftrightarrow> unat v div 16 ^ Suc k mod 16 = 0"
    unfolding digit_zero pow_16 ..
  have small: "unat v div 16 ^ Suc k < 16" using Suc.prems(2) by (simp add: less_mult_imp_div_less mult.commute)
  show ?case
  proof (cases "unat v < 16 ^ Suc k")
    case True
    then have "v AND push_bit (4 * Suc k) 0xF = 0" unfolding dz by (simp only: div_less mod_0)
    then have "first_digit v (4 * int (Suc k)) = first_digit v (4 * int k)"
      unfolding step by (rule if_P)
    then show ?thesis using Suc.IH [OF Suc.prems(1) True] by simp
  next
    case False
    then have "unat v div 16 ^ Suc k \<noteq> 0" by (simp add: div_eq_0_iff)
    then have "v AND push_bit (4 * Suc k) 0xF \<noteq> 0" unfolding dz using small by simp
    then have "first_digit v (4 * int (Suc k)) = Some (4 * int (Suc k))"
      unfolding step by (rule if_not_P)
    then show ?thesis using False Suc.prems(2) by (intro exI [of _ "Suc k"]) simp
  qed
qed

text \<open>One round of the printing loop.\<close>

definition digit_code :: "u32 \<Rightarrow> nat \<Rightarrow> u32" where
  "digit_code v n = (let d = take_bit 4 (drop_bit n v) in if d \<le> 9 then 0x30 + d else 0x61 + d - 10)"

lemma print_digits_step:
  "print_digits put v (int n) = (\<lambda>s. do { s \<leftarrow> put1 put (digit_code v n) s; print_digits put v (int n - 4) s })"
proof
  fix s
  show "print_digits put v (int n) s = do { s \<leftarrow> put1 put (digit_code v n) s; print_digits put v (int n - 4) s }"
    by (subst print_digits.simps) (simp only: digit_word digit_code_def nat_int Let_def of_nat_0_le_iff if_True)
qed

lemma print_digits_stop: "x < 0 \<Longrightarrow> print_digits put v x = Some"
  by (rule ext) (subst print_digits.simps, simp)

section \<open>The contract of an output function, and what \<open>alt_printf\<close> does over it\<close>

text \<open>
  \<open>out\<close> is everything put so far, of which a buffered sink may still hold a part;
  \<open>ok\<close> is the sink's invariant.
\<close>

locale char_sink =
  fixes put :: "'s put_fn" and out :: "'s \<Rightarrow> u8 list" and ok :: "'s \<Rightarrow> bool"
  assumes put_ok: "ok s \<Longrightarrow> \<exists>rc s'. put c s = Some (rc, s') \<and> ok s' \<and> out s' = out s @ [ucast c]"
begin

definition emits :: "('s \<Rightarrow> 's option) \<Rightarrow> u8 list \<Rightarrow> bool" where
  "emits f t \<longleftrightarrow> (\<forall>s. ok s \<longrightarrow> (\<exists>s'. f s = Some s' \<and> ok s' \<and> out s' = out s @ t))"

lemma emits_nothing: "emits Some []"
  by (simp add: emits_def)

lemma emits_put: "emits (put1 put c) [ucast c]"
  unfolding emits_def put1_def using put_ok [of _ c] by fastforce

lemma emits_seq: "emits f t \<Longrightarrow> emits g u \<Longrightarrow> emits (\<lambda>s. do { s \<leftarrow> f s; g s }) (t @ u)"
  unfolding emits_def by (metis append_assoc bind.bind_lunit)

lemma emits_digits: "emits (print_digits put v (4 * int k - 4)) (low_digits k (unat v))"
proof (induction k)
  case 0
  show ?case by (simp add: print_digits_stop low_digits_def emits_nothing)
next
  case (Suc k)
  have i: "4 * int (Suc k) - 4 = int (4 * k)" "int (4 * k) - 4 = 4 * int k - 4" by simp_all
  have "ucast (digit_code v (4 * k)) = hex_digit (unat v div 16 ^ k mod 16)"
    unfolding digit_code_def Let_def by (rule digit_char [of _ "4 * k" v, OF refl, unfolded pow_16])
  then show ?case
    using emits_seq [OF emits_put Suc.IH, of "digit_code v (4 * k)"]
    unfolding i(1) print_digits_step i(2) low_digits_Suc by simp
qed

lemma emits_hex: "emits (print_hex put v) (hex_text v)"
proof (cases "v = 0")
  case True
  have "print_hex put v = put1 put 0x30" by (rule ext) (simp add: print_hex_def True)
  moreover have "hex_text v = [ucast (0x30 :: u32)]"
    unfolding hex_text_def True by (subst hex_digits.simps) (simp add: hex_digit_def)
  ultimately show ?thesis using emits_put [of "0x30"] by simp
next
  case False
  have "unat v < 16 ^ Suc 7" using unat_u32_lt [of v] by simp
  from first_digit_ok [OF False this] obtain j where
    j: "first_digit v 28 = Some (4 * int j)" "16 ^ j \<le> unat v \<or> j = 0" "unat v < 16 ^ Suc j" by auto
  have "print_hex put v = print_digits put v (4 * int (Suc j) - 4)"
    by (rule ext) (simp add: print_hex_def False j(1))
  then show ?thesis using emits_digits [of v "Suc j"] hex_digits_width [OF j(2,3)] by (simp add: hex_text_def)
qed

lemma emits_str: "emits (print_str put str) str"
proof (induction str)
  case Nil
  show ?case by (simp add: print_str_def emits_nothing)
next
  case (Cons c str)
  have "print_str put (c # str) = (\<lambda>s. do { s \<leftarrow> put1 put (ucast c) s; print_str put str s })"
    by (rule ext) (simp add: print_str_def bind_eq_Some_conv split: option.split)
  then show ?case using emits_seq [OF emits_put Cons.IH, of "ucast c"] by (simp add: ucast_byte)
qed

lemma emits_bind:
  assumes "emits f t" "emits g u" "\<And>s. h s = do { s \<leftarrow> f s; g s }" "x = t @ u"
  shows "emits h x"
proof -
  have "h = (\<lambda>s. do { s \<leftarrow> f s; g s })" by (rule ext) (rule assms(3))
  then show ?thesis using emits_seq [OF assms(1,2)] assms(4) by simp
qed

lemma printf_emits: "printf_text fmt args = Some t \<Longrightarrow> emits (alt_printf put fmt args) t"
proof (induction fmt args arbitrary: t rule: printf_text.induct)
  case (1 args)
  then show ?case by (simp add: emits_def)
next
  case (2 c w args)
  show ?case
  proof (cases "c = 0x25")
    case False
    then obtain u where "printf_text w args = Some u" "t = c # u" using "2.prems" by auto
    then show ?thesis using False
      by (intro emits_bind [OF emits_put [of "ucast c"] "2.IH"(1)]) (simp_all add: ucast_byte)
  next
    case percent: True
    show ?thesis
    proof (cases w)
      case Nil
      then show ?thesis using percent "2.prems" by (simp add: emits_def)
    next
      case (Cons d w')
      note IH = "2.IH"(2-6) [of d w']
      note split = option.split_asm list.split_asm arg.split_asm
      consider "d = 0x25" | "d = 0x63" | "d = 0x78" | "d = 0x73"
        | "d \<noteq> 0x25" "d \<noteq> 0x63" "d \<noteq> 0x78" "d \<noteq> 0x73" by blast
      then show ?thesis
      proof cases
        case 1
        then obtain u where "printf_text w' args = Some u" "t = d # u" using "2.prems" percent Cons by auto
        then show ?thesis using 1 percent Cons
          by (intro emits_bind [OF emits_put [of "ucast d"] IH(1)]) (simp_all add: ucast_byte)
      next
        case 2
        then obtain v rest u where "args = Num v # rest" "printf_text w' rest = Some u" "t = ucast v # u"
          using "2.prems" percent Cons by (auto split: split)
        then show ?thesis using 2 percent Cons
          by (intro emits_bind [OF emits_put [of v] IH(2)]) simp_all
      next
        case 3
        then obtain v rest u where "args = Num v # rest" "printf_text w' rest = Some u" "t = hex_text v @ u"
          using "2.prems" percent Cons by (auto split: split)
        then show ?thesis using 3 percent Cons
          by (intro emits_bind [OF emits_hex [of v] IH(3)]) simp_all
      next
        case 4
        then obtain str rest u where "args = Str str # rest" "printf_text w' rest = Some u" "t = str @ u"
          using "2.prems" percent Cons by (auto split: split)
        then show ?thesis using 4 percent Cons
          by (intro emits_bind [OF emits_str [of str] IH(4)]) simp_all
      next
        case 5
        then have "printf_text w' args = Some t" using "2.prems" percent Cons by simp
        moreover have "alt_printf put (c # w) args = alt_printf put w' args"
          by (rule ext) (simp add: 5 percent Cons)
        ultimately show ?thesis using IH(5) 5 percent Cons by simp
      qed
    qed
  qed
qed

end

section \<open>The two output functions meet the contract\<close>

lemma putchar_keeps:
  assumes "device_logs hw taken" "device_grants hw wait" "kept_by ok hw"
  shows "char_sink (alt_putchar hw) taken ok"
proof
  fix h c
  assume "ok h"
  then show "\<exists>rc h'. alt_putchar hw c h = Some (rc, h') \<and> ok h' \<and> taken h' = taken h @ [ucast c]"
    using write_small_keeps [OF assms, of h "[ucast (c AND 0xFF)]"]
    by (auto simp: alt_putchar_def Let_def byte_of_int)
qed

lemma putchar_sink:
  assumes "device_logs hw taken" "device_grants hw wait"
  shows "char_sink (alt_putchar hw) taken (\<lambda>_. True)"
  by (rule putchar_keeps [OF assms]) (simp add: kept_by_def)

text \<open>\<open>write\<close> of the debugger: \<open>log\<close> is what the host has been given.\<close>

definition takes_all :: "(u8 list \<Rightarrow> 'e \<Rightarrow> int \<times> 'e) \<Rightarrow> ('e \<Rightarrow> u8 list) \<Rightarrow> bool" where
  "takes_all write1 given \<longleftrightarrow> (\<forall>bs e. given (snd (write1 bs e)) = given e @ bs)"

definition putbuf_ok :: "'e putbuf \<Rightarrow> bool" where
  "putbuf_ok s \<longleftrightarrow> length (pb_buf s) = 64 \<and> unat (pb_fill_index s) < 64"

definition putbuf_out :: "('e \<Rightarrow> u8 list) \<Rightarrow> 'e putbuf \<Rightarrow> u8 list" where
  "putbuf_out given s = given (pb_env s) @ take (unat (pb_fill_index s)) (pb_buf s)"

lemma flush_ok:
  assumes "takes_all write1 given" "length (pb_buf s) = 64"
  shows "putbuf_ok (snd (alt_putbufflush write1 s))"
    and "putbuf_out given (snd (alt_putbufflush write1 s)) = putbuf_out given s"
    and "given (pb_env (snd (alt_putbufflush write1 s))) = putbuf_out given s"
    and "pb_fill_index (snd (alt_putbufflush write1 s)) = 0"
  using assms by (simp_all add: takes_all_def alt_putbufflush_def putbuf_ok_def putbuf_out_def split_beta)

lemma putbuf_sink:
  assumes "takes_all write1 given"
  shows "char_sink (alt_putcharbuf write1) (putbuf_out given) putbuf_ok"
proof
  fix s :: "'a putbuf" and c :: u32
  assume ok: "putbuf_ok s"
  let ?f = "pb_fill_index s"
  let ?t = "s\<lparr>pb_buf := (pb_buf s)[unat ?f := ucast c], pb_fill_index := ?f + 1\<rparr>"
  have len: "length (pb_buf s) = 64" "unat ?f < 64" using ok by (simp_all add: putbuf_ok_def)
  have f1: "unat (?f + 1) = Suc (unat ?f)" using len(2) by (subst unat_plus_if_small) auto
  have out: "putbuf_out given ?t = putbuf_out given s @ [ucast c]"
    using len by (simp add: putbuf_out_def f1 take_Suc_conv_app_nth)
  have put: "alt_putcharbuf write1 c s = Some (sint c, if 64 \<le> ?f + 1 then snd (alt_putbufflush write1 ?t) else ?t)"
    using len by (simp add: alt_putcharbuf_def wr_in byte_of_int)
  show "\<exists>rc s'. alt_putcharbuf write1 c s = Some (rc, s') \<and> putbuf_ok s' \<and> putbuf_out given s' = putbuf_out given s @ [ucast c]"
  proof (cases "64 \<le> ?f + 1")
    case True
    then show ?thesis using put flush_ok(1,2) [OF assms, of ?t] len out by simp
  next
    case False
    then have "putbuf_ok ?t" using len f1 by (simp add: putbuf_ok_def word_le_nat_alt)
    then show ?thesis using put out False by simp
  qed
qed

text \<open>A console that keeps all it is given.\<close>

definition host_write :: "u8 list \<Rightarrow> u8 list \<Rightarrow> int \<times> u8 list" where
  "host_write bytes console = (int (length bytes), console @ bytes)"

lemma host_takes_all: "takes_all host_write id"
  by (simp add: takes_all_def host_write_def)

interpretation putbuf: char_sink "alt_putcharbuf host_write" "putbuf_out id" putbuf_ok
  by (rule putbuf_sink [OF host_takes_all])

section \<open>Properties\<close>

text \<open>
  C19: \<open>alt_printf\<close> through \<open>alt_putchar\<close> and the polled JTAG UART returns for every format whose
  arguments are there, and the device has then taken exactly the formatted text: the
  character-by-character code implements \<open>printf_text\<close>.
\<close>

theorem printf_reaches_device:
  assumes "device_logs hw taken" "device_grants hw wait" "printf_text fmt args = Some t"
  shows "\<exists>h'. alt_printf (alt_putchar hw) fmt args h = Some h' \<and> taken h' = taken h @ t"
  using char_sink.printf_emits [OF putchar_sink [OF assms(1,2)] assms(3)]
  by (simp add: char_sink.emits_def [OF putchar_sink [OF assms(1,2)]])

theorem printf_reaches_device_witness:
  "\<exists>h'. alt_printf (alt_putchar demo_slow) (bytes_of ''a%x%%%c%s'') [Num 0xBEEF, Num 65, Str [66, 67]] (1, []) = Some h'
    \<and> snd h' = bytes_of ''abeef%ABC''"
proof -
  have "printf_text (bytes_of ''a%x%%%c%s'') [Num 0xBEEF, Num 65, Str [66, 67]] = Some (bytes_of ''abeef%ABC'')"
    by (simp add: bytes_of_def of_char_def hex_text_def hex_digits.simps hex_digit_def)
  from printf_reaches_device [OF demo_slow_logs this, of "(1, [])"] show ?thesis by simp
qed

definition hex_value :: "u8 list \<Rightarrow> nat" where
  "hex_value t = foldl (\<lambda>n c. 16 * n + (if unat c \<le> 57 then unat c - 48 else unat c - 87)) 0 t"

lemma hex_digit_value:
  "d < 16 \<Longrightarrow> (if unat (hex_digit d) \<le> 57 then unat (hex_digit d) - 48 else unat (hex_digit d) - 87) = d"
proof -
  have "\<forall>d \<in> set [0..<16]. (if unat (hex_digit d) \<le> 57 then unat (hex_digit d) - 48 else unat (hex_digit d) - 87) = d"
    by (simp add: hex_digit_def upt_rec)
  then show "d < 16 \<Longrightarrow> (if unat (hex_digit d) \<le> 57 then unat (hex_digit d) - 48 else unat (hex_digit d) - 87) = d" by auto
qed

lemma hex_value_digits: "hex_value (hex_digits n) = n"
proof (induction n rule: hex_digits.induct)
  case (1 n)
  show ?case
  proof (cases "n < 16")
    case True
    then show ?thesis using hex_digit_value [of n] by (subst hex_digits.simps) (simp add: hex_value_def)
  next
    case False
    then have "hex_value (hex_digits n) = 16 * hex_value (hex_digits (n div 16)) + n mod 16"
      using hex_digit_value [of "n mod 16"] by (subst hex_digits.simps) (simp add: hex_value_def)
    then show ?thesis using 1 False by simp
  qed
qed

lemma length_hex_digits: "n < 16 ^ Suc k \<Longrightarrow> length (hex_digits n) \<le> Suc k"
proof (induction k arbitrary: n)
  case 0
  then show ?case by (subst hex_digits.simps) simp
next
  case (Suc k)
  then have "n div 16 < 16 ^ Suc k" by (simp add: less_mult_imp_div_less mult.commute)
  from Suc.IH [OF this] show ?case by (subst hex_digits.simps) simp
qed

text \<open>
  C31: What \<open>%x\<close> prints for a word is at most eight characters, and read back as a number in base
  16 it is the word: no value of a register or memory cell is lost on its way to the host.
\<close>

theorem printf_hex_round_trip:
  assumes "device_logs hw taken" "device_grants hw wait"
  shows "\<exists>h' t. alt_printf (alt_putchar hw) [0x25, 0x78] [Num v] h = Some h' \<and> taken h' = taken h @ t
    \<and> hex_value t = unat v \<and> 1 \<le> length t \<and> length t \<le> 8"
proof -
  have "printf_text [0x25, 0x78] [Num v] = Some (hex_text v)" by simp
  from char_sink.printf_emits [OF putchar_sink [OF assms] this]
  obtain h' where "alt_printf (alt_putchar hw) [0x25, 0x78] [Num v] h = Some h'" "taken h' = taken h @ hex_text v"
    by (auto simp: char_sink.emits_def [OF putchar_sink [OF assms]])
  moreover have "length (hex_text v) \<le> 8"
    unfolding hex_text_def using length_hex_digits [of "unat v" 7] unat_u32_lt [of v] by simp
  moreover have "1 \<le> length (hex_text v)" unfolding hex_text_def by (subst hex_digits.simps) simp
  ultimately show ?thesis using hex_value_digits [of "unat v"] by (auto simp: hex_text_def)
qed

theorem printf_hex_round_trip_witness:
  "\<exists>h'. alt_printf (alt_putchar demo_slow) [0x25, 0x78] [Num 0x1F] (0, []) = Some h' \<and> hex_value (snd h') = 31"
  using printf_hex_round_trip [OF demo_slow_logs, of "0x1F" "(0, [])"] by auto

text \<open>
  With semihosting, \<open>alt_printf\<close> collects the characters in a buffer of 64 bytes that it never
  overruns; when it returns, the host has been given exactly the formatted text and the
  buffer is empty, the same text the unbuffered variant sends.
\<close>

theorem semihosting_printf_flushes:
  assumes "printf_text fmt args = Some t"
  shows "\<exists>s'. alt_printf_semihosting host_write fmt args (putbuf_start console) = Some s'
    \<and> pb_env s' = console @ t \<and> pb_fill_index s' = 0"
proof -
  have "putbuf_ok (putbuf_start console)" "putbuf_out id (putbuf_start console) = console"
    by (simp_all add: putbuf_ok_def putbuf_start_def putbuf_out_def)
  then obtain s where s: "alt_printf (alt_putcharbuf host_write) fmt args (putbuf_start console) = Some s"
    "putbuf_ok s" "putbuf_out id s = console @ t"
    using putbuf.printf_emits [OF assms] unfolding putbuf.emits_def by metis
  then show ?thesis using flush_ok(3,4) [OF host_takes_all, of s]
    by (simp add: alt_printf_semihosting_def putbuf_ok_def)
qed

theorem semihosting_printf_flushes_witness:
  "\<exists>s'. alt_printf_semihosting host_write [0x25, 0x78] [Num 0] (putbuf_start [1]) = Some s' \<and> pb_env s' = [1, 0x30]"
proof -
  have "printf_text [0x25, 0x78] [Num 0] = Some [0x30]"
    by (simp add: hex_text_def hex_digits.simps hex_digit_def)
  from semihosting_printf_flushes [OF this, of "[1]"] show ?thesis by auto
qed

end
