(* ===== verification/Inject.thy ===== *)
theory Inject
  imports Stdio
begin

text \<open>
  The fault injection program that runs on the Nios II beside the RISC-V core:
  \<open>src/de0_nano/nios/software/hw_io/inject.c\<close>, and the template \<open>hello_world_small.c\<close> it is
  made from by filling in the five macros (the record \<open>inject_cfg\<close>).

  The board is the parameter \<open>io\<close>: writing a parallel port, reading one, and sleeping are
  functions on its state, and \<open>uart\<close> is the console on the same state.  The ports in an
  argument list are read from left to right (C leaves the order open).  The program ends in
  an empty endless loop; the model gives the state on entering it.
\<close>

section \<open>The board's ports and delays\<close>

record 'h io_ports =
  io_write :: "u32 \<Rightarrow> u32 \<Rightarrow> 'h \<Rightarrow> 'h"
  io_read :: "u32 \<Rightarrow> 'h \<Rightarrow> u32 \<times> 'h"
  io_usleep :: "u32 \<Rightarrow> 'h \<Rightarrow> 'h"

abbreviation (input) IO_RISCV_FLAGS :: u32 where "IO_RISCV_FLAGS \<equiv> 0x5000"
abbreviation (input) IO_CONTROL :: u32 where "IO_CONTROL \<equiv> 0x5010"
abbreviation (input) IO_ADDR :: u32 where "IO_ADDR \<equiv> 0x5020"
abbreviation (input) IO_DATA_HIGH :: u32 where "IO_DATA_HIGH \<equiv> 0x5030"
abbreviation (input) IO_DATA_LOW :: u32 where "IO_DATA_LOW \<equiv> 0x5040"

record inject_cfg =
  INJECT_DELAY :: u32
  INJECT_ADDRESS :: u32
  INJECT_DATA_LOW :: u32
  INJECT_DATA_HIGH :: u32
  PROGRAM_MAX_DURATION :: u32

section \<open>The program\<close>

text \<open>The delay counter is loaded while the core is held in reset.\<close>

definition load_delay :: "'h io_ports \<Rightarrow> inject_cfg \<Rightarrow> 'h \<Rightarrow> 'h" where
  "load_delay io cfg h =
     (let h = io_write io IO_CONTROL 0x1 h;
          h = io_write io IO_ADDR 0x1000 h;
          h = io_write io IO_DATA_LOW (INJECT_DELAY cfg) h;
          h = io_write io IO_CONTROL 0x31 h;
          h = io_write io IO_CONTROL 0x21 h;
          h = io_write io IO_DATA_HIGH 0x0 h;
          h = io_write io IO_DATA_LOW 0x0 h;
          h = io_write io IO_ADDR 0x1000 h
      in io_usleep io 500000 h)"

partial_function (option) wait_stall :: "'h io_ports \<Rightarrow> 'h \<Rightarrow> 'h option" where
  "wait_stall io h =
     (let (flags, h) = io_read io IO_RISCV_FLAGS h in
      if flags AND 0x1 \<noteq> 0x1 then wait_stall io h else Some h)"

text \<open>\<open>alt_printf\<close> of the two data ports.\<close>

definition print_data :: "'h io_ports \<Rightarrow> 'h uart_hw \<Rightarrow> u8 list \<Rightarrow> 'h \<Rightarrow> 'h option" where
  "print_data io uart fmt h =
     (let (high, h) = io_read io IO_DATA_HIGH h;
          (low, h) = io_read io IO_DATA_LOW h
      in alt_printf (alt_putchar uart) fmt [Num high, Num low] h)"

text \<open>The program counter, the register, the flip, and the register again.\<close>

definition flip_bits :: "'h io_ports \<Rightarrow> inject_cfg \<Rightarrow> 'h \<Rightarrow> 'h" where
  "flip_bits io cfg h =
     (let h = io_write io IO_DATA_LOW (INJECT_DATA_LOW cfg) h;
          h = io_write io IO_DATA_LOW 0x0 h;
          h = io_write io IO_DATA_HIGH (INJECT_DATA_HIGH cfg) h
      in io_write io IO_DATA_HIGH 0x0 h)"

definition inject_fault :: "'h io_ports \<Rightarrow> 'h uart_hw \<Rightarrow> inject_cfg \<Rightarrow> 'h \<Rightarrow> 'h option" where
  "inject_fault io uart cfg h = do {
     let h = io_write io IO_CONTROL 0x2 h;
     let h = io_write io IO_ADDR 0x20 h;
     h \<leftarrow> print_data io uart (bytes_of ''PC(injected):0x%x_%x,'') h;
     let h = io_write io IO_ADDR (INJECT_ADDRESS cfg) h;
     h \<leftarrow> print_data io uart (bytes_of ''current_val(injected):0x%x_%x,'') h;
     let h = flip_bits io cfg h;
     print_data io uart (bytes_of ''new_val(injected):0x%x_%x,'') h
   }"

text \<open>The watchdog loop.\<close>

partial_function (option) wait_finish :: "'h io_ports \<Rightarrow> u32 \<Rightarrow> u32 \<Rightarrow> 'h \<Rightarrow> (u32 \<times> 'h) option" where
  "wait_finish io max_duration watchdog h =
     (let (flags, h) = io_read io IO_RISCV_FLAGS h in
      if flags AND 0x2 \<noteq> 0x2 \<and> watchdog \<le> max_duration then wait_finish io max_duration (watchdog + 1) h
      else Some (watchdog, h))"

declare wait_stall.simps [code] wait_finish.simps [code]

definition print_results :: "'h io_ports \<Rightarrow> 'h uart_hw \<Rightarrow> inject_cfg \<Rightarrow> u32 \<Rightarrow> 'h \<Rightarrow> 'h option" where
  "print_results io uart cfg watchdog h = do {
     let h = io_write io IO_CONTROL 0x2 h;
     let h = io_write io IO_ADDR 0x20 h;
     h \<leftarrow> print_data io uart (bytes_of ''PC:0x%x_%x,'') h;
     let h = io_write io IO_ADDR 0xa h;
     h \<leftarrow> (if PROGRAM_MAX_DURATION cfg < watchdog
           then alt_printf (alt_putchar uart) (bytes_of ''result(reg a0):dnf,'') [] h
           else print_data io uart (bytes_of ''result(reg a0):0x%x_%x,'') h);
     alt_printf (alt_putchar uart) (bytes_of ''duration:0x%x'') [Num watchdog] h
   }"

text \<open>The memory dump: \<open>i\<close> runs over the byte addresses of the 64-bit words.\<close>

definition dump_word :: "'h io_ports \<Rightarrow> 'h uart_hw \<Rightarrow> u32 \<Rightarrow> 'h \<Rightarrow> 'h option" where
  "dump_word io uart i h =
     (let h = io_write io IO_ADDR i h;
          h = io_write io IO_ADDR i h;
          (high, h) = io_read io IO_DATA_HIGH h;
          (low, h) = io_read io IO_DATA_LOW h
      in alt_printf (alt_putchar uart) (bytes_of ''0x%x:0x%x_0x%x,'') [Num (drop_bit 3 i), Num high, Num low] h)"

function dump_loop :: "'h io_ports \<Rightarrow> 'h uart_hw \<Rightarrow> u32 \<Rightarrow> 'h \<Rightarrow> 'h option" where
  "dump_loop io uart i h =
     (if i < 0x8000 then do { h \<leftarrow> dump_word io uart i h; dump_loop io uart (i + 8) h } else Some h)"
  by pat_completeness auto
termination
proof (relation "measure (\<lambda>(io, uart, i, h). 0x8008 - unat i)")
  fix i :: u32
  assume "i < 0x8000"
  then have "unat i < 0x8000" by (simp add: word_less_nat_alt)
  moreover from this have "unat (i + 8) = unat i + 8" by (subst unat_plus_if_small) auto
  ultimately show "\<And>io h uart x. ((io, uart, i + 8, x), io, uart, i, h) \<in> measure (\<lambda>(io, uart, i, h). 0x8008 - unat i)"
    by simp
qed simp

declare dump_loop.simps [simp del]

definition dump_memory :: "'h io_ports \<Rightarrow> 'h uart_hw \<Rightarrow> 'h \<Rightarrow> 'h option" where
  "dump_memory io uart h = do {
     h \<leftarrow> alt_printf (alt_putchar uart) (bytes_of ''||memdump||'') [] h;
     let h = io_write io IO_CONTROL 0x8 h;
     h \<leftarrow> dump_loop io uart 0 h;
     alt_printf (alt_putchar uart) [10] [] h
   }"

text \<open>\<open>main\<close> up to its event loop, for any values of the macros: the template.\<close>

definition hello_world_small_main :: "inject_cfg \<Rightarrow> 'h io_ports \<Rightarrow> 'h uart_hw \<Rightarrow> 'h \<Rightarrow> (u32 \<times> 'h) option" where
  "hello_world_small_main cfg io uart h = do {
     let h = load_delay io cfg h;
     let h = io_write io IO_CONTROL 0x20 h;
     h \<leftarrow> wait_stall io h;
     h \<leftarrow> inject_fault io uart cfg h;
     let h = io_write io IO_CONTROL 0x0 h;
     (watchdog, h) \<leftarrow> wait_finish io (PROGRAM_MAX_DURATION cfg) 0 h;
     h \<leftarrow> print_results io uart cfg watchdog h;
     h \<leftarrow> dump_memory io uart h;
     Some (watchdog, h)
   }"

text \<open>\<open>inject.c\<close> with the values it was checked in with.\<close>

definition inject_values :: inject_cfg where
  "inject_values = \<lparr>INJECT_DELAY = 8647, INJECT_ADDRESS = 31, INJECT_DATA_LOW = 0,
     INJECT_DATA_HIGH = 134217728, PROGRAM_MAX_DURATION = 10682\<rparr>"

definition inject_main :: "'h io_ports \<Rightarrow> 'h uart_hw \<Rightarrow> 'h \<Rightarrow> (u32 \<times> 'h) option" where
  "inject_main io uart h = hello_world_small_main inject_values io uart h"

section \<open>The watchdog\<close>

text \<open>The board after \<open>n\<close> polls of the flags, and whether the poll from a state reads the end.\<close>

definition poll :: "'h io_ports \<Rightarrow> nat \<Rightarrow> 'h \<Rightarrow> 'h" where
  "poll io n h = ((\<lambda>h. snd (io_read io IO_RISCV_FLAGS h)) ^^ n) h"

definition ended :: "'h io_ports \<Rightarrow> 'h \<Rightarrow> bool" where
  "ended io h \<longleftrightarrow> fst (io_read io IO_RISCV_FLAGS h) AND 0x2 = 0x2"

lemma poll_Suc: "poll io n (snd (io_read io 0x5000 h)) = poll io (Suc n) h"
  by (simp add: poll_def funpow_Suc_right del: funpow.simps)

text \<open>
  The first poll at which the loop stops: the program has ended or the duration is past the limit.
  The duration is a 32-bit word, so with the limit \<open>0xFFFFFFFF\<close> it never is.
\<close>

definition first_stop :: "(nat \<Rightarrow> bool) \<Rightarrow> u32 \<Rightarrow> nat \<Rightarrow> bool" where
  "first_stop over limit n \<longleftrightarrow> (over n \<or> limit < of_nat n) \<and> (\<forall>j < n. \<not> over j \<and> of_nat j \<le> limit)"

lemma first_stop_unique: "first_stop over limit n \<Longrightarrow> first_stop over limit m \<Longrightarrow> n = m"
  unfolding first_stop_def by (metis linorder_neqE_nat not_less)

lemma first_stop_exists: "(\<exists>n. first_stop over limit n) \<longleftrightarrow> limit \<noteq> - 1 \<or> (\<exists>j. over j)"
proof -
  have "limit < of_nat (unat limit + 1)" if "limit \<noteq> - 1"
    using unat_limit_Suc [OF that] by (simp add: word_less_nat_alt del: of_nat_add)
  then have "\<exists>n. over n \<or> limit < of_nat n" if "limit \<noteq> - 1 \<or> (\<exists>j. over j)" using that by blast
  moreover have "\<exists>n. first_stop over limit n" if ex: "\<exists>n. over n \<or> limit < of_nat n"
  proof
    show "first_stop over limit (LEAST n. over n \<or> limit < of_nat n)"
      unfolding first_stop_def using LeastI_ex [OF ex] not_less_Least [where P = "\<lambda>n. over n \<or> limit < of_nat n"]
      by (meson not_less)
  qed
  moreover have "limit \<noteq> - 1 \<or> (\<exists>j. over j)" if "first_stop over limit n" for n
    using that word_order.extremum_strict [of "of_nat n :: u32"] unfolding first_stop_def by blast
  ultimately show ?thesis by blast
qed

lemma first_stop_bound:
  assumes "first_stop over limit n" "limit \<noteq> - 1"
  shows "n \<le> unat limit + 1"
proof (rule ccontr)
  assume "\<not> n \<le> unat limit + 1"
  then have "of_nat (unat limit + 1) \<le> limit" using assms(1) unfolding first_stop_def by (meson not_le)
  then show False using unat_limit_Suc [OF assms(2)] by (simp add: word_le_nat_alt del: of_nat_add)
qed

lemma wait_finish_stops:
  assumes "ended io (poll io n h) \<or> limit < watchdog + of_nat n"
    and "\<forall>j < n. \<not> ended io (poll io j h) \<and> watchdog + of_nat j \<le> limit"
  shows "wait_finish io limit watchdog h = Some (watchdog + of_nat n, poll io (n + 1) h)"
  using assms
proof (induction n arbitrary: watchdog h)
  case 0
  then show ?case by (subst wait_finish.simps) (auto simp: split_beta ended_def poll_def)
next
  case (Suc n)
  let ?h = "snd (io_read io 0x5000 h)"
  have "\<not> ended io h \<and> watchdog \<le> limit" using Suc.prems(2) by (auto simp: poll_def dest: spec [of _ 0])
  then have step: "wait_finish io limit watchdog h = wait_finish io limit (watchdog + 1) ?h"
    by (subst wait_finish.simps) (simp add: split_beta ended_def)
  have "wait_finish io limit (watchdog + 1) ?h = Some (watchdog + 1 + of_nat n, poll io (n + 1) ?h)"
  proof (rule Suc.IH)
    show "ended io (poll io n ?h) \<or> limit < watchdog + 1 + of_nat n"
      using Suc.prems(1) by (simp add: poll_Suc add.assoc)
    show "\<forall>j < n. \<not> ended io (poll io j ?h) \<and> watchdog + 1 + of_nat j \<le> limit"
    proof (intro allI impI)
      fix j
      assume "j < n"
      then show "\<not> ended io (poll io j ?h) \<and> watchdog + 1 + of_nat j \<le> limit"
        using Suc.prems(2) [rule_format, of "Suc j"] by (simp add: poll_Suc add.assoc)
    qed
  qed
  then show ?case unfolding step by (simp add: poll_Suc add.assoc)
qed


lemma wait_finish_Some:
  fixes io :: "'a io_ports"
  assumes "wait_finish io limit watchdog h = Some r"
  shows "\<exists>n. (ended io (poll io n h) \<or> limit < watchdog + of_nat n)
    \<and> (\<forall>j < n. \<not> ended io (poll io j h) \<and> watchdog + of_nat j \<le> limit)"
proof (rule wait_finish.raw_induct [where P = "\<lambda>io limit watchdog h r.
    \<exists>n. (ended io (poll io n h) \<or> limit < watchdog + of_nat n)
      \<and> (\<forall>j < n. \<not> ended io (poll io j h) \<and> watchdog + of_nat j \<le> limit)", OF _ assms])
  fix loop :: "'a io_ports \<Rightarrow> u32 \<Rightarrow> u32 \<Rightarrow> 'a \<Rightarrow> (u32 \<times> 'a) option"
    and io :: "'a io_ports" and limit watchdog :: u32 and h :: 'a and r :: "u32 \<times> 'a"
  let ?h = "snd (io_read io 0x5000 h)"
  assume IH: "\<And>(io :: 'a io_ports) limit watchdog h r. loop io limit watchdog h = Some r \<Longrightarrow>
      \<exists>n. (ended io (poll io n h) \<or> limit < watchdog + of_nat n)
        \<and> (\<forall>j < n. \<not> ended io (poll io j h) \<and> watchdog + of_nat j \<le> limit)"
    and step: "(let (flags, h) = io_read io 0x5000 h
       in if flags AND 0x2 \<noteq> 0x2 \<and> watchdog \<le> limit then loop io limit (watchdog + 1) h
          else Some (watchdog, h)) = Some r"
  show "\<exists>n. (ended io (poll io n h) \<or> limit < watchdog + of_nat n)
      \<and> (\<forall>j < n. \<not> ended io (poll io j h) \<and> watchdog + of_nat j \<le> limit)"
  proof (cases "ended io h \<or> limit < watchdog")
    case True
    then show ?thesis by (intro exI [of _ 0]) (simp add: poll_def)
  next
    case False
    then have "loop io limit (watchdog + 1) ?h = Some r"
      using step by (simp add: split_beta ended_def not_less)
    from IH [OF this] obtain n where n: "ended io (poll io n ?h) \<or> limit < watchdog + 1 + of_nat n"
        "\<forall>j < n. \<not> ended io (poll io j ?h) \<and> watchdog + 1 + of_nat j \<le> limit" by blast
    have "\<not> ended io (poll io j h) \<and> watchdog + of_nat j \<le> limit" if "j < Suc n" for j
    proof (cases j)
      case 0
      then show ?thesis using False by (simp add: poll_def not_less)
    next
      case (Suc i)
      then show ?thesis using that n(2) by (simp add: poll_Suc add.assoc)
    qed
    then show ?thesis using n(1) by (intro exI [of _ "Suc n"]) (simp add: poll_Suc add.assoc)
  qed
qed

text \<open>
  The watchdog loop stops at the first poll that shows the end of the program or finds the
  duration past the limit, and returns the number of the polls before; when there is no such
  poll, because the limit is the largest word and the program does not end, it does not return.
\<close>

theorem watchdog_outcomes:
  "wait_finish io limit 0 h = (if \<exists>n. first_stop (\<lambda>j. ended io (poll io j h)) limit n
     then let n = THE n. first_stop (\<lambda>j. ended io (poll io j h)) limit n in Some (of_nat n, poll io (n + 1) h)
     else None)"
proof (cases "\<exists>n. first_stop (\<lambda>j. ended io (poll io j h)) limit n")
  case True
  then obtain n where n: "first_stop (\<lambda>j. ended io (poll io j h)) limit n" by blast
  then have "(THE n. first_stop (\<lambda>j. ended io (poll io j h)) limit n) = n" by (blast intro: first_stop_unique)
  then show ?thesis using n wait_finish_stops [of io n h limit 0] by (auto simp: first_stop_def Let_def)
next
  case False
  then have "wait_finish io limit 0 h = None"
    using wait_finish_Some [of io limit 0 h] by (cases "wait_finish io limit 0 h") (fastforce simp: first_stop_def)+
  then show ?thesis using False by simp
qed

lemma wait_finish_first_stop:
  "first_stop (\<lambda>j. ended io (poll io j h)) limit n \<Longrightarrow> wait_finish io limit 0 h = Some (of_nat n, poll io (n + 1) h)"
  using wait_finish_stops [of io n h limit 0] by (simp add: first_stop_def)

lemma wait_finish_forever:
  "\<nexists>n. first_stop (\<lambda>j. ended io (poll io j h)) limit n \<Longrightarrow> wait_finish io limit 0 h = None"
  using watchdog_outcomes [of io limit h] by simp

text \<open>A program that ends after three polls.\<close>

definition demo_poll :: "nat io_ports" where
  "demo_poll = \<lparr>io_write = (\<lambda>_ _ h. h), io_read = (\<lambda>_ h. (if 3 \<le> h then 2 else 0, h + 1)), io_usleep = (\<lambda>_ h. h)\<rparr>"

lemma demo_poll_poll: "poll demo_poll n h = h + n"
  by (induction n) (simp_all add: poll_def demo_poll_def)

theorem watchdog_outcomes_witness: "wait_finish demo_poll 10 0 0 = Some (3, 4)"
proof -
  have "ended demo_poll h \<longleftrightarrow> 3 \<le> h" for h by (simp add: ended_def demo_poll_def)
  then have s: "first_stop (\<lambda>j. ended demo_poll (poll demo_poll j 0)) 10 3"
    by (auto simp: first_stop_def demo_poll_poll less_Suc_eq numeral_3_eq_3)
  then have "(THE n. first_stop (\<lambda>j. ended demo_poll (poll demo_poll j 0)) 10 n) = 3" by (blast intro: first_stop_unique)
  then show ?thesis using s watchdog_outcomes [of demo_poll 10 0] by (auto simp: demo_poll_poll)
qed

end
