(* ===== verification/Board.thy ===== *)
theory Board
  imports Inject
begin

text \<open>
  The board the injection program drives, as far as \<open>components/core.sv\<close>, \<open>decode.sv\<close>,
  \<open>csr_dec.sv\<close>, \<open>fetch.sv\<close> and \<open>DE0_NANO.sv\<close> define it: the parallel ports, the cycle counter that
  stalls the core, and the debug port, which writes a register with its value xored with a mask
  at every clock edge while it is enabled, reads and writes the data memory, reads the status
  registers, and loads the delay and the flag of the last breakpoint.

  What one instruction does to the registers and to the rest of the core (program counter,
  status registers, data memory), in the cycle with the given number, is the record \<open>core_fns\<close>,
  a parameter here that theory Core instantiates; in particular
  \<open>mem_port\<close> is an edge at the port of the data memory (a block of the device) with a write
  enable, a read enable, an address and data, and \<open>mem_q\<close> is the port's output.  A stopped core
  decodes nothing: all control signals of \<open>maindec.sv\<close> are 0.

  Both processors run on one clock; \<open>sched n\<close> is the number of clock edges that pass during
  the \<open>n\<close>th access of the program to the outside.  The console is the JTAG UART with its FIFO of 64
  bytes (\<open>system.h\<close>), of which \<open>b_room\<close> are free: a byte written while there is no room is lost,
  and \<open>host n\<close> is the number of bytes that the host takes out before the \<open>n\<close>th access, when that
  access is one to the UART.
\<close>

section \<open>The core and its debug port\<close>

record 'x core_fns =
  exec :: "u64 \<Rightarrow> u64 list \<times> 'x \<Rightarrow> u64 list \<times> 'x"
  reset_rest :: "'x \<Rightarrow> 'x"
  ebreak_now :: "'x \<Rightarrow> bool"
  pc_of :: "'x \<Rightarrow> u64"
  mem_port :: "bool \<Rightarrow> bool \<Rightarrow> u32 \<Rightarrow> u64 \<Rightarrow> 'x \<Rightarrow> 'x"
  mem_q :: "'x \<Rightarrow> u64"
  csr_out :: "nat \<Rightarrow> 'x \<Rightarrow> u64"

record 'x board =
  b_control :: u32
  b_addr :: u32
  b_high :: u32
  b_low :: u32
  b_regs :: "u64 list"
  b_rest :: 'x
  b_cycles :: u64
  b_stall_at :: u64
  b_ebreak :: bool
  b_console :: "u8 list"
  b_room :: nat
  b_ops :: nat

definition b_data :: "'x board \<Rightarrow> u64" where
  "b_data b = push_bit 32 (ucast (b_high b)) OR ucast (b_low b)"

definition b_index :: "'x board \<Rightarrow> nat" where
  "b_index b = unat (b_addr b) mod 32"

definition cycle_stall :: "'x board \<Rightarrow> bool" where
  "cycle_stall b \<longleftrightarrow> b_stall_at b = b_cycles b \<and> bit (b_control b) 5"

definition halted :: "'x board \<Rightarrow> bool" where
  "halted b \<longleftrightarrow> cycle_stall b \<or> b_control b AND 0x1E \<noteq> 0"

text \<open>The register write of \<open>wideXOR\<close> and \<open>regfile\<close>; register 0 is not written.\<close>

definition xor_reg :: "nat \<Rightarrow> u64 \<Rightarrow> u64 list \<Rightarrow> u64 list" where
  "xor_reg i m R = (if i = 0 then R else R[i := R ! i XOR m])"

text \<open>The asynchronous resets.\<close>

definition settle :: "'x core_fns \<Rightarrow> 'x board \<Rightarrow> 'x board" where
  "settle f b =
     (let b = (if bit (b_control b) 0 then b\<lparr>b_rest := reset_rest f (b_rest b), b_cycles := 0, b_ebreak := False\<rparr> else b)
      in if bit (b_control b) 5 then b else b\<lparr>b_stall_at := 0\<rparr>)"

text \<open>
  The debug port's access to the data memory.  An edge with neither enable is left out: the block
  keeps its contents and its output then.
\<close>

definition debug_mem :: "'x core_fns \<Rightarrow> 'x board \<Rightarrow> 'x" where
  "debug_mem f b =
     (if bit (b_control b) 2 \<or> bit (b_control b) 3
      then mem_port f (bit (b_control b) 2) (bit (b_control b) 3) (b_addr b) (b_data b) (b_rest b)
      else b_rest b)"

text \<open>The flag of the last breakpoint, which the debug port can set and clear.\<close>

definition next_ebreak :: "'x core_fns \<Rightarrow> 'x board \<Rightarrow> bool" where
  "next_ebreak f b =
     (if bit (b_control b) 4
      then (if bit (b_addr b) 12 \<and> bit (b_addr b) 0 then bit (b_data b) 0 else b_ebreak b)
      else b_ebreak b \<or> (\<not> halted b \<and> ebreak_now f (b_rest b)))"

text \<open>One clock edge.\<close>

definition clock :: "'x core_fns \<Rightarrow> 'x board \<Rightarrow> 'x board" where
  "clock f b =
     (let (R, X) = (if halted b then (b_regs b, debug_mem f b) else exec f (b_cycles b) (b_regs b, b_rest b));
          R = (if bit (b_control b) 1 then xor_reg (b_index b) (b_data b) (b_regs b) else R);
          n = (if halted b then b_cycles b else b_cycles b + 1);
          d = (if bit (b_control b) 4 \<and> bit (b_addr b) 12 then b_data b else b_stall_at b)
      in settle f (b\<lparr>b_regs := R, b_rest := X, b_cycles := n, b_stall_at := d, b_ebreak := next_ebreak f b\<rparr>))"

section \<open>The accesses of the program\<close>

definition elapse :: "'x core_fns \<Rightarrow> (nat \<Rightarrow> nat) \<Rightarrow> 'x board \<Rightarrow> 'x board" where
  "elapse f sched b = (clock f ^^ sched (b_ops b)) (b\<lparr>b_ops := b_ops b + 1\<rparr>)"

definition set_port :: "u32 \<Rightarrow> u32 \<Rightarrow> 'x board \<Rightarrow> 'x board" where
  "set_port a v b =
     (if a = IO_CONTROL then b\<lparr>b_control := v AND 0x3F\<rparr>
      else if a = IO_ADDR then b\<lparr>b_addr := v AND 0x7FFF\<rparr>
      else if a = IO_DATA_HIGH then b\<lparr>b_high := v\<rparr>
      else if a = IO_DATA_LOW then b\<lparr>b_low := v\<rparr>
      else b)"

text \<open>
  The status registers by their address; the cycle counter is number 5 of the bank.  The
  constants are \<open>misa\<close> and the number of the hardware thread.
\<close>

definition csr_dec :: "(nat \<Rightarrow> u64) \<Rightarrow> u32 \<Rightarrow> u64" where
  "csr_dec bank a =
     (if a = 0x301 then 0x8000000000100100
      else if a = 0xf11 \<or> a = 0xf12 \<or> a = 0xf13 \<or> a = 0xf14 then 0
      else if a = 0x340 then bank 0
      else if a = 0x300 then bank 1
      else if a = 0x342 then bank 2
      else if a = 0x305 then bank 3
      else if a = 0x341 then bank 4
      else if a = 0xC00 then bank 5
      else 0)"

definition debug_csr :: "'x core_fns \<Rightarrow> 'x board \<Rightarrow> u64" where
  "debug_csr f b = csr_dec (\<lambda>n. if n = 5 then b_cycles b else csr_out f n (b_rest b)) (b_addr b AND 0xFFF)"

text \<open>What the data ports show: memory, the program counter, a status register, or a register.\<close>

definition data_in :: "'x core_fns \<Rightarrow> 'x board \<Rightarrow> u64" where
  "data_in f b =
     (if bit (b_control b) 3 then mem_q f (b_rest b)
      else if bit (b_addr b) 5 then pc_of f (b_rest b)
      else if bit (b_control b) 4 then debug_csr f b
      else b_regs b ! b_index b)"

definition get_port :: "'x core_fns \<Rightarrow> u32 \<Rightarrow> 'x board \<Rightarrow> u32" where
  "get_port f a b =
     (if a = IO_RISCV_FLAGS then (if cycle_stall b then 1 else 0) OR (if b_ebreak b then 2 else 0)
      else if a = IO_DATA_HIGH then ucast (drop_bit 32 (data_in f b))
      else if a = IO_DATA_LOW then ucast (data_in f b)
      else 0)"

definition board_io :: "'x core_fns \<Rightarrow> (nat \<Rightarrow> nat) \<Rightarrow> 'x board io_ports" where
  "board_io f sched = \<lparr>
     io_write = (\<lambda>a v b. elapse f sched (settle f (set_port a v b))),
     io_read = (\<lambda>a b. (get_port f a b, elapse f sched b)),
     io_usleep = (\<lambda>_ b. elapse f sched b)\<rparr>"

text \<open>The console: the room is in the upper half of the control register.\<close>

definition host_reads :: "(nat \<Rightarrow> nat) \<Rightarrow> 'x board \<Rightarrow> 'x board" where
  "host_reads host b = b\<lparr>b_room := min 64 (b_room b + host (b_ops b))\<rparr>"

definition board_uart :: "'x core_fns \<Rightarrow> (nat \<Rightarrow> nat) \<Rightarrow> (nat \<Rightarrow> nat) \<Rightarrow> 'x board uart_hw" where
  "board_uart f sched host = \<lparr>
     hw_data = (\<lambda>b. (0, elapse f sched (host_reads host b))),
     hw_control = (\<lambda>b. let b = host_reads host b in (push_bit 16 (of_nat (b_room b)), elapse f sched b)),
     hw_put_data = (\<lambda>c b. let b = host_reads host b in elapse f sched
       (if 0 < b_room b then b\<lparr>b_console := b_console b @ [c], b_room := b_room b - 1\<rparr> else b)),
     hw_put_control = (\<lambda>_ b. elapse f sched (host_reads host b))\<rparr>"

text \<open>The host never stops reading for good.\<close>

definition host_listens :: "(nat \<Rightarrow> nat) \<Rightarrow> bool" where
  "host_listens host \<longleftrightarrow> (\<forall>n. \<exists>m. 0 < host (n + m))"

section \<open>The console\<close>

lemma console_clock [simp]:
  "b_console (clock f b) = b_console b" "b_room (clock f b) = b_room b" "b_ops (clock f b) = b_ops b"
  by (simp_all add: clock_def settle_def split_beta Let_def)

lemma console_elapse [simp]:
  "b_console (elapse f sched b) = b_console b" "b_room (elapse f sched b) = b_room b"
  "b_ops (elapse f sched b) = b_ops b + 1"
proof -
  have "b_console ((clock f ^^ n) b) = b_console b \<and> b_room ((clock f ^^ n) b) = b_room b
      \<and> b_ops ((clock f ^^ n) b) = b_ops b" for n b
    by (induction n) simp_all
  then show "b_console (elapse f sched b) = b_console b" "b_room (elapse f sched b) = b_room b"
    "b_ops (elapse f sched b) = b_ops b + 1" by (simp_all add: elapse_def)
qed

lemma room_field:
  assumes "m \<le> 64"
  shows "push_bit 16 (of_nat m :: u32) AND 0xFFFF0000 = 0 \<longleftrightarrow> m = 0"
proof -
  have "(0xFFFF0000 :: u32) = NOT (mask 16)" by (simp add: mask_numeral)
  moreover have "push_bit 16 (of_nat m :: u32) AND NOT (mask 16) = push_bit 16 (of_nat m)"
    by (auto intro!: bit_word_eqI simp: bit_simps)
  ultimately have "push_bit 16 (of_nat m :: u32) AND 0xFFFF0000 = push_bit 16 (of_nat m)" by metis
  moreover have "unat (push_bit 16 (of_nat m) :: u32) = m * 65536"
  proof -
    have "push_bit 16 (of_nat m :: u32) = of_nat (m * 65536)" by (simp add: push_bit_eq_mult)
    moreover have "unat (of_nat (m * 65536) :: u32) = m * 65536" by (rule unat_u32_small) (use assms in simp)
    ultimately show ?thesis by metis
  qed
  ultimately show ?thesis by (simp add: word_unat_eq_iff)
qed

lemma board_space: "has_space (board_uart f sched host) b \<longleftrightarrow> 0 < b_room (host_reads host b)"
  by (simp add: has_space_def board_uart_def Let_def room_field host_reads_def)

lemma board_logs: "device_logs (board_uart f sched host) b_console"
  unfolding device_logs_def board_space by (simp add: board_uart_def Let_def host_reads_def)

lemma board_grants:
  assumes "host_listens host"
  shows "device_grants (board_uart f sched host) (\<lambda>b. LEAST m. 0 < host (b_ops b + m))"
  unfolding device_grants_def board_space
proof (intro allI impI)
  fix b :: "'a board"
  let ?P = "\<lambda>n m. 0 < host (n + m)"
  assume "\<not> 0 < b_room (host_reads host b)"
  then have "\<not> ?P (b_ops b) 0" by (simp add: host_reads_def)
  moreover have "?P (b_ops b) (LEAST m. ?P (b_ops b) m)"
    using assms unfolding host_listens_def by (meson LeastI_ex)
  ultimately obtain m where m: "(LEAST m. ?P (b_ops b) m) = Suc m" "?P (b_ops b + 1) m"
    by (cases "LEAST m. ?P (b_ops b) m") auto
  have "(LEAST m. ?P (b_ops b + 1) m) \<le> m" by (rule Least_le) (rule m(2))
  then show "(LEAST m. ?P (b_ops (snd (hw_control (board_uart f sched host) b))) m) < (LEAST m. ?P (b_ops b) m)"
    unfolding m(1) by (simp add: board_uart_def Let_def host_reads_def)
qed

section \<open>While the debug port has the core\<close>

lemma xor_reg_twice: "xor_reg i m (xor_reg i m R) = R"
  by (cases "i < length R") (simp_all add: xor_reg_def xor.assoc list_update_beyond)

lemma xor_reg_0: "xor_reg i 0 R = R"
  by (simp add: xor_reg_def)

definition held :: "'x board \<Rightarrow> bool" where
  "held b \<longleftrightarrow> b_control b = 2 \<and> b_stall_at b = 0"

lemma clock_held: "held b \<Longrightarrow> clock f b = b\<lparr>b_regs := xor_reg (b_index b) (b_data b) (b_regs b)\<rparr>"
  by (simp add: clock_def held_def halted_def settle_def cycle_stall_def debug_mem_def next_ebreak_def bit_iff_odd)

lemma clocks_held:
  "held b \<Longrightarrow> (clock f ^^ n) b
    = b\<lparr>b_regs := (if odd n then xor_reg (b_index b) (b_data b) (b_regs b) else b_regs b)\<rparr>"
proof (induction n)
  case (Suc n)
  have "held (b\<lparr>b_regs := R\<rparr>)" for R using Suc.prems by (simp add: held_def)
  then show ?case using Suc by (simp add: clock_held b_index_def b_data_def xor_reg_twice)
qed simp

lemma elapse_held:
  "held b \<Longrightarrow> elapse f sched b = b\<lparr>b_ops := b_ops b + 1,
    b_regs := (if odd (sched (b_ops b)) then xor_reg (b_index b) (b_data b) (b_regs b) else b_regs b)\<rparr>"
  using clocks_held [where b = "b\<lparr>b_ops := b_ops b + 1\<rparr>"] by (simp add: elapse_def held_def b_index_def b_data_def)

text \<open>With an empty mask nothing happens to the core, whatever the program prints.\<close>

definition quiet :: "'x board \<Rightarrow> bool" where
  "quiet b \<longleftrightarrow> held b \<and> b_high b = 0 \<and> b_low b = 0"

lemma elapse_quiet: "quiet b \<Longrightarrow> elapse f sched b = b\<lparr>b_ops := b_ops b + 1\<rparr>"
  by (simp add: elapse_held quiet_def b_data_def xor_reg_0)

definition same_core :: "'x board \<Rightarrow> 'x board \<Rightarrow> bool" where
  "same_core b c \<longleftrightarrow> c = b\<lparr>b_console := b_console c, b_room := b_room c, b_ops := b_ops c\<rparr> \<and> b_ops b \<le> b_ops c"

lemma same_coreD:
  assumes "same_core b c"
  shows "b_regs c = b_regs b" "b_rest c = b_rest b" "b_addr c = b_addr b" "b_high c = b_high b" "b_low c = b_low b"
    "b_control c = b_control b" "b_stall_at c = b_stall_at b"
  using assms by (cases b; cases c; simp add: same_core_def)+

lemma same_core_quiet: "same_core b c \<Longrightarrow> quiet b \<Longrightarrow> quiet c"
  by (simp add: quiet_def held_def same_coreD)

lemma quiet_keeps:
  assumes "quiet b"
  shows "kept_by (same_core b) (board_uart f sched host)"
  unfolding kept_by_def
proof (intro allI impI)
  fix c
  assume same: "same_core b c"
  then obtain t r n where c: "c = b\<lparr>b_console := t, b_room := r, b_ops := n\<rparr>" "b_ops b \<le> n"
    unfolding same_core_def by auto
  have "elapse f sched d = d\<lparr>b_ops := b_ops d + 1\<rparr>"
    if "b_control d = b_control b" "b_high d = b_high b" "b_low d = b_low b" "b_stall_at d = b_stall_at b" for d
    using assms that by (intro elapse_quiet) (simp add: quiet_def held_def)
  then show "same_core b (snd (hw_control (board_uart f sched host) c))
      \<and> (\<forall>ch. same_core b (hw_put_data (board_uart f sched host) ch c))"
    using c(2) by (simp add: c(1) board_uart_def host_reads_def Let_def same_core_def)
qed

lemma quiet_sink:
  assumes "quiet b" "host_listens host"
  shows "char_sink (alt_putchar (board_uart f sched host)) b_console (same_core b)"
  by (rule putchar_keeps [OF board_logs board_grants [OF assms(2)] quiet_keeps [OF assms(1)]])

lemma print_data_quiet:
  assumes "quiet b" "host_listens host" "\<And>high low. printf_text fmt [Num high, Num low] \<noteq> None"
  shows "\<exists>c. print_data (board_io f sched) (board_uart f sched host) fmt b = Some c \<and> same_core b c"
proof -
  let ?high = "get_port f 0x5030 b" and ?b = "elapse f sched (elapse f sched b)"
  let ?low = "get_port f 0x5040 (elapse f sched b)"
  have q: "quiet (b\<lparr>b_ops := n\<rparr>)" for n using assms(1) by (simp add: quiet_def held_def)
  then have b2: "?b = b\<lparr>b_ops := b_ops b + 2\<rparr>" using assms(1) by (simp add: elapse_quiet)
  obtain t where "printf_text fmt [Num ?high, Num ?low] = Some t" using assms(3) by blast
  from char_sink.printf_emits [OF quiet_sink [OF q assms(2)] this]
  have "\<forall>s. same_core ?b s \<longrightarrow>
      (\<exists>c. alt_printf (alt_putchar (board_uart f sched host)) fmt [Num ?high, Num ?low] s = Some c \<and> same_core ?b c)"
    unfolding char_sink.emits_def [OF quiet_sink [OF q assms(2)]] b2 by fast
  moreover have "same_core ?b ?b" by (simp add: same_core_def)
  ultimately obtain c where
    "alt_printf (alt_putchar (board_uart f sched host)) fmt [Num ?high, Num ?low] ?b = Some c" "same_core ?b c"
    by blast
  then show ?thesis
    by (auto simp: print_data_def board_io_def b2 same_core_def)
qed

lemma write_quiet:
  assumes "quiet b" "same_core b c"
  shows "same_core (b\<lparr>b_addr := v AND 0x7FFF\<rparr>) (io_write (board_io f sched) 0x5020 v c)"
    and "quiet (b\<lparr>b_addr := v AND 0x7FFF\<rparr>)"
proof -
  show "quiet (b\<lparr>b_addr := v AND 0x7FFF\<rparr>)" using assms(1) by (simp add: quiet_def held_def)
  have c: "quiet (c\<lparr>b_addr := v AND 0x7FFF\<rparr>)"
    using same_core_quiet [OF assms(2,1)] by (simp add: quiet_def held_def)
  then have "settle f (c\<lparr>b_addr := v AND 0x7FFF\<rparr>) = c\<lparr>b_addr := v AND 0x7FFF\<rparr>"
    by (cases c) (simp add: settle_def quiet_def held_def bit_iff_odd)
  then show "same_core (b\<lparr>b_addr := v AND 0x7FFF\<rparr>) (io_write (board_io f sched) 0x5020 v c)"
    using assms(2) c by (cases b; cases c) (simp add: board_io_def set_port_def elapse_quiet same_core_def)
qed

text \<open>
  Setting and clearing a mask flips its bits once if an odd number of clock edges passed while it
  was set: the low half is set during access \<open>n\<close>, the high half during access \<open>n + 2\<close>.
\<close>

definition flipped_bits :: "(nat \<Rightarrow> nat) \<Rightarrow> nat \<Rightarrow> inject_cfg \<Rightarrow> u64" where
  "flipped_bits sched n cfg =
     (if odd (sched (n + 2)) then push_bit 32 (ucast (INJECT_DATA_HIGH cfg)) else 0)
     OR (if odd (sched n) then ucast (INJECT_DATA_LOW cfg) else 0)"

lemma xor_parts: "xor_reg i (push_bit 32 (ucast h)) (xor_reg i (ucast l) R) = xor_reg i (push_bit 32 (ucast h) OR ucast l) R"
  for h l :: u32
proof -
  have d: "(push_bit 32 (ucast h) :: u64) OR ucast l = ucast l XOR push_bit 32 (ucast h)"
    using bit_imp_le_length [of l] by (intro bit_word_eqI) (fastforce simp: bit_simps)
  show ?thesis
    by (cases "i < length R") (simp_all add: xor_reg_def d xor.assoc list_update_beyond)
qed

lemma flip_bits_ok:
  assumes "quiet b"
  shows "flip_bits (board_io f sched) cfg b = b\<lparr>b_ops := b_ops b + 4,
    b_regs := xor_reg (b_index b) (flipped_bits sched (b_ops b) cfg) (b_regs b)\<rparr>"
proof -
  have s: "settle f c = c" if "held c" for c
    using that by (cases c) (simp add: settle_def held_def bit_iff_odd)
  have h: "b_control b = 2" "b_stall_at b = 0" "b_high b = 0" "b_low b = 0"
    using assms by (simp_all add: quiet_def held_def)
  show ?thesis
    by (cases b) (use h in \<open>simp add: flip_bits_def board_io_def set_port_def s held_def elapse_held
      b_index_def b_data_def xor_reg_0 xor_parts flipped_bits_def add_2_eq_Suc'\<close>)
qed

lemma take_hold:
  assumes "b_high b = 0" "b_low b = 0"
  shows "same_core (b\<lparr>b_control := 2, b_stall_at := 0\<rparr>) (io_write (board_io f sched) 0x5010 2 b)"
    and "quiet (b\<lparr>b_control := 2, b_stall_at := 0\<rparr>)"
proof -
  show q: "quiet (b\<lparr>b_control := 2, b_stall_at := 0\<rparr>)" using assms by (simp add: quiet_def held_def)
  show "same_core (b\<lparr>b_control := 2, b_stall_at := 0\<rparr>) (io_write (board_io f sched) 0x5010 2 b)"
    using q by (cases b) (simp add: board_io_def set_port_def settle_def bit_iff_odd elapse_quiet same_core_def)
qed

lemma same_core_trans: "same_core a b \<Longrightarrow> same_core b c \<Longrightarrow> same_core a c"
  unfolding same_core_def by (cases a; cases b; cases c) simp

lemma printf_formats:
  "printf_text (bytes_of ''PC(injected):0x%x_%x,'') [Num high, Num low] \<noteq> None"
  "printf_text (bytes_of ''current_val(injected):0x%x_%x,'') [Num high, Num low] \<noteq> None"
  "printf_text (bytes_of ''new_val(injected):0x%x_%x,'') [Num high, Num low] \<noteq> None"
  by (simp_all add: bytes_of_def of_char_def)

text \<open>The injection itself, from a core that is stopped with clear data ports.\<close>

lemma inject_fault_ok:
  fixes cfg :: inject_cfg
  assumes "b_high b = 0" "b_low b = 0" "host_listens host"
  defines "i \<equiv> unat (INJECT_ADDRESS cfg AND 0x7FFF) mod 32"
  shows "\<exists>c n. inject_fault (board_io f sched) (board_uart f sched host) cfg b = Some c
    \<and> b_rest c = b_rest b \<and> b_regs c = xor_reg i (flipped_bits sched n cfg) (b_regs b) \<and> quiet c
    \<and> b_ops b \<le> n \<and> n + 4 \<le> b_ops c
    \<and> same_core (b\<lparr>b_control := 2, b_stall_at := 0, b_addr := INJECT_ADDRESS cfg AND 0x7FFF, b_regs := b_regs c\<rparr>) c"
proof -
  let ?io = "board_io f sched" and ?ua = "board_uart f sched host"
  let ?q1 = "b\<lparr>b_control := 2, b_stall_at := 0\<rparr>" and ?q2 = "b\<lparr>b_control := 2, b_stall_at := 0, b_addr := 0x20\<rparr>"
  let ?q3 = "b\<lparr>b_control := 2, b_stall_at := 0, b_addr := INJECT_ADDRESS cfg AND 0x7FFF\<rparr>"
  note h1 = take_hold [OF assms(1,2)]
  have h2: "same_core ?q2 (io_write ?io 0x5020 0x20 (io_write ?io 0x5010 2 b))" "quiet ?q2"
    using write_quiet [OF h1(2) h1(1), of "0x20"] by simp_all
  obtain c3 where c3: "print_data ?io ?ua (bytes_of ''PC(injected):0x%x_%x,'')
      (io_write ?io 0x5020 0x20 (io_write ?io 0x5010 2 b)) = Some c3" "same_core ?q2 c3"
    using print_data_quiet [OF same_core_quiet [OF h2] assms(3) printf_formats(1)] same_core_trans [OF h2(1)] by blast
  have h4: "same_core ?q3 (io_write ?io 0x5020 (INJECT_ADDRESS cfg) c3)" "quiet ?q3"
    using write_quiet [OF h2(2) c3(2), of "INJECT_ADDRESS cfg"] by simp_all
  obtain c5 where c5: "print_data ?io ?ua (bytes_of ''current_val(injected):0x%x_%x,'')
      (io_write ?io 0x5020 (INJECT_ADDRESS cfg) c3) = Some c5" "same_core ?q3 c5"
    using print_data_quiet [OF same_core_quiet [OF h4] assms(3) printf_formats(2)] same_core_trans [OF h4(1)] by blast
  have q5: "quiet c5" by (rule same_core_quiet [OF c5(2) h4(2)])
  have f5: "b_index c5 = i" "b_regs c5 = b_regs b" "b_rest c5 = b_rest b"
    using same_coreD [OF c5(2)] by (simp_all add: b_index_def i_def)
  let ?c6 = "flip_bits ?io cfg c5"
  let ?m = "flipped_bits sched (b_ops c5) cfg"
  have c6: "?c6 = c5\<lparr>b_ops := b_ops c5 + 4, b_regs := xor_reg i ?m (b_regs b)\<rparr>"
    using flip_bits_ok [OF q5, where f = f and cfg = cfg and sched = sched] by (simp add: f5)
  have q6: "quiet ?c6" unfolding c6 using q5 by (simp add: quiet_def held_def)
  obtain c7 where c7: "print_data ?io ?ua (bytes_of ''new_val(injected):0x%x_%x,'') ?c6 = Some c7" "same_core ?c6 c7"
    using print_data_quiet [OF q6 assms(3) printf_formats(3)] by blast
  have "b_regs c7 = b_regs ?c6" "b_rest c7 = b_rest ?c6"
    by (rule same_coreD [OF c7(2)])+
  then have f7: "b_rest c7 = b_rest b" "b_regs c7 = xor_reg i ?m (b_regs b)"
    unfolding c6 by (simp_all add: f5)
  have "inject_fault ?io ?ua cfg b = Some c7"
    unfolding inject_fault_def Let_def by (simp only: c3(1) c5(1) c7(1) bind.bind_lunit)
  moreover have "same_core (?q3\<lparr>b_regs := b_regs c7\<rparr>) c7"
  proof (rule same_core_trans [OF _ c7(2)])
    obtain u r n where "c5 = ?q3\<lparr>b_console := u, b_room := r, b_ops := n\<rparr>" "b_ops b \<le> n"
      using c5(2) unfolding same_core_def by auto
    then show "same_core (?q3\<lparr>b_regs := b_regs c7\<rparr>) ?c6" unfolding c6 f7 by (simp add: same_core_def)
  qed
  moreover have "b_ops b \<le> b_ops c5" "b_ops c5 + 4 \<le> b_ops c7"
    using c5(2) c7(2) unfolding c6 by (simp_all add: same_core_def)
  ultimately have "inject_fault ?io ?ua cfg b = Some c7 \<and> same_core (?q3\<lparr>b_regs := b_regs c7\<rparr>) c7
      \<and> b_ops b \<le> b_ops c5 \<and> b_ops c5 + 4 \<le> b_ops c7" by simp
  with f7 same_core_quiet [OF c7(2) q6] show ?thesis by blast
qed

section \<open>Running up to the delay\<close>

text \<open>The core after its first \<open>n\<close> instructions, counted from cycle 0.\<close>

primrec run_core :: "'x core_fns \<Rightarrow> nat \<Rightarrow> u64 list \<times> 'x \<Rightarrow> u64 list \<times> 'x" where
  "run_core f 0 c = c"
| "run_core f (Suc n) c = exec f (of_nat n) (run_core f n c)"

text \<open>The state of a core that ran \<open>b_cycles\<close> instructions and stops after \<open>d\<close>.\<close>

definition running :: "'x core_fns \<Rightarrow> u64 \<Rightarrow> u64 list \<times> 'x \<Rightarrow> 'x board \<Rightarrow> bool" where
  "running f d start b \<longleftrightarrow> b_control b = 0x20 \<and> b_stall_at b = d \<and> b_cycles b \<le> d \<and> b_high b = 0 \<and> b_low b = 0
     \<and> (b_regs b, b_rest b) = run_core f (unat (b_cycles b)) start"

lemma running_stall: "running f d start b \<Longrightarrow> cycle_stall b \<longleftrightarrow> b_cycles b = d"
  by (auto simp: running_def cycle_stall_def bit_iff_odd)

lemma clock_stalled: "b_control b = 0x20 \<Longrightarrow> b_cycles b = b_stall_at b \<Longrightarrow> clock f b = b"
  by (cases b) (simp add: clock_def halted_def cycle_stall_def settle_def debug_mem_def next_ebreak_def bit_iff_odd)

lemma running_less: "running f d start b \<Longrightarrow> b_cycles b \<noteq> d \<Longrightarrow> b_cycles b < d"
  unfolding running_def using order.not_eq_order_implies_strict by blast

lemma clock_running_stalled: "running f d start b \<Longrightarrow> b_cycles b = d \<Longrightarrow> clock f b = b"
  by (rule clock_stalled) (simp_all add: running_def)

lemma clock_running:
  assumes "running f d start b" "b_cycles b \<noteq> d"
  shows "running f d start (clock f b)" and "unat (b_cycles (clock f b)) = unat (b_cycles b) + 1"
proof -
  note r = assms(1) [unfolded running_def]
  have "b_cycles b < d" by (rule running_less [OF assms])
  then have u: "unat (b_cycles b + 1) = unat (b_cycles b) + 1" "b_cycles b + 1 \<le> d"
    using unat_u64_lt [of d] by (simp_all add: word_less_nat_alt word_le_nat_alt unat_plus_if_small)
  obtain R X where e: "exec f (b_cycles b) (b_regs b, b_rest b) = (R, X)"
    by (cases "exec f (b_cycles b) (b_regs b, b_rest b)")
  have "\<not> halted b" using r assms(2) by (auto simp: halted_def cycle_stall_def)
  then have c: "clock f b = b\<lparr>b_regs := R, b_rest := X, b_cycles := b_cycles b + 1, b_ebreak := next_ebreak f b\<rparr>"
    using r e by (cases b) (simp add: clock_def settle_def bit_iff_odd)
  have "run_core f (Suc (unat (b_cycles b))) start = (R, X)" using r e by simp
  then show "running f d start (clock f b)" using r u by (simp add: c running_def)
  show "unat (b_cycles (clock f b)) = unat (b_cycles b) + 1" using u by (simp add: c)
qed

lemma clocks_running:
  "running f d start b \<Longrightarrow> running f d start ((clock f ^^ n) b)
    \<and> unat (b_cycles ((clock f ^^ n) b)) = min (unat d) (unat (b_cycles b) + n)"
proof (induction n)
  case 0
  then show ?case by (simp add: running_def word_le_nat_alt)
next
  case (Suc n)
  let ?b = "(clock f ^^ n) b"
  have IH: "running f d start ?b" "unat (b_cycles ?b) = min (unat d) (unat (b_cycles b) + n)"
    using Suc by simp_all
  show ?case
  proof (cases "b_cycles ?b = d")
    case True
    then show ?thesis using IH clock_running_stalled [OF IH(1) True] by simp
  next
    case False
    then have "unat (b_cycles ?b) \<noteq> unat d" by (simp only: word_unat_eq_iff simp_thms)
    then show ?thesis using IH clock_running [OF IH(1) False] by simp
  qed
qed

lemma running_ops: "running f d start (b\<lparr>b_ops := n\<rparr>) = running f d start b"
  by (simp add: running_def)

lemma flag_bit: "((if c then 1 else 0) OR (if e then 2 else 0)) AND 1 = (1 :: u32) \<longleftrightarrow> c"
  by (cases c; cases e) simp_all

text \<open>The stall comes: the loop that waits for it ends, after exactly \<open>d\<close> instructions.\<close>

lemma wait_stall_ok:
  assumes "running f d start b" "\<forall>n. 0 < sched n"
  shows "\<exists>c. wait_stall (board_io f sched) b = Some c \<and> running f d start c \<and> b_cycles c = d"
  using assms(1)
proof (induction "unat d - unat (b_cycles b)" arbitrary: b rule: less_induct)
  case less
  let ?c = "elapse f sched b"
  have c: "running f d start ?c" "unat (b_cycles ?c) = min (unat d) (unat (b_cycles b) + sched (b_ops b))"
    using clocks_running [of f d start "b\<lparr>b_ops := b_ops b + 1\<rparr>" "sched (b_ops b)"] less.prems
    by (simp_all add: elapse_def running_ops)
  have step: "wait_stall (board_io f sched) b = (if b_cycles b = d then Some ?c else wait_stall (board_io f sched) ?c)"
    by (subst wait_stall.simps) (simp add: board_io_def get_port_def flag_bit running_stall [OF less.prems])
  show ?case
  proof (cases "b_cycles b = d")
    case True
    then have "unat (b_cycles ?c) = unat d" using c(2) by simp
    then have "b_cycles ?c = d" by (simp add: word_unat_eq_iff)
    then show ?thesis using True step c(1) by simp
  next
    case False
    have "b_cycles b < d" by (rule running_less [OF less.prems False])
    then have "unat d - unat (b_cycles ?c) < unat d - unat (b_cycles b)"
      unfolding c(2) word_less_nat_alt using assms(2) [rule_format, of "b_ops b"] by linarith
    from less.hyps [OF this c(1)] show ?thesis using step False by simp
  qed
qed

section \<open>Loading the delay while the core is in reset\<close>

lemma clock_ports [simp]:
  "b_control (clock f b) = b_control b" "b_addr (clock f b) = b_addr b"
  "b_high (clock f b) = b_high b" "b_low (clock f b) = b_low b"
  by (simp_all add: clock_def settle_def split_beta Let_def)

lemma clocks_ports [simp]:
  "b_control ((clock f ^^ n) b) = b_control b" "b_addr ((clock f ^^ n) b) = b_addr b"
  "b_high ((clock f ^^ n) b) = b_high b" "b_low ((clock f ^^ n) b) = b_low b"
  by (induction n) simp_all

lemma elapse_ports [simp]:
  "b_control (elapse f sched b) = b_control b" "b_addr (elapse f sched b) = b_addr b"
  "b_high (elapse f sched b) = b_high b" "b_low (elapse f sched b) = b_low b"
  by (simp_all add: elapse_def)

lemma settle_ports [simp]:
  "b_control (settle f b) = b_control b" "b_addr (settle f b) = b_addr b"
  "b_high (settle f b) = b_high b" "b_low (settle f b) = b_low b"
  by (simp_all add: settle_def)

text \<open>In reset with the delay enabled, an edge clears the cycle counter and may load the delay.\<close>

lemma clock_reset:
  assumes "bit (b_control b) 0" "bit (b_control b) 5"
  shows "b_cycles (clock f b) = 0"
    and "b_stall_at (clock f b) = (if bit (b_control b) 4 \<and> bit (b_addr b) 12 then b_data b else b_stall_at b)"
  using assms by (simp_all add: clock_def settle_def split_beta Let_def)

lemma clocks_reset:
  assumes "bit (b_control b) 0" "bit (b_control b) 5" "b_cycles b = 0"
  shows "b_cycles ((clock f ^^ n) b) = 0"
    and "b_stall_at ((clock f ^^ n) b) = (if bit (b_control b) 4 \<and> bit (b_addr b) 12 \<and> 0 < n then b_data b else b_stall_at b)"
proof -
  have d: "b_data ((clock f ^^ n) b) = b_data b" for n by (simp add: b_data_def)
  show "b_cycles ((clock f ^^ n) b) = 0"
    using assms by (cases n) (simp_all add: clock_reset)
  show "b_stall_at ((clock f ^^ n) b) = (if bit (b_control b) 4 \<and> bit (b_addr b) 12 \<and> 0 < n then b_data b else b_stall_at b)"
    by (induction n) (use assms d in \<open>simp_all add: clock_reset(2)\<close>)
qed

lemma elapse_reset:
  assumes "bit (b_control b) 0" "bit (b_control b) 5" "b_cycles b = 0" "0 < sched (b_ops b)"
  shows "b_cycles (elapse f sched b) = 0"
    and "b_stall_at (elapse f sched b) = (if bit (b_control b) 4 \<and> bit (b_addr b) 12 then b_data b else b_stall_at b)"
  using clocks_reset [where b = "b\<lparr>b_ops := b_ops b + 1\<rparr>" and f = f and n = "sched (b_ops b)"] assms
  by (simp_all add: elapse_def b_data_def)

text \<open>Writing a port in reset, with the delay enabled.\<close>

lemma settle_reset:
  "bit (b_control b) 0 \<Longrightarrow> bit (b_control b) 5 \<Longrightarrow> b_cycles (settle f b) = 0 \<and> b_stall_at (settle f b) = b_stall_at b"
  by (simp add: settle_def)

lemma bits_of_codes:
  "bit (0x31 :: u32) 0" "bit (0x31 :: u32) 5" "bit (0x31 :: u32) 4" "bit (0x1000 :: u32) 12"
  "bit (0x21 :: u32) 0" "bit (0x21 :: u32) 5" "\<not> bit (0x21 :: u32) 4"
  by (simp_all add: bit_iff_odd)

text \<open>
  What is loaded as the delay: both data ports, of which \<open>main\<close> sets only the low one before.  The
  high one is 0 after the reset of the board.
\<close>

definition delay_loaded :: "inject_cfg \<Rightarrow> 'x board \<Rightarrow> u64" where
  "delay_loaded cfg b = push_bit 32 (ucast (b_high b)) OR ucast (INJECT_DELAY cfg)"

lemma delay_loaded_reset: "b_high b = 0 \<Longrightarrow> unat (delay_loaded cfg b) = unat (INJECT_DELAY cfg)"
  using unat_u32_lt [of "INJECT_DELAY cfg"] by (simp add: delay_loaded_def unsigned_ucast_eq take_bit_nat_eq_self)

lemma load_delay_ok:
  fixes cfg :: inject_cfg and f :: "'x core_fns" and b :: "'x board"
  assumes "\<forall>n. 0 < sched n"
  defines "c \<equiv> load_delay (board_io f sched) cfg b"
  shows "b_control c = 0x21" "b_addr c = 0x1000" "b_high c = 0" "b_low c = 0" "b_cycles c = 0"
    and "b_stall_at c = delay_loaded cfg b"
proof -
  let ?w = "io_write (board_io f sched)"
  have w: "?w a v b = elapse f sched (settle f (set_port a v b))" for a v b by (simp add: board_io_def)
  define b3 where "b3 = ?w 0x5040 (INJECT_DELAY cfg) (?w 0x5020 0x1000 (?w 0x5010 1 b))"
  have b3: "b_control b3 = 1" "b_addr b3 = 0x1000" "b_high b3 = b_high b" "b_low b3 = INJECT_DELAY cfg"
    by (simp_all add: b3_def w set_port_def)
  define b4 where "b4 = ?w 0x5010 0x31 b3"
  let ?s4 = "settle f (set_port 0x5010 0x31 b3)"
  have s4: "b_control ?s4 = 0x31" "b_addr ?s4 = 0x1000" "b_data ?s4 = delay_loaded cfg b" "b_cycles ?s4 = 0"
    using b3 by (simp_all add: set_port_def b_data_def delay_loaded_def settle_reset bits_of_codes)
  have b4: "b_control b4 = 0x31" "b_addr b4 = 0x1000" "b_stall_at b4 = delay_loaded cfg b"
    using elapse_reset(2) [of ?s4 sched f] s4 bits_of_codes assms(1) b3
    by (simp_all add: b4_def w set_port_def)
  have step: "b_cycles (?w a v b) = 0 \<and> b_stall_at (?w a v b) = b_stall_at b"
    if "b_control (set_port a v b) = 0x21" for a v b
  proof -
    have "b_stall_at (set_port a v b) = b_stall_at b" by (simp add: set_port_def)
    then show ?thesis
      using elapse_reset [of "settle f (set_port a v b)" sched f] settle_reset [of "set_port a v b" f]
        that bits_of_codes assms(1) by (simp add: w)
  qed
  define b5 where "b5 = ?w 0x5010 0x21 b4"
  have b5: "b_control b5 = 0x21" "b_stall_at b5 = delay_loaded cfg b" "b_cycles b5 = 0"
    using step [of "0x5010" "0x21" b4] b4(3) by (simp_all add: b5_def) (simp_all add: w set_port_def)
  define b6 where "b6 = ?w 0x5030 0 b5"
  have b6: "b_control b6 = 0x21" "b_high b6 = 0" "b_stall_at b6 = delay_loaded cfg b" "b_cycles b6 = 0"
    using step [of "0x5030" 0 b5] b5 by (simp_all add: b6_def set_port_def) (simp_all add: w set_port_def)
  define b7 where "b7 = ?w 0x5040 0 b6"
  have b7: "b_control b7 = 0x21" "b_high b7 = 0" "b_low b7 = 0"
    "b_stall_at b7 = delay_loaded cfg b" "b_cycles b7 = 0"
    using step [of "0x5040" 0 b6] b6 by (simp_all add: b7_def set_port_def) (simp_all add: w set_port_def)
  define b8 where "b8 = ?w 0x5020 0x1000 b7"
  have b8: "b_control b8 = 0x21" "b_addr b8 = 0x1000" "b_high b8 = 0" "b_low b8 = 0"
    and c8: "b_stall_at b8 = delay_loaded cfg b" "b_cycles b8 = 0"
    using step [of "0x5020" "0x1000" b7] b7 by (simp_all add: b8_def set_port_def) (simp_all add: w set_port_def)
  have c: "c = elapse f sched b8"
    by (simp add: c_def load_delay_def b8_def b7_def b6_def b5_def b4_def b3_def Let_def) (simp add: board_io_def)
  show "b_control c = 0x21" "b_addr c = 0x1000" "b_high c = 0" "b_low c = 0" by (simp_all add: c b8)
  show "b_cycles c = 0" "b_stall_at c = delay_loaded cfg b"
    using elapse_reset [of b8 sched f] b8 c8 bits_of_codes assms(1) by (simp_all add: c)
qed

section \<open>The injection as a whole\<close>

text \<open>From any state the core is armed, released and stopped by the delay.\<close>

lemma arm_and_stall:
  fixes cfg :: inject_cfg and f :: "'x core_fns" and b :: "'x board"
  assumes "\<forall>n. 0 < sched n"
  defines "armed \<equiv> load_delay (board_io f sched) cfg b"
  shows "\<exists>c. wait_stall (board_io f sched) (io_write (board_io f sched) 0x5010 0x20 armed) = Some c
    \<and> running f (delay_loaded cfg b) (b_regs armed, b_rest armed) c \<and> b_cycles c = delay_loaded cfg b"
proof -
  let ?d = "delay_loaded cfg b"
  note arm = load_delay_ok [where sched = sched and f = f and cfg = cfg, OF assms(1), of b, folded armed_def]
  let ?b = "armed\<lparr>b_control := 0x20\<rparr>"
  have go: "io_write (board_io f sched) 0x5010 0x20 armed = elapse f sched ?b"
    by (cases armed) (simp add: board_io_def set_port_def settle_def bit_iff_odd)
  have "running f ?d (b_regs armed, b_rest armed) ?b" using arm by (simp add: running_def)
  then have "running f ?d (b_regs armed, b_rest armed) (elapse f sched ?b)"
    using clocks_running [of f ?d _ "?b\<lparr>b_ops := b_ops ?b + 1\<rparr>"] by (simp add: elapse_def running_ops)
  then show ?thesis
    using wait_stall_ok [where sched = sched, OF _ assms(1)] unfolding go by blast
qed

lemma injection_flips_ok:
  fixes cfg :: inject_cfg and f :: "'x core_fns" and sched host :: "nat \<Rightarrow> nat" and b :: "'x board"
  assumes "\<forall>n. 0 < sched n" "host_listens host"
  defines "io \<equiv> board_io f sched" and "uart \<equiv> board_uart f sched host"
  defines "armed \<equiv> load_delay io cfg b"
  defines "i \<equiv> unat (INJECT_ADDRESS cfg AND 0x7FFF) mod 32"
  shows "\<exists>stalled faulted n. wait_stall io (io_write io 0x5010 0x20 armed) = Some stalled
    \<and> (b_regs stalled, b_rest stalled) = run_core f (unat (delay_loaded cfg b)) (b_regs armed, b_rest armed)
    \<and> inject_fault io uart cfg stalled = Some faulted \<and> b_rest faulted = b_rest stalled
    \<and> b_ops stalled \<le> n \<and> n + 4 \<le> b_ops faulted
    \<and> b_regs faulted = xor_reg i (flipped_bits sched n cfg) (b_regs stalled)"
proof -
  let ?d = "delay_loaded cfg b" and ?start = "(b_regs armed, b_rest armed)"
  obtain c where c: "wait_stall io (io_write io 0x5010 0x20 armed) = Some c" "running f ?d ?start c" "b_cycles c = ?d"
    using arm_and_stall [where sched = sched and f = f and cfg = cfg, OF assms(1)] unfolding armed_def io_def by blast
  have "b_high c = 0" "b_low c = 0" using c(2) by (simp_all add: running_def)
  from inject_fault_ok [where sched = sched and f = f and cfg = cfg, OF this assms(2)] c show ?thesis
    unfolding io_def uart_def i_def by (auto simp: running_def)
qed

text \<open>
  C1: A fault injection on the board, when every access of the program to the outside takes at
  least one clock edge and the host keeps reading the console.  Whatever the board did before, the
  core executes exactly \<open>delay_loaded cfg b\<close> instructions from the state in which it was armed and then
  stops; that number is \<open>INJECT_DELAY\<close> when the high data port still is 0, its reset value, and has the
  stale contents of that port as its upper half otherwise.  The program then leaves the rest of
  the core as it is and changes at most register \<open>INJECT_ADDRESS\<close>, in which it flips
  \<open>flipped_bits sched n cfg\<close>: the bits of \<open>INJECT_DATA_LOW\<close> exactly when an odd number of clock edges passes
  during access \<open>n\<close>, the one that sets that mask, and the bits of \<open>INJECT_DATA_HIGH\<close> exactly when an odd
  number passes during access \<open>n + 2\<close>, the one that sets the other, since each edge flips them once.
\<close>

theorem injection_flips:
  fixes cfg :: inject_cfg and f :: "'x core_fns" and sched host :: "nat \<Rightarrow> nat" and b :: "'x board"
  assumes "\<forall>n. 0 < sched n" "host_listens host"
  defines "io \<equiv> board_io f sched" and "uart \<equiv> board_uart f sched host"
  defines "armed \<equiv> load_delay io cfg b"
  defines "i \<equiv> unat (INJECT_ADDRESS cfg AND 0x7FFF) mod 32"
  shows "\<exists>stalled faulted n. wait_stall io (io_write io 0x5010 0x20 armed) = Some stalled
    \<and> (b_regs stalled, b_rest stalled) = run_core f (unat (delay_loaded cfg b)) (b_regs armed, b_rest armed)
    \<and> inject_fault io uart cfg stalled = Some faulted \<and> b_rest faulted = b_rest stalled
    \<and> b_ops stalled \<le> n \<and> n + 4 \<le> b_ops faulted
    \<and> b_regs faulted = xor_reg i (flipped_bits sched n cfg) (b_regs stalled)"
  unfolding assms(3-6) by (rule injection_flips_ok [OF assms(1,2)])

text \<open>A core whose instructions only count, on a board where an access takes three clock edges.\<close>

definition demo_core :: "nat core_fns" where
  "demo_core = \<lparr>exec = (\<lambda>_ (R, x). (R, x + 1)), reset_rest = (\<lambda>_. 0), ebreak_now = (\<lambda>_. False),
     pc_of = (\<lambda>x. of_nat x), mem_port = (\<lambda>_ _ _ _ x. x), mem_q = (\<lambda>_. 0), csr_out = (\<lambda>_ _. 0)\<rparr>"

definition demo_board :: "nat board" where
  "demo_board = \<lparr>b_control = 0, b_addr = 0, b_high = 0, b_low = 0, b_regs = replicate 32 5, b_rest = 0,
     b_cycles = 0, b_stall_at = 0, b_ebreak = False, b_console = [], b_room = 64, b_ops = 0\<rparr>"

lemma demo_exec: "run_core demo_core n (R, x) = (R, x + n)"
  by (induction n) (simp_all add: demo_core_def)

lemma demo_regs: "b_regs (load_delay (board_io demo_core (\<lambda>_. 3)) inject_values demo_board) = replicate 32 5"
proof -
  have clock: "b_regs (clock demo_core b) = b_regs b" if "\<not> bit (b_control b) 1" for b
    using that by (simp add: clock_def settle_def demo_core_def Let_def split_beta)
  have "b_regs ((clock demo_core ^^ n) b) = b_regs b" if "\<not> bit (b_control b) 1" for n b
    using that by (induction n) (simp_all add: clock)
  then have el: "b_regs (elapse demo_core sched b) = b_regs b" if "\<not> bit (b_control b) 1" for sched b
    using that by (simp add: elapse_def)
  have st: "b_regs (settle demo_core b) = b_regs b" for b by (simp add: settle_def Let_def)
  show ?thesis
    by (simp add: load_delay_def board_io_def set_port_def el st bit_iff_odd demo_board_def)
qed

lemma inject_cfg_values:
  "INJECT_ADDRESS inject_values = 31" "INJECT_DATA_LOW inject_values = 0" "INJECT_DATA_HIGH inject_values = 0x8000000"
  by (simp_all add: inject_values_def)

lemma demo_board_high: "b_high demo_board = 0"
  by (simp add: demo_board_def)

lemma demo_host: "host_listens (\<lambda>_. 1)"
  by (simp add: host_listens_def)

lemma demo_flips: "flipped_bits (\<lambda>_. 3) n inject_values = 0x0800000000000000"
  by (simp add: flipped_bits_def inject_cfg_values)

theorem injection_flips_witness:
  "\<exists>stalled faulted. wait_stall (board_io demo_core (\<lambda>_. 3))
      (io_write (board_io demo_core (\<lambda>_. 3)) 0x5010 0x20
        (load_delay (board_io demo_core (\<lambda>_. 3)) inject_values demo_board)) = Some stalled
    \<and> inject_fault (board_io demo_core (\<lambda>_. 3)) (board_uart demo_core (\<lambda>_. 3) (\<lambda>_. 1)) inject_values stalled = Some faulted
    \<and> b_regs faulted = (replicate 32 5)[31 := 0x0800000000000005]"
proof -
  have len: "(31 :: nat) < 32" by simp
  have x: "xor_reg 31 0x0800000000000000 (replicate 32 5) = (replicate 32 5)[31 := 0x0800000000000005 :: u64]"
    by (simp add: xor_reg_def nth_replicate [OF len])
  show ?thesis
    using injection_flips [OF _ demo_host, of "\<lambda>_. 3" demo_core inject_values demo_board]
    by (auto simp: demo_exec demo_regs x inject_cfg_values demo_flips)
qed

section \<open>The program always comes to its event loop\<close>

lemma console_sink:
  "host_listens host \<Longrightarrow> char_sink (alt_putchar (board_uart f sched host)) b_console (\<lambda>_. True)"
  by (rule putchar_sink [OF board_logs board_grants])

lemma board_prints:
  assumes "host_listens host" "printf_text fmt args \<noteq> None"
  shows "\<exists>c. alt_printf (alt_putchar (board_uart f sched host)) fmt args b = Some c"
proof -
  obtain t where "printf_text fmt args = Some t" using assms(2) by blast
  from char_sink.printf_emits [OF console_sink [OF assms(1)] this] show ?thesis
    unfolding char_sink.emits_def [OF console_sink [OF assms(1)]] by blast
qed

lemma board_print_data:
  "host_listens host \<Longrightarrow> (\<And>high low. printf_text fmt [Num high, Num low] \<noteq> None) \<Longrightarrow>
    \<exists>c. print_data io (board_uart f sched host) fmt b = Some c"
  by (simp add: print_data_def split_beta board_prints del: not_None_eq)

lemma more_formats:
  "printf_text (bytes_of ''PC:0x%x_%x,'') [Num high, Num low] \<noteq> None"
  "printf_text (bytes_of ''result(reg a0):0x%x_%x,'') [Num high, Num low] \<noteq> None"
  "printf_text (bytes_of ''result(reg a0):dnf,'') [] \<noteq> None"
  "printf_text (bytes_of ''duration:0x%x'') [Num w] \<noteq> None"
  "printf_text (bytes_of ''||memdump||'') [] \<noteq> None"
  "printf_text (bytes_of ''0x%x:0x%x_0x%x,'') [Num w, Num high, Num low] \<noteq> None"
  "printf_text [10] [] \<noteq> None"
  by (simp_all add: bytes_of_def of_char_def)

lemma dump_loop_ends:
  assumes listens: "host_listens host"
  shows "\<exists>c. dump_loop io (board_uart f sched host) i b = Some c"
proof (induction "0x8008 - unat i" arbitrary: i b rule: less_induct)
  case less
  show ?case
  proof (cases "i < 0x8000")
    case True
    then have i: "unat i < 0x8000" by (simp add: word_less_nat_alt)
    then have "unat (i + 8) = unat i + 8" by (subst unat_plus_if_small) auto
    then have "0x8008 - unat (i + 8) < 0x8008 - unat i" using i by simp
    moreover obtain c where "dump_word io (board_uart f sched host) i b = Some c"
      unfolding dump_word_def Let_def split_beta using board_prints [OF listens more_formats(6)] by blast
    ultimately show ?thesis using less.hyps [of "i + 8" c] True by (subst dump_loop.simps) simp
  next
    case False
    then show ?thesis by (subst dump_loop.simps) simp
  qed
qed

lemma print_results_ends:
  assumes listens: "host_listens host"
  shows "\<exists>c. print_results io (board_uart f sched host) cfg w b = Some c"
proof -
  let ?ua = "board_uart f sched host"
  obtain c1 where c1: "print_data io ?ua (bytes_of ''PC:0x%x_%x,'') (io_write io 0x5020 0x20 (io_write io 0x5010 2 b)) = Some c1"
    using board_print_data [OF listens more_formats(1)] by blast
  obtain c2 where c2: "(if PROGRAM_MAX_DURATION cfg < w
      then alt_printf (alt_putchar ?ua) (bytes_of ''result(reg a0):dnf,'') [] (io_write io 0x5020 0xa c1)
      else print_data io ?ua (bytes_of ''result(reg a0):0x%x_%x,'') (io_write io 0x5020 0xa c1)) = Some c2"
    using board_print_data [OF listens more_formats(2), of io f sched "io_write io 0x5020 0xa c1"]
      board_prints [OF listens more_formats(3), of f sched "io_write io 0x5020 0xa c1"]
    by (cases "PROGRAM_MAX_DURATION cfg < w") auto
  show ?thesis using board_prints [OF listens more_formats(4), of f sched w c2] c1 c2
    by (simp add: print_results_def)
qed

lemma dump_memory_ends:
  assumes listens: "host_listens host"
  shows "\<exists>c. dump_memory io (board_uart f sched host) b = Some c"
proof -
  let ?ua = "board_uart f sched host"
  obtain c1 where c1: "alt_printf (alt_putchar ?ua) (bytes_of ''||memdump||'') [] b = Some c1"
    using board_prints [OF listens more_formats(5)] by blast
  obtain c2 where c2: "dump_loop io ?ua 0 (io_write io 0x5010 8 c1) = Some c2" using dump_loop_ends [OF listens] by blast
  show ?thesis using board_prints [OF listens more_formats(7), of f sched c2] c1 c2 by (simp add: dump_memory_def)
qed

lemma main_outcome:
  fixes cfg :: inject_cfg and b :: "'x board" and f :: "'x core_fns" and sched host :: "nat \<Rightarrow> nat"
  assumes "\<forall>n. 0 < sched n" "host_listens host"
  defines "io \<equiv> board_io f sched" and "uart \<equiv> board_uart f sched host" and "limit \<equiv> PROGRAM_MAX_DURATION cfg"
  shows "\<exists>stalled faulted. wait_stall io (io_write io 0x5010 0x20 (load_delay io cfg b)) = Some stalled
    \<and> inject_fault io uart cfg stalled = Some faulted
    \<and> (if limit \<noteq> - 1 \<or> (\<exists>j. ended io (poll io j (io_write io 0x5010 0 faulted)))
       then \<exists>watchdog c. hello_world_small_main cfg io uart b = Some (watchdog, c)
         \<and> (limit \<noteq> - 1 \<longrightarrow> unat watchdog \<le> unat limit + 1)
       else hello_world_small_main cfg io uart b = None)"
proof -
  obtain c1 where c1: "wait_stall io (io_write io 0x5010 0x20 (load_delay io cfg b)) = Some c1" "b_high c1 = 0" "b_low c1 = 0"
    using arm_and_stall [where sched = sched and f = f and cfg = cfg, OF assms(1)] unfolding running_def io_def by blast
  obtain c2 where c2: "inject_fault io uart cfg c1 = Some c2"
    using inject_fault_ok [where sched = sched and f = f and cfg = cfg, OF c1(2,3) assms(2)] unfolding io_def uart_def by blast
  let ?h = "io_write io 0x5010 0 c2"
  let ?over = "\<lambda>j. ended io (poll io j ?h)"
  have main: "hello_world_small_main cfg io uart b = Option.bind (wait_finish io limit 0 ?h) (\<lambda>(watchdog, h).
      Option.bind (print_results io uart cfg watchdog h) (\<lambda>h. Option.bind (dump_memory io uart h) (\<lambda>h. Some (watchdog, h))))"
    using c1(1) c2 by (simp add: hello_world_small_main_def limit_def)
  show ?thesis
  proof (cases "\<exists>n. first_stop ?over limit n")
    case True
    then obtain n where n: "first_stop ?over limit n" by blast
    obtain c4 where c4: "print_results io uart cfg (of_nat n) (poll io (n + 1) ?h) = Some c4"
      using print_results_ends [OF assms(2)] unfolding uart_def by blast
    obtain c5 where c5: "dump_memory io uart c4 = Some c5" using dump_memory_ends [OF assms(2)] unfolding uart_def by blast
    have ret: "hello_world_small_main cfg io uart b = Some (of_nat n, c5)"
      using c4 c5 by (simp add: main wait_finish_first_stop [OF n])
    have "unat (of_nat n :: u32) \<le> unat limit + 1" if "limit \<noteq> - 1"
      using first_stop_bound [OF n that] unat_of_nat_le [where 'a = 32, of n] by linarith
    with ret c1(1) c2 True show ?thesis unfolding first_stop_exists by auto
  next
    case False
    then have "hello_world_small_main cfg io uart b = None" by (simp add: main wait_finish_forever)
    with c1(1) c2 False show ?thesis unfolding first_stop_exists by auto
  qed
qed

lemma main_returns:
  fixes cfg :: inject_cfg and f :: "'x core_fns" and sched :: "nat \<Rightarrow> nat"
  assumes "\<forall>n. 0 < sched n" "host_listens host" "PROGRAM_MAX_DURATION cfg \<noteq> - 1"
  shows "\<exists>watchdog c. hello_world_small_main cfg (board_io f sched) (board_uart f sched host) b = Some (watchdog, c)"
  using main_outcome [where f = f and b = b and cfg = cfg and sched = sched, OF assms(1,2)] assms(3) by auto

text \<open>
  C18: On the board the whole program runs to its event loop, whatever the core executes and whatever
  the board did before, when every access takes at least one clock edge and the host keeps
  reading the console, which has room for 64 bytes and loses what is written to it when full.
  The wait for the stall ends because the cycle counter reaches the delay; the injection, every
  output and the memory dump return.  With a limit other than \<open>0xFFFFFFFF\<close> the wait for the end is
  over when the program ends or by the watchdog, and the reported duration exceeds the limit by
  at most one.  With the limit \<open>0xFFFFFFFF\<close>, which no 32-bit duration exceeds, \<open>main\<close> comes to its event
  loop exactly when some poll after the release reads the end of the program, and otherwise polls
  for ever.
\<close>

theorem main_reaches_event_loop:
  fixes cfg :: inject_cfg and b :: "'x board" and f :: "'x core_fns" and sched host :: "nat \<Rightarrow> nat"
  assumes "\<forall>n. 0 < sched n" "host_listens host"
  defines "io \<equiv> board_io f sched" and "uart \<equiv> board_uart f sched host" and "limit \<equiv> PROGRAM_MAX_DURATION cfg"
  shows "\<exists>stalled faulted. wait_stall io (io_write io 0x5010 0x20 (load_delay io cfg b)) = Some stalled
    \<and> inject_fault io uart cfg stalled = Some faulted
    \<and> (if limit \<noteq> - 1 \<or> (\<exists>j. ended io (poll io j (io_write io 0x5010 0 faulted)))
       then \<exists>watchdog c. hello_world_small_main cfg io uart b = Some (watchdog, c)
         \<and> (limit \<noteq> - 1 \<longrightarrow> unat watchdog \<le> unat limit + 1)
       else hello_world_small_main cfg io uart b = None)"
  unfolding assms(3-5) by (rule main_outcome [OF assms(1,2)])

theorem main_reaches_event_loop_witness:
  "\<exists>watchdog c. inject_main (board_io demo_core (\<lambda>_. 3)) (board_uart demo_core (\<lambda>_. 3) (\<lambda>_. 1)) demo_board = Some (watchdog, c)
    \<and> unat watchdog \<le> 10683"
proof -
  have "PROGRAM_MAX_DURATION inject_values = 10682" by (simp add: inject_values_def)
  moreover have "(10682 :: u32) \<noteq> - 1" by simp
  ultimately show ?thesis
    using main_reaches_event_loop [OF _ demo_host, of "\<lambda>_. 3" demo_core inject_values demo_board]
    by (auto simp: inject_main_def)
qed

end
