(* ===== verification/Core.thy ===== *)
theory Core
  imports Board
begin

text \<open>
  The RISC-V core itself, \<open>components/core.sv\<close> with the modules it is made of: the decoders, the
  register and immediate selection, the two arithmetic units, branches, the masks of the data
  memory, traps and status registers.  One call of \<open>core_exec\<close> is one clock edge of the single-cycle
  core while the debug port leaves it alone; \<open>core_board\<close> is the core on the board of theory Board.

  A bus is a word; \<open>bits hi lo a\<close> is the part \<open>a[hi:lo]\<close> as a list, the most significant bit first,
  and \<open>vec\<close> puts such a list on a bus, so that a concatenation of the source is a concatenation
  of lists.  Control signals and the fields of an instruction are natural numbers.  The program
  memory's contents and the block of the device that is the data memory are parameters, and so
  is the value of the one status register that nothing drives.
\<close>

section \<open>Buses\<close>

definition bits :: "nat \<Rightarrow> nat \<Rightarrow> 'a :: len word \<Rightarrow> bool list" where
  "bits hi lo a = map (bit a) (rev [lo..<Suc hi])"

definition vec :: "bool list \<Rightarrow> 'a :: len word" where
  "vec bs = horner_sum of_bool 2 (rev bs)"

definition field :: "nat \<Rightarrow> nat \<Rightarrow> 'a :: len word \<Rightarrow> nat" where
  "field hi lo a = unat (take_bit (hi + 1 - lo) (drop_bit lo a))"

section \<open>The decoders\<close>

record controls =
  trapReturn :: bool
  aluSelect :: bool
  csrWriteEnable :: bool
  exceptSignal_D :: nat
  wArith :: bool
  regSel :: nat
  ALUSrc :: bool
  MemtoReg :: bool
  RegWrite :: bool
  MemRead :: nat
  MemWrite :: bool
  memWidth :: nat
  Branch :: nat
  ALUOp :: nat

text \<open>The parts of \<open>outputSignal\<close>, in the groups of digits of the source.\<close>

definition signals :: "nat \<Rightarrow> nat \<Rightarrow> nat \<Rightarrow> nat \<Rightarrow> nat \<Rightarrow> nat \<Rightarrow> nat \<Rightarrow> nat \<Rightarrow> nat \<Rightarrow> nat \<Rightarrow> controls" where
  "signals tac exc w rs amr mr we mw br op =
     \<lparr>trapReturn = bit tac 2, aluSelect = bit tac 1, csrWriteEnable = bit tac 0, exceptSignal_D = exc,
      wArith = bit w 0, regSel = rs, ALUSrc = bit amr 2, MemtoReg = bit amr 1, RegWrite = bit amr 0,
      MemRead = mr, MemWrite = bit we 0, memWidth = mw, Branch = br, ALUOp = op\<rparr>"

definition maindec :: "bool \<Rightarrow> nat \<Rightarrow> nat \<Rightarrow> nat \<Rightarrow> controls" where
  "maindec coprocessorStall Op funct3 funct12 =
     (if coprocessorStall then signals 0 0 0 0 0 0 0 0 0 0
      else if Op = 0b1100011 then
        if funct3 = 0b000 then signals 0 0 0 0 0 0 0 0 0b001 0b01
        else if funct3 = 0b001 then signals 0 0 0 0 0 0 0 0 0b011 0b01
        else if funct3 = 0b100 then signals 0 0 0 0 0 0 0 0 0b101 0b01
        else if funct3 = 0b101 then signals 0 0 0 0 0 0 0 0 0b100 0b01
        else if funct3 = 0b110 then signals 0 0 0 0 0 0 0 0 0b110 0b01
        else if funct3 = 0b111 then signals 0 0 0 0 0 0 0 0 0b010 0b01
        else signals 0 0 0 0 0 0 0 0 0b000 0b01
      else if Op = 0b0110011 then signals 0 0 0 0 0b001 0 0 0 0 0b10
      else if Op = 0b0111011 then signals 0 0 1 0 0b001 0 0 0 0 0b10
      else if Op = 0b0010011 then signals 0 0 0 0 0b101 0 0 0 0 0b11
      else if Op = 0b0011011 then signals 0 0 1 0 0b101 0 0 0 0 0b11
      else if Op = 0b0000011 then
        if funct3 = 0b000 then signals 0 0 0 0 0b111 0b11 0 0b000 0 0
        else if funct3 = 0b100 then signals 0 0 0 0 0b111 0b01 0 0b000 0 0
        else if funct3 = 0b001 then signals 0 0 0 0 0b111 0b11 0 0b001 0 0
        else if funct3 = 0b101 then signals 0 0 0 0 0b111 0b01 0 0b001 0 0
        else if funct3 = 0b010 then signals 0 0 0 0 0b111 0b11 0 0b011 0 0
        else if funct3 = 0b110 then signals 0 0 0 0 0b111 0b01 0 0b011 0 0
        else signals 0 0 0 0 0b111 0b11 0 0b111 0 0
      else if Op = 0b0100011 then
        if funct3 = 0b000 then signals 0 0 0 0 0b100 0 1 0b000 0 0
        else if funct3 = 0b001 then signals 0 0 0 0 0b100 0 1 0b001 0 0
        else if funct3 = 0b010 then signals 0 0 0 0 0b100 0 1 0b011 0 0
        else signals 0 0 0 0 0b100 0 1 0b111 0 0
      else if Op = 0b0110111 then signals 0 0 0 0b01 0b101 0 0 0 0 0
      else if Op = 0b0010111 then signals 0 0 0 0b10 0b101 0 0 0 0 0
      else if Op = 0b1101111 then signals 0 0 0 0 0b001 0 0 0 0b111 0b01
      else if Op = 0b1100111 then signals 0 0 0 0 0b101 0 0 0 0b111 0b01
      else if Op = 0b1110011 then
        if funct3 = 0b000 then
          if funct12 = 0x001 then signals 0 0b001 0 0 0 0 0 0 0 0
          else if funct12 = 0x000 then signals 0 0b010 0 0 0 0 0 0 0 0
          else if funct12 = 0x302 then signals 0b100 0 0 0 0 0 0 0 0 0
          else signals 0 0b100 0 0 0 0 0 0 0 0
        else if funct3 = 0b001 \<or> funct3 = 0b010 \<or> funct3 = 0b011 then signals 0b011 0 0 0 0b001 0 0 0 0 0b10
        else if funct3 = 0b101 \<or> funct3 = 0b110 \<or> funct3 = 0b111 then signals 0b011 0 0 0 0b101 0 0 0 0 0b10
        else signals 0 0b100 0 0 0 0 0 0 0 0
      else if Op = 0b0001111 then signals 0 0 0 0 0 0 0 0 0 0
      else signals 0 0b100 0 0 0 0 0 0 0 0)"

definition aludec :: "nat \<Rightarrow> nat \<Rightarrow> nat \<Rightarrow> nat" where
  "aludec funct7 funct3 aluop =
     (if aluop = 0b00 then 0b0010
      else if aluop = 0b01 then 0b0110
      else if aluop = 0b10 then
        if \<not> bit funct7 5 \<and> funct3 = 0b000 then 0b0010
        else if bit funct7 5 \<and> funct3 = 0b000 then 0b0110
        else if \<not> bit funct7 5 \<and> funct3 = 0b111 then 0b0000
        else if \<not> bit funct7 5 \<and> funct3 = 0b110 then 0b0001
        else if \<not> bit funct7 5 \<and> funct3 = 0b100 then 0b1001
        else if \<not> bit funct7 5 \<and> funct3 = 0b010 then 0b1110
        else if \<not> bit funct7 5 \<and> funct3 = 0b011 then 0b1010
        else if funct3 = 0b001 then 0b0111
        else if \<not> bit funct7 5 \<and> funct3 = 0b101 then 0b0011
        else if bit funct7 5 \<and> funct3 = 0b101 then 0b1011
        else 0b1111
      else if aluop = 0b11 then
        if funct3 = 0b000 then 0b0010
        else if funct3 = 0b111 then 0b0000
        else if funct3 = 0b110 then 0b0001
        else if funct3 = 0b100 then 0b1001
        else if funct3 = 0b010 then 0b1110
        else if funct3 = 0b011 then 0b1010
        else if funct3 = 0b001 then 0b0111
        else if \<not> bit funct7 5 \<and> funct3 = 0b101 then 0b0011
        else if bit funct7 5 \<and> funct3 = 0b101 then 0b1011
        else 0b1111
      else 0b1111)"

definition aludec_atomic :: "nat \<Rightarrow> nat \<Rightarrow> nat" where
  "aludec_atomic funct3 aluop =
     (if aluop = 0b00 then 0b1111
      else if aluop = 0b01 then 0b1111
      else if aluop = 0b10 then
        if funct3 = 0b001 \<or> funct3 = 0b101 then 0b0000
        else if funct3 = 0b010 \<or> funct3 = 0b110 then 0b0001
        else if funct3 = 0b011 \<or> funct3 = 0b111 then 0b0011
        else 0b1111
      else 0b1111)"

definition controller :: "bool \<Rightarrow> u32 \<Rightarrow> controls \<times> nat" where
  "controller coprocessorStall i =
     (let c = maindec coprocessorStall (field 6 0 i) (field 14 12 i) (field 31 20 i);
          aluControlNormal = aludec (field 31 25 i) (field 14 12 i) (ALUOp c);
          aluControlAtomic = aludec_atomic (field 14 12 i) (ALUOp c)
      in (c, if aluSelect c then aluControlAtomic else aluControlNormal))"

section \<open>Immediates and arithmetic\<close>

definition signext :: "u32 \<Rightarrow> u64" where
  "signext a =
     (if field 6 0 a = 0b0100011 then vec (replicate 52 (bit a 31) @ bits 31 25 a @ bits 11 7 a)
      else if field 6 0 a = 0b1100011 then
        vec (replicate 52 (bit a 31) @ [bit a 31, bit a 7] @ bits 30 25 a @ bits 11 8 a)
      else if field 6 0 a = 0b0010011 \<or> field 6 0 a = 0b1100111 \<or> field 6 0 a = 0b0000011 then
        vec (replicate 52 (bit a 31) @ bits 31 20 a)
      else if field 6 0 a = 0b1101111 then
        vec (replicate 44 (bit a 31) @ [bit a 31] @ bits 19 12 a @ [bit a 20] @ bits 30 21 a)
      else if field 6 0 a = 0b0110111 \<or> field 6 0 a = 0b0010111 then
        vec (replicate 32 (bit a 31) @ bits 31 12 a @ replicate 12 False)
      else if field 6 0 a = 0b0011011 then
        vec (replicate 32 False @ replicate 20 (bit a 31) @ bits 31 20 a)
      else if field 6 0 a = 0b1110011 then vec (replicate 59 (bit a 19) @ bits 19 15 a)
      else vec (replicate 32 (bit a 31) @ bits 31 0 a))"

text \<open>The sum and the difference have 65 bits, the overflow before the result.\<close>

definition alu :: "u64 \<Rightarrow> u64 \<Rightarrow> bool \<Rightarrow> nat \<Rightarrow> bool \<times> u64" where
  "alu a b word_op ALUControl =
     (let shift = (if word_op then field 4 0 b else field 5 0 b);
          split = (\<lambda>s :: 65 word. (bit s 64, ucast s))
      in if ALUControl = 0b0000 then (False, a AND b)
         else if ALUControl = 0b0001 then (False, a OR b)
         else if ALUControl = 0b1001 then (False, a XOR b)
         else if ALUControl = 0b0010 then split (ucast a + ucast b)
         else if ALUControl = 0b0110 then split (ucast a - ucast b)
         else if ALUControl = 0b1110 then (False, if a <s b then 1 else 0)
         else if ALUControl = 0b1010 then (False, if a < b then 1 else 0)
         else if ALUControl = 0b0011 then (False, drop_bit shift a)
         else if ALUControl = 0b1011 then (False, signed_drop_bit shift a)
         else if ALUControl = 0b0111 then (False, push_bit shift a)
         else (False, b))"

definition atom_alu :: "u64 \<Rightarrow> u64 \<Rightarrow> nat \<Rightarrow> u64 \<times> u64" where
  "atom_alu a b ALUControl =
     (if ALUControl = 0b0000 then (b, a)
      else if ALUControl = 0b0001 then (b, a OR b)
      else if ALUControl = 0b0011 then (b, NOT a AND b)
      else (a, b))"

record execute_out =
  aluResult_E :: u64
  PCBranch_E :: u64
  PC4_E :: u64
  result1_Atom :: u64
  zero_E :: bool
  overflow_E :: bool
  sign_E :: bool

definition execute :: "controls \<Rightarrow> nat \<Rightarrow> u64 \<Rightarrow> u64 \<Rightarrow> u64 \<Rightarrow> u64 \<Rightarrow> u64 \<Rightarrow> execute_out" where
  "execute c AluControl PC_E signImm_E readData1_E readData2_E CSRRead_E =
     (let readData1 = (if bit (regSel c) 1 then PC_E else readData1_E);
          readData2 = (if ALUSrc c then signImm_E else readData2_E);
          low = (\<lambda>d. if wArith c then vec (replicate 32 False @ bits 31 0 d) else d);
          (overflow, aluResult) = alu (low readData1) (low readData2) (wArith c) AluControl;
          (aluResultAtomic, result1) = atom_alu (if ALUSrc c then signImm_E else readData1_E) CSRRead_E AluControl;
          aluResultNormal =
            (if wArith c then vec (replicate 32 (bit aluResult 31) @ bits 31 0 aluResult) else aluResult)
      in \<lparr>aluResult_E = (if aluSelect c then aluResultAtomic else aluResultNormal),
          PCBranch_E = (if ALUSrc c then vec (bits 63 1 signImm_E @ [False]) else push_bit 1 signImm_E + PC_E),
          PC4_E = PC_E + 4,
          result1_Atom = result1,
          zero_E = (aluResult = 0),
          overflow_E = overflow,
          sign_E = bit aluResult 63\<rparr>)"

definition branching :: "nat \<Rightarrow> bool \<Rightarrow> bool \<Rightarrow> bool \<Rightarrow> bool" where
  "branching Branch_E zero sign overflow =
     (if Branch_E = 0b001 then zero
      else if Branch_E = 0b011 then \<not> zero
      else if Branch_E = 0b101 then sign \<and> \<not> zero
      else if Branch_E = 0b100 then \<not> sign \<or> zero
      else if Branch_E = 0b110 then overflow \<and> \<not> zero
      else if Branch_E = 0b010 then \<not> overflow \<or> zero
      else Branch_E = 0b111)"

section \<open>The data memory's masks\<close>

definition memReadMask :: "u64 \<Rightarrow> bool \<Rightarrow> nat \<Rightarrow> nat \<Rightarrow> u64" where
  "memReadMask DM_readData_E signedRead width memOffset =
     (let shifted = drop_bit (memOffset * 8) DM_readData_E;
          readMask = vec (replicate 32 (bit width 2) @ replicate 16 (bit width 1) @ replicate 8 (bit width 0)
            @ replicate 8 True)
      in if signedRead \<and> width = 0b011 then vec (replicate 32 (bit shifted 31) @ bits 31 0 shifted)
         else if signedRead \<and> width = 0b001 then vec (replicate 48 (bit shifted 15) @ bits 15 0 shifted)
         else if signedRead \<and> width = 0b000 then vec (replicate 56 (bit shifted 7) @ bits 7 0 shifted)
         else readMask AND shifted)"

definition width_mask :: "nat \<Rightarrow> bool list" where
  "width_mask width = replicate 4 (bit width 2) @ replicate 2 (bit width 1) @ [bit width 0, True]"

definition memWriteMask :: "nat \<Rightarrow> nat \<Rightarrow> u64 \<Rightarrow> u8 \<times> u64" where
  "memWriteMask select width DM_writeData =
     (push_bit select (vec (width_mask width)), push_bit (select * 8) DM_writeData)"

section \<open>Traps and status registers\<close>

definition except_E :: "u64 \<Rightarrow> bool \<Rightarrow> bool \<Rightarrow> nat \<Rightarrow> 7 word" where
  "except_E DM_addr wren rden width =
     (let byteMask = vec (width_mask width) :: u8;
          shiftedMask = push_bit (field 2 0 DM_addr) (ucast byteMask) :: 9 word;
          alignDetect = bit shiftedMask 8
      in vec [False, False, False, False, alignDetect \<and> wren, False, alignDetect \<and> rden])"

definition except_F :: "4 word" where
  "except_F = 0"

definition exceptSignal :: "4 word \<Rightarrow> nat \<Rightarrow> 7 word \<Rightarrow> 16 word" where
  "exceptSignal f d e =
     vec ([bit e 5, False, bit e 4, bit f 2, bit d 1, False, bit d 1, bit d 1] @ bits 3 0 e
       @ [bit e 5 \<or> bit d 0 \<or> bit f 2, bit d 2] @ bits 1 0 f)"

definition exceptDecode :: "16 word \<Rightarrow> 3 word \<Rightarrow> nat" where
  "exceptDecode signal breakSrc =
     (if bit signal 3 \<and> bit breakSrc 0 then 0x3
      else if bit signal 1 then 0x1
      else if bit signal 2 then 0x2
      else if bit signal 0 then 0x0
      else if bit signal 8 then 0x8
      else if bit signal 9 then 0x9
      else if bit signal 11 then 0xb
      else if bit signal 3 \<and> bit breakSrc 2 then 0x3
      else if bit signal 3 \<and> bit breakSrc 1 then 0x3
      else if bit signal 4 then 0x4
      else if bit signal 6 then 0x6
      else if bit signal 5 then 0x5
      else if bit signal 7 then 0x7
      else 0b11111)"

record 'm rv_core =
  PC :: u64
  privMode :: "2 word"
  mstatus :: u64
  mcause :: u64
  mtvec :: u64
  mepc :: u64
  dmem :: 'm

record 'm rv_env =
  imem :: "nat \<Rightarrow> u32"
  ram_edge :: "bool \<Rightarrow> bool \<Rightarrow> nat \<Rightarrow> u64 \<Rightarrow> u8 \<Rightarrow> 'm \<Rightarrow> 'm"
  ram_q :: "'m \<Rightarrow> u64"
  undriven :: u64

definition csrOut :: "'m rv_env \<Rightarrow> u64 \<Rightarrow> 'm rv_core \<Rightarrow> nat \<Rightarrow> u64" where
  "csrOut e cycles s n = [undriven e, mstatus s, mcause s, mtvec s, mepc s, cycles] ! n"

definition core_status :: "bool \<Rightarrow> bool \<Rightarrow> bool \<Rightarrow> u64 \<Rightarrow> 'm rv_core \<Rightarrow> 'm rv_core" where
  "core_status trapTrigger ret mstatusCSREnable csrIn s =
     (let m = mstatus s; mode = privMode s;
          writeEnable = trapTrigger \<or> ret;
          modeTrapReturn = (if ret then vec (bits 12 11 m) else mode);
          modeTrapTrigger = (if trapTrigger then 0b11 else modeTrapReturn);
          mstatusCSRInPriv = (if mstatusCSREnable then bits 12 11 csrIn @ [bit csrIn 7, bit csrIn 3]
            else bits 12 11 m @ [bit m 7, bit m 3]);
          mstatusTrapReturn = (if ret then [False, False, True, bit m 7] else mstatusCSRInPriv);
          mstatusTrapTrigger = (if trapTrigger then bits 1 0 mode @ [bit m 3, False] else mstatusTrapReturn);
          mstatusCSRIn = vec (bits 63 13 m @ take 2 mstatusTrapTrigger @ bits 10 8 m @ [mstatusTrapTrigger ! 2]
            @ bits 6 4 m @ [mstatusTrapTrigger ! 3] @ bits 2 0 m)
      in s\<lparr>privMode := (if writeEnable then modeTrapTrigger else mode),
          mstatus := (if writeEnable \<or> mstatusCSREnable then mstatusCSRIn else m)\<rparr>)"

definition except_controller :: "16 word \<Rightarrow> 3 word \<Rightarrow> nat \<Rightarrow> bool \<Rightarrow> u64 \<Rightarrow> 'm rv_core \<Rightarrow> 'm rv_core" where
  "except_controller signal breakSrc CSR_addr CSR_WriteEnable CSR_In s =
     (let mtvec_mask = vec (replicate 40 False @ replicate 22 True @ replicate 2 False);
          exceptCSREnable = bit (mstatus s) 3 \<and> signal \<noteq> 0
      in s\<lparr>mcause := (if exceptCSREnable then of_nat (exceptDecode signal breakSrc) else mcause s),
          mepc := (if exceptCSREnable then PC s else mepc s),
          mtvec := (if CSR_addr = 0x305 \<and> CSR_WriteEnable
            then (mtvec s AND NOT mtvec_mask) OR (CSR_In AND mtvec_mask) else mtvec s)\<rparr>)"

definition fetch_next :: "bool \<Rightarrow> u64 \<Rightarrow> bool \<Rightarrow> u64 \<Rightarrow> bool \<Rightarrow> u64 \<Rightarrow> u64 \<Rightarrow> u64" where
  "fetch_next interruptSignal PC_TrapTrigger ret PC_TrapReturn PCSrc_F PCBranch_F PC_out =
     (let PC_4 = PC_out + 4;
          branchMux = (if PCSrc_F then PCBranch_F else PC_4);
          trapReturnMux = (if ret then PC_TrapReturn else branchMux)
      in if interruptSignal then PC_TrapTrigger else trapReturnMux)"

section \<open>One clock edge of the core\<close>

text \<open>The values on the wires that an instruction's clock edge uses.\<close>

record wires =
  w_controls :: controls
  w_csrRead :: u64
  w_readData2 :: u64
  w_execute :: execute_out
  w_writeData3 :: u64
  w_PCSrc :: bool
  w_except :: "16 word"
  w_breakSrc :: "3 word"

definition decode_execute :: "'m rv_env \<Rightarrow> u64 \<Rightarrow> u32 \<Rightarrow> u64 list \<Rightarrow> 'm rv_core \<Rightarrow> wires" where
  "decode_execute e cycles i R s =
     (let (c, AluControl) = controller False i;
          rs1 = (if bit (regSel c) 0 then 0 else field 19 15 i);
          readData1 = R ! rs1;
          readData2 = R ! field 24 20 i;
          csrRead = csr_dec (csrOut e cycles s) (of_nat (field 31 20 i));
          signImm = (if field 6 0 i = 0b1100111 then readData1 + signext i else signext i);
          x = execute c AluControl (PC s) signImm readData1 readData2 csrRead;
          DM_addr = aluResult_E x;
          PCSrc = branching (Branch c) (zero_E x) (sign_E x) (overflow_E x);
          readDataMasked = memReadMask (ram_q e (dmem s)) (bit (MemRead c) 1) (memWidth c) (field 2 0 DM_addr);
          writeback = (if MemtoReg c then readDataMasked else DM_addr);
          exceptSignal_E = except_E DM_addr (MemWrite c) (bit (MemRead c) 0) (memWidth c)
      in \<lparr>w_controls = c, w_csrRead = csrRead, w_readData2 = readData2, w_execute = x,
          w_writeData3 = (if Branch c = 0b111 then PC4_E x else writeback),
          w_PCSrc = PCSrc,
          w_except = exceptSignal except_F (exceptSignal_D c) exceptSignal_E,
          w_breakSrc = vec [bit (exceptSignal_D c) 0, bit exceptSignal_E 6, bit except_F 3]\<rparr>)"

text \<open>A clock edge at the data memory; \<open>addr\<close> has the 15 bits the memory has.\<close>

definition dmem_edge :: "'m rv_env \<Rightarrow> bool \<Rightarrow> bool \<Rightarrow> u64 \<Rightarrow> u64 \<Rightarrow> nat \<Rightarrow> 'm \<Rightarrow> 'm" where
  "dmem_edge e writeEnable readEnable addr writeData width m =
     (let (byteena, data) = memWriteMask (field 2 0 addr) width writeData
      in ram_edge e writeEnable readEnable (field 14 3 addr) data byteena m)"

definition core_exec :: "'m rv_env \<Rightarrow> u64 \<Rightarrow> u64 list \<times> 'm rv_core \<Rightarrow> u64 list \<times> 'm rv_core" where
  "core_exec e cycles = (\<lambda>(R, s).
     let i = imem e (field 11 2 (PC s));
         w = decode_execute e cycles i R s;
         c = w_controls w;
         x = w_execute w;
         CSR_addr = field 31 20 i;
         trapTrigger = bit (mstatus s) 3 \<and> w_except w \<noteq> 0;
         R' = (if RegWrite c \<and> field 11 7 i \<noteq> 0 then R[field 11 7 i := w_writeData3 w] else R);
         pc = fetch_next trapTrigger (vec (bits 63 2 (mtvec s) @ [False, False])) (trapReturn c) (mepc s)
           (w_PCSrc w) (PCBranch_E x) (PC s);
         m = dmem_edge e (MemWrite c) (bit (MemRead c) 0) (aluResult_E x) (w_readData2 w) (memWidth c) (dmem s);
         t = except_controller (w_except w) (w_breakSrc w) CSR_addr (csrWriteEnable c) (result1_Atom x) s;
         t = core_status trapTrigger (trapReturn c) (CSR_addr = 0x300 \<and> csrWriteEnable c) (result1_Atom x) t
     in (R', t\<lparr>PC := pc, dmem := m\<rparr>))"

text \<open>The reset values of the registers; the data memory and the register file have no reset.\<close>

definition core_reset :: "'m rv_core \<Rightarrow> 'm rv_core" where
  "core_reset s = s\<lparr>PC := 0, privMode := 0b11, mstatus := 0x200000000, mcause := 0, mtvec := 0, mepc := 0\<rparr>"

text \<open>
  The core of the board.  The debug port writes doublewords; when it only reads, the width is that
  of a core whose control signals are all 0.
\<close>

definition core_board :: "'m rv_env \<Rightarrow> 'm rv_core core_fns" where
  "core_board e = \<lparr>
     exec = core_exec e,
     reset_rest = core_reset,
     ebreak_now = (\<lambda>s. bit (exceptSignal_D (fst (controller False (imem e (field 11 2 (PC s)))))) 0),
     pc_of = PC,
     mem_port = (\<lambda>wren rden addr data s. s\<lparr>dmem :=
       dmem_edge e wren rden (ucast addr) data (if wren then 0b111 else memWidth (fst (controller True 0))) (dmem s)\<rparr>),
     mem_q = (\<lambda>s. ram_q e (dmem s)),
     csr_out = (\<lambda>n s. csrOut e 0 s n)\<rparr>"

end
