(* ===== verification/Isa.thy ===== *)
theory Isa
  imports Core
begin

text \<open>
  The instruction set the core implements, RV64I with the status register instructions, as the
  manual gives it: \<open>isa_decode\<close> reads an instruction, \<open>isa_compute\<close> is what the instructions
  that only compute, jump or branch do to the program counter and the registers, \<open>None\<close> where a
  target is not aligned.  The properties say where the core of theory Core agrees with it and
  where it does not.
\<close>

section \<open>Buses as words\<close>

lemma length_bits [simp]: "length (bits hi lo a) = Suc hi - lo"
  by (auto simp: bits_def)

lemma nth_bits: "n < Suc hi - lo \<Longrightarrow> bits hi lo a ! n \<longleftrightarrow> bit a (hi - n)"
  unfolding bits_def by (auto simp: rev_nth Suc_diff_Suc simp del: upt_Suc intro!: arg_cong [where f = "bit a"])

lemma bit_vec: "bit (vec bs :: 'a :: len word) n \<longleftrightarrow> n < LENGTH('a) \<and> n < length bs \<and> bs ! (length bs - 1 - n)"
  unfolding vec_def bit_horner_sum_bit_word_iff by (auto simp: rev_nth)

named_theorems bus_simps \<open>bits of buses\<close>

lemmas [bus_simps] = bit_vec nth_append nth_bits bit_simps

text \<open>The sign extension of a list of bits, with a zero appended before or after.\<close>

lemma sext_shifted:
  assumes "k + length bs = 64" "LENGTH('b :: len) = Suc (length bs)" "bs \<noteq> []"
  shows "push_bit 1 (vec (replicate k (hd bs) @ bs) :: u64) = scast (vec (bs @ [False]) :: 'b word)"
proof (rule bit_word_eqI)
  fix n
  assume n: "n < LENGTH(64)"
  have "63 - (m + k) = length bs - Suc m" for m using assms(1) by simp
  then show "bit (push_bit 1 (vec (replicate k (hd bs) @ bs) :: u64)) n
      = bit (scast (vec (bs @ [False]) :: 'b word) :: u64) n"
    unfolding bit_push_bit_iff bit_word_scast_iff bit_vec
    using n assms by (cases n) (auto simp: nth_append hd_conv_nth)
qed

lemma field_less: "lo \<le> hi \<Longrightarrow> field hi lo a < 2 ^ (hi + 1 - lo)"
  by (simp add: field_def unsigned_take_bit_eq take_bit_nat_less_exp)

section \<open>The instruction set\<close>

datatype rv_op = Add | Sub | Sll | Slt | Sltu | Xor | Srl | Sra | Or | And

datatype rv_cond = Eq | Ne | Lt | Ge | Ltu | Geu

text \<open>The flag of an arithmetic instruction: it works on 32-bit words.\<close>

datatype rv_instr =
    Reg_reg bool rv_op nat nat nat
  | Reg_imm bool rv_op nat nat u64
  | Load nat bool nat nat u64
  | Store nat nat nat u64
  | Lui nat u64
  | Auipc nat u64
  | Jal nat u64
  | Jalr nat nat u64
  | Branch_if rv_cond nat nat u64
  | Csr_reg nat nat nat nat
  | Csr_imm nat nat nat u64
  | Fence
  | Ecall
  | Ebreak
  | Mret

definition imm_I :: "u32 \<Rightarrow> u64" where
  "imm_I i = scast (vec (bits 31 20 i) :: 12 word)"

definition imm_S :: "u32 \<Rightarrow> u64" where
  "imm_S i = scast (vec (bits 31 25 i @ bits 11 7 i) :: 12 word)"

definition imm_B :: "u32 \<Rightarrow> u64" where
  "imm_B i = scast (vec ([bit i 31, bit i 7] @ bits 30 25 i @ bits 11 8 i @ [False]) :: 13 word)"

definition imm_U :: "u32 \<Rightarrow> u64" where
  "imm_U i = scast (i AND NOT (mask 12))"

definition imm_J :: "u32 \<Rightarrow> u64" where
  "imm_J i = scast (vec ([bit i 31] @ bits 19 12 i @ [bit i 20] @ bits 30 21 i @ [False]) :: 21 word)"

definition op_of :: "nat \<Rightarrow> nat \<Rightarrow> rv_op option" where
  "op_of funct7 funct3 =
     (if funct7 = 0 then Some ([Add, Sll, Slt, Sltu, Xor, Srl, Or, And] ! funct3)
      else if funct7 = 0x20 \<and> funct3 = 0 then Some Sub
      else if funct7 = 0x20 \<and> funct3 = 5 then Some Sra
      else None)"

definition has_word_form :: "rv_op \<Rightarrow> bool" where
  "has_word_form op \<longleftrightarrow> op \<in> {Add, Sub, Sll, Srl, Sra}"

definition cond_of :: "nat \<Rightarrow> rv_cond option" where
  "cond_of funct3 =
     (if funct3 = 0 then Some Eq else if funct3 = 1 then Some Ne else if funct3 = 4 then Some Lt
      else if funct3 = 5 then Some Ge else if funct3 = 6 then Some Ltu else if funct3 = 7 then Some Geu else None)"

text \<open>A shift by an immediate has its amount in the low bits of the immediate, the rest is a function code.\<close>

definition imm_op_of :: "bool \<Rightarrow> u32 \<Rightarrow> rv_op option" where
  "imm_op_of w i =
     (let f = field 14 12 i; high = (if w then field 31 25 i else 2 * field 31 26 i) in
      if f = 1 then (if high = 0 then Some Sll else None)
      else if f = 5 then (if high = 0 then Some Srl else if high = 0x20 then Some Sra else None)
      else op_of 0 f)"

definition isa_decode :: "u32 \<Rightarrow> rv_instr option" where
  "isa_decode i =
     (let opcode = field 6 0 i; rd = field 11 7 i; f = field 14 12 i; rs1 = field 19 15 i; rs2 = field 24 20 i in
      if opcode = 0x33 then map_option (\<lambda>op. Reg_reg False op rd rs1 rs2) (op_of (field 31 25 i) f)
      else if opcode = 0x3b then
        (case op_of (field 31 25 i) f of
           Some op \<Rightarrow> if has_word_form op then Some (Reg_reg True op rd rs1 rs2) else None
         | None \<Rightarrow> None)
      else if opcode = 0x13 then map_option (\<lambda>op. Reg_imm False op rd rs1 (imm_I i)) (imm_op_of False i)
      else if opcode = 0x1b then
        (case imm_op_of True i of
           Some op \<Rightarrow> if has_word_form op then Some (Reg_imm True op rd rs1 (imm_I i)) else None
         | None \<Rightarrow> None)
      else if opcode = 0x03 then (if f = 7 then None else Some (Load (2 ^ (f mod 4)) (f < 4) rd rs1 (imm_I i)))
      else if opcode = 0x23 then (if f < 4 then Some (Store (2 ^ f) rs1 rs2 (imm_S i)) else None)
      else if opcode = 0x37 then Some (Lui rd (imm_U i))
      else if opcode = 0x17 then Some (Auipc rd (imm_U i))
      else if opcode = 0x6f then Some (Jal rd (imm_J i))
      else if opcode = 0x67 then (if f = 0 then Some (Jalr rd rs1 (imm_I i)) else None)
      else if opcode = 0x63 then map_option (\<lambda>c. Branch_if c rs1 rs2 (imm_B i)) (cond_of f)
      else if opcode = 0x0f then (if f = 0 then Some Fence else None)
      else if opcode = 0x73 then
        if f = 0 then
          if i = 0x00000073 then Some Ecall else if i = 0x00100073 then Some Ebreak
          else if i = 0x30200073 then Some Mret else None
        else if f = 4 then None
        else if f < 4 then Some (Csr_reg f rd (field 31 20 i) rs1)
        else Some (Csr_imm (f - 4) rd (field 31 20 i) (of_nat rs1))
      else None)"

primrec rv_alu :: "rv_op \<Rightarrow> 'a :: len word \<Rightarrow> 'a word \<Rightarrow> 'a word" where
  "rv_alu Add a b = a + b"
| "rv_alu Sub a b = a - b"
| "rv_alu Sll a b = push_bit (unat b mod LENGTH('a)) a"
| "rv_alu Slt a b = (if sint a < sint b then 1 else 0)"
| "rv_alu Sltu a b = (if uint a < uint b then 1 else 0)"
| "rv_alu Xor a b = a XOR b"
| "rv_alu Srl a b = drop_bit (unat b mod LENGTH('a)) a"
| "rv_alu Sra a b = signed_drop_bit (unat b mod LENGTH('a)) a"
| "rv_alu Or a b = a OR b"
| "rv_alu And a b = a AND b"

definition rv_value :: "bool \<Rightarrow> rv_op \<Rightarrow> u64 \<Rightarrow> u64 \<Rightarrow> u64" where
  "rv_value w op a b = (if w then scast (rv_alu op (ucast a :: u32) (ucast b)) else rv_alu op a b)"

primrec holds :: "rv_cond \<Rightarrow> u64 \<Rightarrow> u64 \<Rightarrow> bool" where
  "holds Eq a b \<longleftrightarrow> a = b"
| "holds Ne a b \<longleftrightarrow> a \<noteq> b"
| "holds Lt a b \<longleftrightarrow> sint a < sint b"
| "holds Ge a b \<longleftrightarrow> sint b \<le> sint a"
| "holds Ltu a b \<longleftrightarrow> uint a < uint b"
| "holds Geu a b \<longleftrightarrow> uint b \<le> uint a"

definition put_reg :: "nat \<Rightarrow> u64 \<Rightarrow> u64 list \<Rightarrow> u64 list" where
  "put_reg r v R = (if r = 0 then R else R[r := v])"

definition jump :: "u64 \<Rightarrow> 'a \<Rightarrow> (u64 \<times> 'a) option" where
  "jump target R = (if 4 dvd unat target then Some (target, R) else None)"

fun isa_compute :: "rv_instr \<Rightarrow> u64 \<Rightarrow> u64 list \<Rightarrow> (u64 \<times> u64 list) option" where
  "isa_compute (Reg_reg w op d rs1 rs2) pc R = Some (pc + 4, put_reg d (rv_value w op (R ! rs1) (R ! rs2)) R)"
| "isa_compute (Reg_imm w op d rs1 imm) pc R = Some (pc + 4, put_reg d (rv_value w op (R ! rs1) imm) R)"
| "isa_compute (Lui d imm) pc R = Some (pc + 4, put_reg d imm R)"
| "isa_compute (Auipc d imm) pc R = Some (pc + 4, put_reg d (pc + imm) R)"
| "isa_compute (Jal d imm) pc R = jump (pc + imm) (put_reg d (pc + 4) R)"
| "isa_compute (Jalr d rs1 imm) pc R = jump ((R ! rs1 + imm) AND NOT 1) (put_reg d (pc + 4) R)"
| "isa_compute (Branch_if c rs1 rs2 imm) pc R =
     (if holds c (R ! rs1) (R ! rs2) then jump (pc + imm) R else Some (pc + 4, R))"
| "isa_compute Fence pc R = Some (pc + 4, R)"
| "isa_compute _ pc R = None"

section \<open>Immediates\<close>

text \<open>Branch and jump immediates leave out the lowest bit, which the core appends when it adds.\<close>

lemma signext_I: "field 6 0 i \<in> {0x13, 0x67, 0x03} \<Longrightarrow> signext i = imm_I i"
  by (rule bit_word_eqI) (auto simp: signext_def imm_I_def bus_simps)

lemma signext_S: "field 6 0 i = 0x23 \<Longrightarrow> signext i = imm_S i"
  by (rule bit_word_eqI) (auto simp: signext_def imm_S_def bus_simps)

lemma signext_U:
  assumes "field 6 0 i \<in> {0x37, 0x17}"
  shows "signext i = imm_U i"
proof (rule bit_word_eqI)
  fix n
  have "signext i = vec (replicate 32 (bit i 31) @ bits 31 12 i @ replicate 12 False)"
    using assms by (auto simp: signext_def)
  moreover assume "n < LENGTH(64)"
  ultimately show "bit (signext i) n \<longleftrightarrow> bit (imm_U i) n"
    by (simp add: imm_U_def bit_vec nth_append nth_bits) (auto simp: bit_simps)
qed

lemma signext_B: "field 6 0 i = 0x63 \<Longrightarrow> push_bit 1 (signext i) = imm_B i"
  using sext_shifted [of 52 "[bit i 31, bit i 7] @ bits 30 25 i @ bits 11 8 i", where 'b = 13]
  by (simp add: signext_def imm_B_def)

lemma signext_J: "field 6 0 i = 0x6f \<Longrightarrow> push_bit 1 (signext i) = imm_J i"
  using sext_shifted [of 44 "[bit i 31] @ bits 19 12 i @ [bit i 20] @ bits 30 21 i", where 'b = 21]
  by (simp add: signext_def imm_J_def)

lemma signext_IW: "field 6 0 i = 0x1b \<Longrightarrow> ucast (signext i) = (ucast (imm_I i) :: u32)"
  by (rule bit_word_eqI) (auto simp: signext_def imm_I_def bus_simps)

end
