(* ===== verification/CoreIsa.thy ===== *)
theory CoreIsa
  imports Isa
begin

text \<open>
  The core of theory Core against the instruction set of theory Isa: arithmetic, branches and
  jumps here, instruction by instruction, then one clock edge as a whole.
\<close>

section \<open>The arithmetic unit\<close>

primrec alu_code :: "rv_op \<Rightarrow> nat" where
  "alu_code Add = 0b0010"
| "alu_code Sub = 0b0110"
| "alu_code Sll = 0b0111"
| "alu_code Slt = 0b1110"
| "alu_code Sltu = 0b1010"
| "alu_code Xor = 0b1001"
| "alu_code Srl = 0b0011"
| "alu_code Sra = 0b1011"
| "alu_code Or = 0b0001"
| "alu_code And = 0b0000"

lemma wide_sum: "(ucast (ucast a + ucast b :: 65 word) :: u64) = a + b"
  by transfer (simp add: take_bit_eq_mod mod_simps mod_mod_cancel)

lemma wide_diff: "(ucast (ucast a - ucast b :: 65 word) :: u64) = a - b"
  by transfer (simp add: take_bit_eq_mod mod_simps mod_mod_cancel)

lemma borrow: "bit (ucast a - ucast b :: 65 word) 64 \<longleftrightarrow> a < (b :: u64)"
proof -
  let ?d = "uint a - uint b"
  have r: "uint a < 2 ^ 64" "uint b < 2 ^ 64" "0 \<le> uint a" "0 \<le> uint b"
    using uint_lt2p [of a] uint_lt2p [of b] by simp_all
  have p: "(2 :: int) ^ 65 = 36893488147419103232" "(2 :: int) ^ 64 = 18446744073709551616" by simp_all
  have "uint (ucast a - ucast b :: 65 word) = ?d mod 2 ^ 65"
    by transfer (simp add: take_bit_eq_mod mod_simps)
  also have "\<dots> = (if ?d < 0 then ?d + 2 ^ 65 else ?d)"
  proof (cases "?d < 0")
    case True
    have "?d mod 2 ^ 65 = (?d + 2 ^ 65) mod 2 ^ 65" by simp
    also have "\<dots> = ?d + 2 ^ 65" by (rule mod_pos_pos_trivial) (insert r True, unfold p, linarith)+
    finally show ?thesis using True by simp
  next
    case False
    have "?d mod 2 ^ 65 = ?d" by (rule mod_pos_pos_trivial) (insert r False, unfold p, linarith)+
    then show ?thesis using False by simp
  qed
  finally have u: "uint (ucast a - ucast b :: 65 word) = (if ?d < 0 then ?d + 2 ^ 65 else ?d)" .
  have "bit (ucast a - ucast b :: 65 word) 64 \<longleftrightarrow> bit (uint (ucast a - ucast b :: 65 word)) 64"
    by (simp add: bit_uint_iff)
  also have "\<dots> \<longleftrightarrow> ?d < 0"
  proof (cases "?d < 0")
    case True
    have "(?d + 2 ^ 65) div 2 ^ 64 = 1"
      by (rule int_div_pos_eq [where r = "?d + 2 ^ 64"]) (insert r True, unfold p, linarith)+
    then show ?thesis unfolding u bit_iff_odd by (simp only: True if_True odd_one simp_thms)
  next
    case False
    have "?d div 2 ^ 64 = 0" by (rule div_pos_pos_trivial) (insert r False, unfold p, linarith)+
    then show ?thesis unfolding u bit_iff_odd by (simp only: False if_False even_zero simp_thms)
  qed
  finally show ?thesis by (simp add: word_less_def)
qed

lemma field_low: "field hi 0 b = unat b mod 2 ^ Suc hi"
  by (simp add: field_def unsigned_take_bit_eq) (simp add: take_bit_eq_mod)

lemma alu_value: "snd (alu a b False (alu_code op)) = rv_alu op a b"
  by (cases op) (simp_all add: alu_def Let_def wide_sum wide_diff field_low word_sless_alt word_less_def)

text \<open>The 32-bit instructions: operands with their upper half cleared, and a result whose sign is extended.\<close>

lemma low_half: "(vec (replicate 32 False @ bits 31 0 d) :: u64) = ucast (ucast d :: u32)" for d :: u64
  by (rule bit_word_eqI) (auto simp: bus_simps)

lemma sext_half: "(vec (replicate 32 (bit d 31) @ bits 31 0 d) :: u64) = scast (ucast d :: u32)" for d :: u64
  by (rule bit_word_eqI) (auto simp: bus_simps)

lemma half_arith:
  "(ucast (ucast a + ucast b :: u64) :: u32) = a + b" "(ucast (ucast a - ucast b :: u64) :: u32) = a - b"
  by (transfer, simp add: take_bit_eq_mod mod_simps mod_mod_cancel)+

lemma half_shift:
  "(ucast (push_bit n (ucast a :: u64)) :: u32) = push_bit n a" "(ucast (drop_bit n (ucast a :: u64)) :: u32) = drop_bit n a"
  by (rule bit_word_eqI; auto simp: bit_simps dest: bit_imp_le_length)+

lemma half_sra: "\<not> bit a 31 \<Longrightarrow> (ucast (signed_drop_bit n (ucast a :: u64)) :: u32) = signed_drop_bit n a" for a :: u32
  by (rule bit_word_eqI) (auto simp: bit_simps dest: bit_imp_le_length)

definition exact_op :: "bool \<Rightarrow> rv_op \<Rightarrow> u64 \<Rightarrow> bool" where
  "exact_op w op a \<longleftrightarrow> \<not> (w \<and> op = Sra \<and> bit a 31)"

lemma alu_value_word:
  assumes "has_word_form op" "exact_op True op a"
  shows "(ucast (snd (alu (ucast (ucast a :: u32)) (ucast (ucast b :: u32)) True (alu_code op))) :: u32)
    = rv_alu op (ucast a :: u32) (ucast b)"
proof -
  have "unat (ucast x :: u64) = unat x" for x :: u32
    using unat_u32_lt [of x] by (simp add: unsigned_ucast_eq take_bit_nat_eq_self)
  then have s: "field 4 0 (ucast x :: u64) = unat x mod 32" for x :: u32 by (simp add: field_low)
  show ?thesis
    using assms by (cases op) (simp_all add: has_word_form_def exact_op_def alu_def Let_def wide_sum wide_diff s
      half_arith half_shift half_sra bit_simps)
qed

section \<open>The decoders\<close>

lemma bit_field: "lo \<le> hi \<Longrightarrow> bit (field hi lo a) n \<longleftrightarrow> n \<le> hi - lo \<and> bit a (lo + n)"
  by (auto simp: field_def bit_simps dest: bit_imp_le_length)

lemma funct3_cases: "field 14 12 i \<in> {0, 1, 2, 3, 4, 5, 6, 7}" for i :: u32
  using field_less [of 12 14 i] by (auto simp: less_Suc_eq numeral_eq_Suc)

lemma aludec_reg: "op_of funct7 (field 14 12 i) = Some op \<Longrightarrow> aludec funct7 (field 14 12 i) 2 = alu_code op"
  for i :: u32
  using funct3_cases [of i] by (elim insertE emptyE) (auto simp: op_of_def aludec_def bit_Suc_0_iff split: if_splits)

lemma aludec_imm: "imm_op_of w i = Some op \<Longrightarrow> aludec (field 31 25 i) (field 14 12 i) 3 = alu_code op"
proof -
  assume a: "imm_op_of w i = Some op"
  have b: "bit (field 31 25 i) 5 = bit (field 31 26 i) 4" by (simp add: bit_field)
  have "bit (field 31 25 i) 5 \<longleftrightarrow> op = Sra" if "field 14 12 i = 5"
  proof (cases w)
    case True
    then show ?thesis using a that by (auto simp: imm_op_of_def Let_def bit_Suc_0_iff split: if_splits)
  next
    case False
    then show ?thesis unfolding b using a that by (auto simp: imm_op_of_def Let_def bit_Suc_0_iff split: if_splits)
  qed
  then show ?thesis
    using a funct3_cases [of i] by (elim insertE emptyE) (auto simp: imm_op_of_def op_of_def aludec_def Let_def split: if_splits)
qed

text \<open>What the signals of an instruction are that neither traps nor accesses memory or status registers.\<close>

definition plain :: "controls \<Rightarrow> bool" where
  "plain c \<longleftrightarrow> exceptSignal_D c = 0 \<and> MemRead c = 0 \<and> \<not> MemWrite c \<and> \<not> MemtoReg c \<and> \<not> trapReturn c
     \<and> \<not> csrWriteEnable c \<and> \<not> aluSelect c"

lemma except_none: "exceptSignal except_F 0 (except_E a False False n) = 0"
  by (rule bit_word_eqI) (auto simp: exceptSignal_def except_F_def except_E_def bit_vec Let_def nth_append nth_bits nth_Cons')

lemma no_status_change: "core_status False False False x s = s"
  by (simp add: core_status_def Let_def)

lemma no_exception: "except_controller 0 b a False x s = s"
  by (simp add: except_controller_def Let_def)

text \<open>A data memory that is neither written nor read keeps its contents and its output.\<close>

definition idle_ram :: "'m rv_env \<Rightarrow> bool" where
  "idle_ram e \<longleftrightarrow> (\<forall>a d be m. ram_edge e False False a d be m = m)"

lemma no_access: "idle_ram e \<Longrightarrow> dmem_edge e False False a d width m = m"
  by (simp add: idle_ram_def dmem_edge_def split_beta)

definition fetches :: "'m rv_env \<Rightarrow> 'm rv_core \<Rightarrow> u32 \<Rightarrow> bool" where
  "fetches e s i \<longleftrightarrow> idle_ram e \<and> imem e (field 11 2 (PC s)) = i"

lemma core_exec_plain:
  fixes e :: "'m rv_env" and n :: u64 and R :: "u64 list"
  assumes "controller False i = (c, k)" "plain c" "fetches e s i"
  defines "w \<equiv> decode_execute e n i R s"
  shows "core_exec e n (R, s) = (if RegWrite c then put_reg (field 11 7 i) (w_writeData3 w) R else R,
    s\<lparr>PC := if w_PCSrc w then PCBranch_E (w_execute w) else PC s + 4\<rparr>)"
proof -
  have w: "w_controls w = c" by (simp add: w_def decode_execute_def assms(1) Let_def)
  have x: "w_except w = 0"
    using assms(2) by (simp add: w_def decode_execute_def assms(1) Let_def plain_def except_none)
  note c = assms(2) [unfolded plain_def] and f = assms(3) [unfolded fetches_def]
  show ?thesis
    unfolding core_exec_def prod.case Let_def conjunct2 [OF f] w_def [symmetric] w x
    by (simp add: c put_reg_def no_status_change no_exception no_access [OF conjunct1 [OF f]] fetch_next_def)
qed

section \<open>One instruction\<close>

lemmas decoder_simps = controller_def maindec_def signals_def plain_def bit_Suc_0_iff Let_def

text \<open>The operands of the arithmetic unit, and what it gives, in terms of the control signals.\<close>

definition operand1 :: "controls \<Rightarrow> u32 \<Rightarrow> u64 list \<Rightarrow> u64 \<Rightarrow> u64" where
  "operand1 c i R pc = (if bit (regSel c) 1 then pc else R ! (if bit (regSel c) 0 then 0 else field 19 15 i))"

definition operand2 :: "controls \<Rightarrow> u32 \<Rightarrow> u64 list \<Rightarrow> u64" where
  "operand2 c i R = (if ALUSrc c then signext i else R ! field 24 20 i)"

lemma plain_write:
  fixes R :: "u64 list" and s :: "'m rv_core"
  assumes "controller False i = (c, k)" "plain c" "Branch c = 0" "field 6 0 i \<noteq> 0b1100111"
  defines "a \<equiv> operand1 c i R (PC s)" and "b \<equiv> operand2 c i R"
  shows "w_writeData3 (decode_execute e n i R s) = (if wArith c
      then scast (ucast (snd (alu (ucast (ucast a :: u32)) (ucast (ucast b :: u32)) True k)) :: u32) else snd (alu a b False k))"
    and "\<not> w_PCSrc (decode_execute e n i R s)"
proof -
  note c = assms(2) [unfolded plain_def]
  show "w_writeData3 (decode_execute e n i R s) = (if wArith c
      then scast (ucast (snd (alu (ucast (ucast a :: u32)) (ucast (ucast b :: u32)) True k)) :: u32) else snd (alu a b False k))"
    unfolding decode_execute_def execute_def assms(1) prod.case Let_def split_beta wires.select_convs execute_out.select_convs
      low_half sext_half a_def b_def operand1_def operand2_def
    by (simp add: c assms(3,4))
  show "\<not> w_PCSrc (decode_execute e n i R s)"
    unfolding decode_execute_def assms(1) prod.case Let_def wires.select_convs by (simp add: assms(3) branching_def)
qed

text \<open>A register-register instruction, and one with an immediate.\<close>

lemma step_reg_reg:
  assumes "field 6 0 i = (if w then 0x3b else 0x33)" "op_of (field 31 25 i) (field 14 12 i) = Some op"
    "w \<Longrightarrow> has_word_form op" "exact_op w op (R ! field 19 15 i)" "fetches e s i"
  shows "core_exec e n (R, s) =
    (put_reg (field 11 7 i) (rv_value w op (R ! field 19 15 i) (R ! field 24 20 i)) R, s\<lparr>PC := PC s + 4\<rparr>)"
proof -
  define c where "c = signals 0 0 (of_bool w) 0 0b001 0 0 0 0 0b10"
  have k: "controller False i = (c, alu_code op)"
    using assms(1) aludec_reg [OF assms(2)] by (cases w) (simp_all add: decoder_simps c_def)
  have c: "plain c" "Branch c = 0" "field 6 0 i \<noteq> 0b1100111"
    using assms(1) by (cases w; simp add: c_def decoder_simps)+
  have v: "RegWrite c" "wArith c = w" "operand1 c i R (PC s) = R ! field 19 15 i" "operand2 c i R = R ! field 24 20 i"
    by (simp_all add: c_def decoder_simps operand1_def operand2_def)
  show ?thesis
    using alu_value_word [OF assms(3), of "R ! field 19 15 i" "R ! field 24 20 i"] assms(4)
    unfolding core_exec_plain [OF k c(1) assms(5)] plain_write(1) [OF k c]
    by (cases w) (simp_all add: v plain_write(2) [OF k c] rv_value_def alu_value)
qed

lemma step_reg_imm:
  assumes "field 6 0 i = (if w then 0x1b else 0x13)" "imm_op_of w i = Some op"
    "w \<Longrightarrow> has_word_form op" "exact_op w op (R ! field 19 15 i)" "fetches e s i"
  shows "core_exec e n (R, s) =
    (put_reg (field 11 7 i) (rv_value w op (R ! field 19 15 i) (imm_I i)) R, s\<lparr>PC := PC s + 4\<rparr>)"
proof -
  define c where "c = signals 0 0 (of_bool w) 0 0b101 0 0 0 0 0b11"
  have k: "controller False i = (c, alu_code op)"
    using assms(1) aludec_imm [OF assms(2)] by (cases w) (simp_all add: decoder_simps c_def)
  have c: "plain c" "Branch c = 0" "field 6 0 i \<noteq> 0b1100111"
    using assms(1) by (cases w; simp add: c_def decoder_simps)+
  have v: "RegWrite c" "wArith c = w" "operand1 c i R (PC s) = R ! field 19 15 i" "operand2 c i R = signext i"
    by (simp_all add: c_def decoder_simps operand1_def operand2_def)
  have imm: "if w then ucast (signext i) = (ucast (imm_I i) :: u32) else signext i = imm_I i"
    using assms(1) signext_I [of i] signext_IW [of i] by simp
  show ?thesis
    using alu_value_word [OF assms(3), of "R ! field 19 15 i" "imm_I i"] assms(4) imm
    unfolding core_exec_plain [OF k c(1) assms(5)] plain_write(1) [OF k c]
    by (cases w) (simp_all add: v plain_write(2) [OF k c] rv_value_def alu_value)
qed

text \<open>The upper immediates.\<close>

lemma step_upper:
  assumes "field 6 0 i = (if p then 0x17 else 0x37)" "fetches e s i" "R ! 0 = 0"
  shows "core_exec e n (R, s) =
    (put_reg (field 11 7 i) ((if p then PC s else 0) + imm_U i) R, s\<lparr>PC := PC s + 4\<rparr>)"
proof -
  define c where "c = signals 0 0 0 (if p then 0b10 else 0b01) 0b101 0 0 0 0 0"
  have k: "controller False i = (c, alu_code Add)"
    using assms(1) by (cases p) (simp_all add: decoder_simps aludec_def c_def)
  have c: "plain c" "Branch c = 0" "field 6 0 i \<noteq> 0b1100111"
    using assms(1) by (cases p; simp add: c_def decoder_simps)+
  have v: "RegWrite c" "\<not> wArith c" "operand1 c i R (PC s) = (if p then PC s else 0)" "operand2 c i R = imm_U i"
    using signext_U [of i] assms(1,3) by (cases p; simp add: c_def decoder_simps operand1_def operand2_def)+
  show ?thesis
    unfolding core_exec_plain [OF k c(1) assms(2)] plain_write(1) [OF k c]
    by (simp add: v plain_write(2) [OF k c] alu_value del: alu_code.simps)
qed

section \<open>Branches and jumps\<close>

lemma alu_sub: "alu a b False 0b0110 = (a < b, a - b)"
  by (simp add: alu_def Let_def wide_diff borrow)

lemma plain_branch:
  fixes R :: "u64 list" and s :: "'m rv_core"
  assumes "controller False i = (c, k)" "\<not> wArith c"
  defines "a \<equiv> operand1 c i R (PC s)"
    and "b \<equiv> if ALUSrc c then (if field 6 0 i = 0b1100111 then R ! field 19 15 i + signext i else signext i)
      else R ! field 24 20 i"
  assumes "field 6 0 i = 0b1100111 \<longrightarrow> \<not> bit (regSel c) 0"
  shows "w_PCSrc (decode_execute e n i R s)
      = branching (Branch c) (snd (alu a b False k) = 0) (bit (snd (alu a b False k)) 63) (fst (alu a b False k))"
    and "PCBranch_E (w_execute (decode_execute e n i R s))
      = (if ALUSrc c then vec (bits 63 1 b @ [False]) else push_bit 1 (if field 6 0 i = 0b1100111
          then R ! field 19 15 i + signext i else signext i) + PC s)"
    and "Branch c = 7 \<Longrightarrow> w_writeData3 (decode_execute e n i R s) = PC s + 4"
  unfolding decode_execute_def execute_def assms(1) prod.case Let_def split_beta wires.select_convs execute_out.select_convs
    a_def b_def operand1_def
  using assms(5) by (simp_all add: assms(2))

definition exact_branch :: "rv_cond \<Rightarrow> u64 \<Rightarrow> u64 \<Rightarrow> bool" where
  "exact_branch c a b \<longleftrightarrow> (c = Lt \<or> c = Ge \<longrightarrow> - (2 ^ 63) \<le> sint a - sint b \<and> sint a - sint b < 2 ^ 63)"

lemma sign_of_difference:
  fixes a b :: u64
  shows "bit (a - b) 63 \<longleftrightarrow> (sint a < sint b \<longleftrightarrow> - (2 ^ 63) \<le> sint a - sint b \<and> sint a - sint b < 2 ^ 63)"
proof -
  define d where "d = sint a - sint b"
  have p: "(2 :: int) ^ 63 = 9223372036854775808" by simp
  have r: "- (2 ^ 63) \<le> sint a" "sint a < 2 ^ 63" "- (2 ^ 63) \<le> sint b" "sint b < 2 ^ 63"
    using sint_range_size [of a] sint_range_size [of b] by (simp_all add: word_size)
  have "bit (a - b) 63 \<longleftrightarrow> bit (word_of_int d :: u64) 63" by (simp add: d_def)
  also have "\<dots> \<longleftrightarrow> odd (d div 2 ^ 63)" unfolding bit_word_of_int_iff by (simp add: bit_iff_odd)
  also have "\<dots> \<longleftrightarrow> (d < 0 \<longleftrightarrow> - (2 ^ 63) \<le> d \<and> d < 2 ^ 63)"
  proof -
    consider "2 ^ 63 \<le> d" | "0 \<le> d" "d < 2 ^ 63" | "- (2 ^ 63) \<le> d" "d < 0" | "d < - (2 ^ 63)" by linarith
    then show ?thesis
    proof cases
      case 1
      have "d div 2 ^ 63 = 1" by (rule int_div_pos_eq [where r = "d - 2 ^ 63"]) (insert 1 r d_def, unfold p, linarith)+
      then show ?thesis using 1 by (simp only: odd_one simp_thms; unfold p; linarith)
    next
      case 2
      then have "d div 2 ^ 63 = 0" by (rule div_pos_pos_trivial)
      then show ?thesis using 2 by (simp only: even_zero simp_thms; unfold p; linarith)
    next
      case 3
      have "d div 2 ^ 63 = - 1" by (rule int_div_pos_eq [where r = "d + 2 ^ 63"]) (insert 3, unfold p, linarith)+
      then show ?thesis using 3 by (simp only: even_minus odd_one simp_thms; unfold p; linarith)
    next
      case 4
      have "d div 2 ^ 63 = - 2" by (rule int_div_pos_eq [where r = "d + 2 ^ 64"]) (insert 4 r d_def, unfold p, simp)+
      then show ?thesis using 4 by (simp only: even_minus even_numeral simp_thms; unfold p; linarith)
    qed
  qed
  finally show ?thesis by (simp only: d_def diff_less_0_iff_less)
qed

text \<open>The branch code that the decoder gives each condition.\<close>

primrec branch_code :: "rv_cond \<Rightarrow> nat" where
  "branch_code Eq = 0b001"
| "branch_code Ne = 0b011"
| "branch_code Lt = 0b101"
| "branch_code Ge = 0b100"
| "branch_code Ltu = 0b110"
| "branch_code Geu = 0b010"

lemma branch_taken:
  "branching (branch_code c) (a - b = 0) (bit (a - b) 63) (a < b) \<longleftrightarrow> (holds c a b \<longleftrightarrow> exact_branch c a b)"
  using sign_of_difference [of a b]
  by (cases c) (auto simp: branching_def word_less_def exact_branch_def)

lemma step_branch:
  fixes R :: "u64 list"
  assumes "field 6 0 i = 0x63" "cond_of (field 14 12 i) = Some c" "fetches e s i"
  defines "a \<equiv> R ! field 19 15 i" and "b \<equiv> R ! field 24 20 i"
  shows "core_exec e n (R, s) = (R, s\<lparr>PC := if holds c a b \<longleftrightarrow> exact_branch c a b then PC s + imm_B i else PC s + 4\<rparr>)"
proof -
  define t where "t = signals 0 0 0 0 0 0 0 0 (branch_code c) 0b01"
  have k: "controller False i = (t, 0b0110)"
    using assms(1,2) by (auto simp: decoder_simps aludec_def t_def cond_of_def split: if_splits)
  have p: "plain t" "\<not> wArith t" "\<not> ALUSrc t" "\<not> RegWrite t" "operand1 t i R (PC s) = R ! field 19 15 i"
    "Branch t = branch_code c" "field 6 0 i = 0b1100111 \<longrightarrow> \<not> bit (regSel t) 0"
    by (simp_all add: t_def decoder_simps operand1_def)
  show ?thesis
    unfolding core_exec_plain [OF k p(1) assms(3)] plain_branch(1,2) [OF k p(2,7)]
    using branch_taken [of c a b]
    by (simp add: p alu_sub assms(1) a_def b_def signext_B [symmetric] add.commute)
qed

lemma step_jal:
  assumes "field 6 0 i = 0x6f" "fetches e s i"
  shows "core_exec e n (R, s) = (put_reg (field 11 7 i) (PC s + 4) R, s\<lparr>PC := PC s + imm_J i\<rparr>)"
proof -
  define t where "t = signals 0 0 0 0 0b001 0 0 0 0b111 0b01"
  have k: "controller False i = (t, 0b0110)"
    using assms(1) by (simp add: decoder_simps aludec_def t_def)
  have p: "plain t" "\<not> wArith t" "\<not> ALUSrc t" "RegWrite t" "Branch t = 7" "field 6 0 i = 0b1100111 \<longrightarrow> \<not> bit (regSel t) 0"
    by (simp_all add: t_def decoder_simps)
  show ?thesis
    unfolding core_exec_plain [OF k p(1) assms(2)] plain_branch(1,2) [OF k p(2,6)] plain_branch(3) [OF k p(2,6,5)]
    using signext_J [OF assms(1)] by (simp add: p branching_def assms(1) add.commute)
qed

lemma drop_lowest: "(vec (bits 63 1 a @ [False]) :: u64) = a AND NOT 1"
proof (rule bit_word_eqI)
  fix n
  assume "n < LENGTH(64)"
  then show "bit (vec (bits 63 1 a @ [False]) :: u64) n \<longleftrightarrow> bit (a AND NOT 1) n"
    by (cases n) (auto simp: bit_vec nth_append nth_bits bit_and_iff bit_not_iff bit_1_iff)
qed

lemma step_jalr:
  assumes "field 6 0 i = 0x67" "fetches e s i"
  shows "core_exec e n (R, s) = (put_reg (field 11 7 i) (PC s + 4) R, s\<lparr>PC := (R ! field 19 15 i + imm_I i) AND NOT 1\<rparr>)"
proof -
  define t where "t = signals 0 0 0 0 0b101 0 0 0 0b111 0b01"
  have k: "controller False i = (t, 0b0110)"
    using assms(1) by (simp add: decoder_simps aludec_def t_def)
  have p: "plain t" "\<not> wArith t" "ALUSrc t" "RegWrite t" "Branch t = 7" "field 6 0 i = 0b1100111 \<longrightarrow> \<not> bit (regSel t) 0"
    by (simp_all add: t_def decoder_simps)
  show ?thesis
    unfolding core_exec_plain [OF k p(1) assms(2)] plain_branch(1,2) [OF k p(2,6)] plain_branch(3) [OF k p(2,6,5)]
    using signext_I [of i] assms(1) by (simp add: p branching_def drop_lowest [simplified])
qed

lemma step_fence:
  assumes "field 6 0 i = 0x0f" "fetches e s i"
  shows "core_exec e n (R, s) = (R, s\<lparr>PC := PC s + 4\<rparr>)"
proof -
  define t where "t = signals 0 0 0 0 0 0 0 0 0 0"
  have k: "controller False i = (t, 0b0010)"
    using assms(1) by (simp add: decoder_simps aludec_def t_def)
  have p: "plain t" "Branch t = 0" "field 6 0 i \<noteq> 0b1100111" "\<not> RegWrite t"
    using assms(1) by (simp_all add: t_def decoder_simps)
  show ?thesis unfolding core_exec_plain [OF k p(1) assms(2)] by (simp add: p(4) plain_write(2) [OF k p(1-3)])
qed

section \<open>Every instruction that computes\<close>

fun exact :: "rv_instr \<Rightarrow> u64 list \<Rightarrow> bool" where
  "exact (Reg_reg w op d rs1 rs2) R \<longleftrightarrow> exact_op w op (R ! rs1)"
| "exact (Reg_imm w op d rs1 imm) R \<longleftrightarrow> exact_op w op (R ! rs1)"
| "exact (Branch_if c rs1 rs2 imm) R \<longleftrightarrow> exact_branch c (R ! rs1) (R ! rs2)"
| "exact _ R \<longleftrightarrow> True"

definition computing :: "nat set" where
  "computing = {0x33, 0x3b, 0x13, 0x1b, 0x37, 0x17, 0x6f, 0x67, 0x63, 0x0f}"

lemma computing_opcode:
  assumes "isa_decode i = Some I" "isa_compute I pc R = Some (pc', R')"
  shows "field 6 0 i \<in> computing"
proof (rule ccontr)
  assume "field 6 0 i \<notin> computing"
  then have "isa_compute I pc R = None"
    using assms(1) unfolding isa_decode_def Let_def computing_def by (auto split: if_splits)
  then show False using assms(2) by simp
qed

lemma op_word_some:
  "(case x of Some op \<Rightarrow> if P op then Some (f op) else None | None \<Rightarrow> None) = Some I
    \<longleftrightarrow> (\<exists>op. x = Some op \<and> P op \<and> I = f op)"
  by (auto split: option.splits if_splits)

lemma computing_step:
  assumes "isa_decode (imem e (field 11 2 (PC s))) = Some I" "isa_compute I (PC s) R = Some (pc', R')"
    "exact I R" "R ! 0 = 0" "idle_ram e"
  shows "core_exec e n (R, s) = (R', s\<lparr>PC := pc'\<rparr>)"
proof -
  define i where "i = imem e (field 11 2 (PC s))"
  note i = assms(1) [folded i_def]
  have im: "fetches e s i" using assms(5) by (simp add: fetches_def i_def)
  note dec = i [unfolded isa_decode_def Let_def]
  have "field 6 0 i \<in> computing" by (rule computing_opcode [OF i assms(2)])
  then show ?thesis unfolding computing_def
  proof (elim insertE emptyE)
    assume f: "field 6 0 i = 0x33"
    then obtain op where op: "op_of (field 31 25 i) (field 14 12 i) = Some op" "I = Reg_reg False op (field 11 7 i) (field 19 15 i) (field 24 20 i)"
      using dec by auto
    show ?thesis using assms(2,3) step_reg_reg [of i False op R e s n, OF _ op(1) _ _ im] f by (simp add: op(2))
  next
    assume f: "field 6 0 i = 0x3b"
    then obtain op where op: "op_of (field 31 25 i) (field 14 12 i) = Some op" "has_word_form op"
        "I = Reg_reg True op (field 11 7 i) (field 19 15 i) (field 24 20 i)"
      using dec by (auto simp: op_word_some)
    show ?thesis using assms(2,3) step_reg_reg [of i True op R e s n, OF _ op(1,2) _ im] f by (simp add: op(3))
  next
    assume f: "field 6 0 i = 0x13"
    then obtain op where op: "imm_op_of False i = Some op" "I = Reg_imm False op (field 11 7 i) (field 19 15 i) (imm_I i)"
      using dec by auto
    show ?thesis using assms(2,3) step_reg_imm [of i False op R e s n, OF _ op(1) _ _ im] f by (simp add: op(2))
  next
    assume f: "field 6 0 i = 0x1b"
    then obtain op where op: "imm_op_of True i = Some op" "has_word_form op"
        "I = Reg_imm True op (field 11 7 i) (field 19 15 i) (imm_I i)"
      using dec by (auto simp: op_word_some)
    show ?thesis using assms(2,3) step_reg_imm [of i True op R e s n, OF _ op(1,2) _ im] f by (simp add: op(3))
  next
    assume f: "field 6 0 i = 0x37"
    then show ?thesis using dec assms(2) step_upper [of i False e s R n, OF _ im assms(4)] by auto
  next
    assume f: "field 6 0 i = 0x17"
    then show ?thesis using dec assms(2) step_upper [of i True e s R n, OF _ im assms(4)] by auto
  next
    assume f: "field 6 0 i = 0x6f"
    then show ?thesis using dec assms(2) step_jal [OF f im] by (auto simp: jump_def split: if_splits)
  next
    assume f: "field 6 0 i = 0x67"
    then show ?thesis using dec assms(2) step_jalr [OF f im] by (auto simp: jump_def split: if_splits)
  next
    assume f: "field 6 0 i = 0x63"
    then obtain c where c: "cond_of (field 14 12 i) = Some c" "I = Branch_if c (field 19 15 i) (field 24 20 i) (imm_B i)"
      using dec by auto
    then show ?thesis using assms(2,3) step_branch [OF f c(1) im] by (auto simp: jump_def split: if_splits)
  next
    assume f: "field 6 0 i = 0x0f"
    then show ?thesis using dec assms(2) step_fence [OF f im] by (auto split: if_splits)
  qed
qed

section \<open>Properties\<close>

text \<open>
  C2: the core implements the instruction set: with every arithmetic, logical, shift, upper
  immediate, jump, branch and fence instruction of RV64I, one clock edge takes registers and
  program counter where the instruction takes them and leaves status registers and memory
  alone (a memory that keeps still while it is not accessed), whenever the target is aligned and the operands are none of those the core computes
  wrongly (an arithmetic right shift of a negative 32-bit word, a signed comparison for a
  branch whose difference overflows).
\<close>

theorem core_implements_isa:
  assumes "isa_decode (imem e (field 11 2 (PC s))) = Some I" "isa_compute I (PC s) R = Some (pc', R')"
    "exact I R" "R ! 0 = 0" "idle_ram e"
  shows "core_exec e n (R, s) = (R', s\<lparr>PC := pc'\<rparr>)"
  by (rule computing_step [OF assms])

text \<open>
  C16: what every branch does.  It is taken exactly when its condition holds, but for the two
  signed comparisons with operands whose difference is not a signed 64-bit number, where the
  core takes the wrong way every time.
\<close>

theorem core_branches:
  assumes "isa_decode (imem e (field 11 2 (PC s))) = Some (Branch_if c rs1 rs2 imm)" "idle_ram e"
  shows "core_exec e n (R, s) = (R, s\<lparr>PC := if holds c (R ! rs1) (R ! rs2) \<longleftrightarrow> exact_branch c (R ! rs1) (R ! rs2)
    then PC s + imm else PC s + 4\<rparr>)"
proof -
  let ?i = "imem e (field 11 2 (PC s))"
  have f: "field 6 0 ?i = 0x63"
    using assms(1) unfolding isa_decode_def Let_def by (simp add: op_word_some split: if_split_asm option.split_asm)
  then have c: "cond_of (field 14 12 ?i) = Some c" "rs1 = field 19 15 ?i" "rs2 = field 24 20 ?i" "imm = imm_B ?i"
    using assms(1) by (auto simp: isa_decode_def Let_def)
  have "fetches e s ?i" using assms(2) by (simp add: fetches_def)
  from step_branch [OF f c(1) this] c(2-4) show ?thesis by simp
qed

text \<open>A memory that never changes under a program of one instruction.\<close>

definition one_instruction :: "u32 \<Rightarrow> unit rv_env" where
  "one_instruction i = \<lparr>imem = (\<lambda>_. i), ram_edge = (\<lambda>_ _ _ _ _ m. m), ram_q = (\<lambda>_. 0), undriven = 0\<rparr>"

lemma idle_one_instruction: "idle_ram (one_instruction i)"
  by (simp add: idle_ram_def one_instruction_def)

definition at_start :: "unit rv_core" where
  "at_start = \<lparr>PC = 0, privMode = 3, mstatus = 0, mcause = 0, mtvec = 0, mepc = 0, dmem = ()\<rparr>"

lemma decode_add: "isa_decode 0x00b50533 = Some (Reg_reg False Add 10 10 11)"
  by (simp add: isa_decode_def op_of_def field_def Let_def)

lemma decode_blt: "isa_decode 0x00b54463 = Some (Branch_if Lt 10 11 8)"
proof -
  have "imm_B 0x00b54463 = 8" by (simp add: imm_B_def vec_def bits_def upt_rec)
  then show ?thesis by (simp add: isa_decode_def cond_of_def field_def Let_def)
qed

theorem core_implements_isa_witness:
  "core_exec (one_instruction 0x00b50533) 0 ((replicate 32 0)[10 := 7, 11 := 5], at_start)
    = ((replicate 32 0)[10 := 12, 11 := 5], at_start\<lparr>PC := 4\<rparr>)"
  by (rule core_implements_isa [where I = "Reg_reg False Add 10 10 11"])
    (simp_all add: idle_one_instruction, simp_all add: one_instruction_def at_start_def decode_add put_reg_def rv_value_def exact_op_def
      list_update_swap [of 11 10])

theorem core_branches_witness:
  "core_exec (one_instruction 0x00b54463) 0 ((replicate 32 0)[10 := 0x8000000000000000, 11 := 1], at_start)
    = ((replicate 32 0)[10 := 0x8000000000000000, 11 := 1], at_start\<lparr>PC := 4\<rparr>)"
proof -
  have "exact_branch Lt 0x8000000000000000 1 \<longleftrightarrow> False" "holds Lt 0x8000000000000000 1 \<longleftrightarrow> True"
    by (simp_all add: exact_branch_def)
  then show ?thesis
    using core_branches [of "one_instruction 0x00b54463" at_start Lt 10 11 8 0 "(replicate 32 0)[10 := 0x8000000000000000, 11 := 1]"]
    using idle_one_instruction by (simp add: one_instruction_def at_start_def decode_blt)
qed

end
