(* ===== verification/CoreMem.thy ===== *)
theory CoreMem
  imports CoreIsa
begin

text \<open>
  Loads and stores of the core.  The data memory is a block of the device with a registered
  port: \<open>sync_ram\<close> is what its documentation says of a clock edge, where \<open>word a m\<close> is the
  doubleword at \<open>a\<close>.  What a read finds is at the output only after the edge, so a load gets
  the previous access's doubleword; the script that patches the compiled programs
  (\<open>software/parse_helpers.py\<close>) therefore doubles every load.
\<close>

section \<open>The memory\<close>

definition byte_lanes :: "u8 \<Rightarrow> u64" where
  "byte_lanes be = horner_sum of_bool 2 (map (\<lambda>j. bit be (j div 8)) [0..<64])"

definition sync_ram :: "'m rv_env \<Rightarrow> (nat \<Rightarrow> 'm \<Rightarrow> u64) \<Rightarrow> bool" where
  "sync_ram e word \<longleftrightarrow>
     (\<forall>a d be m. ram_q e (ram_edge e False True a d be m) = word a m) \<and>
     (\<forall>a d be m a'. word a' (ram_edge e False True a d be m) = word a' m) \<and>
     (\<forall>a d be m a'. word a' (ram_edge e True False a d be m)
        = (if a' = a then (d AND byte_lanes be) OR (word a m AND NOT (byte_lanes be)) else word a' m))"

text \<open>A byte of the memory, and the little-endian number in \<open>k\<close> bytes.\<close>

definition byte_at :: "(nat \<Rightarrow> 'm \<Rightarrow> u64) \<Rightarrow> 'm \<Rightarrow> u64 \<Rightarrow> u8" where
  "byte_at word m a = ucast (drop_bit (8 * field 2 0 a) (word (field 14 3 a) m))"

definition load_value :: "(nat \<Rightarrow> 'm \<Rightarrow> u64) \<Rightarrow> 'm \<Rightarrow> nat \<Rightarrow> bool \<Rightarrow> u64 \<Rightarrow> u64" where
  "load_value word m k sg a =
     (let v = horner_sum of_bool 2 (map (\<lambda>j. bit (byte_at word m (a + of_nat (j div 8))) (j mod 8)) [0..<8 * k])
      in if sg then signed_take_bit (8 * k - 1) v else v)"

text \<open>Addresses within one doubleword.\<close>

lemma field_div: "field hi lo (a :: u64) = unat a div 2 ^ lo mod 2 ^ (hi + 1 - lo)"
  unfolding field_def unsigned_take_bit_eq unat_drop_bit_eq by (simp only: take_bit_eq_mod drop_bit_eq_div) 

lemma no_carry:
  fixes x :: nat
  assumes "x mod 8 + j < 8" "x < 2 ^ 64"
  shows "x + j < 2 ^ 64" "(x + j) mod 8 = x mod 8 + j" "(x + j) div 8 = x div 8"
proof -
  define q r where "q = x div 8" and "r = x mod 8"
  have x: "x = 8 * q + r" by (simp add: q_def r_def)
  note r = assms(1) [folded r_def]
  have "q < 2 ^ 61" using assms(2) unfolding x by simp
  then show "x + j < 2 ^ 64" using r unfolding x by simp
  show "(x + j) mod 8 = x mod 8 + j" using assms(1) unfolding r_def [symmetric] unfolding x by (simp add: add.assoc)
  show "(x + j) div 8 = x div 8" using assms(1) unfolding r_def [symmetric] q_def[symmetric] unfolding x by (simp add: add.assoc)
qed

lemma field_add:
  fixes a :: u64
  assumes "field 2 0 a + j < 8"
  shows "field 2 0 (a + of_nat j) = field 2 0 a + j" "field 14 3 (a + of_nat j) = field 14 3 a"
proof -
  have m: "unat a mod 8 + j < 8" using assms by (simp add: field_low)
  have "unat (of_nat j :: u64) = j" using m by (simp add: unat_of_nat)
  then have u: "unat (a + of_nat j) = unat a + j" 
    using no_carry(1) [OF m unat_u64_lt] by (subst unat_plus_if_small) simp_all
  show "field 2 0 (a + of_nat j) = field 2 0 a + j"
    using no_carry(2) [OF m unat_u64_lt] by (simp add: field_low u)
  show "field 14 3 (a + of_nat j) = field 14 3 a"
    using no_carry(3) [OF m unat_u64_lt] by (simp add: field_div u)
qed

section \<open>Accesses\<close>

text \<open>The decoder's code of an access to \<open>k\<close> bytes.\<close>

definition width_code :: "nat \<Rightarrow> nat" where
  "width_code k = k - 1"

definition access_size :: "nat \<Rightarrow> bool" where
  "access_size k \<longleftrightarrow> k = 1 \<or> k = 2 \<or> k = 4 \<or> k = 8"

lemma width_mask_bit:
  assumes "access_size k"
  shows "bit (vec (width_mask (width_code k)) :: u8) j \<longleftrightarrow> j < k"
proof -
  have k: "k \<le> 8" using assms by (auto simp: access_size_def)
  have all: "\<forall>j < 8. bit (vec (width_mask (width_code k)) :: u8) j \<longleftrightarrow> j < k"
    using assms unfolding access_size_def
    by (elim disjE) (auto simp: width_mask_def width_code_def bit_vec nth_append nth_Cons' bit_Suc_0_iff)
  show ?thesis
  proof (cases "j < 8")
    case True
    then show ?thesis using all by simp
  next
    case False
    then show ?thesis using k bit_imp_le_length [of "vec (width_mask (width_code k)) :: u8" j] by auto
  qed
qed

text \<open>A trap is signalled when, and only when, the access leaves its doubleword.\<close>

lemma except_access:
  assumes "access_size k"
  shows "exceptSignal except_F 0 (except_E a wren rden (width_code k)) = 0
    \<longleftrightarrow> field 2 0 a + k \<le> 8 \<or> \<not> wren \<and> \<not> rden"
proof -
  let ?d = "bit (push_bit (field 2 0 a) (ucast (vec (width_mask (width_code k)) :: u8)) :: 9 word) 8"
  have "field 2 0 a < 8" using field_less [of 0 2 a] by simp
  then have d: "?d \<longleftrightarrow> 8 < field 2 0 a + k"
    by (auto simp: bit_push_bit_iff bit_ucast_iff width_mask_bit [OF assms])
  have e: "bit (except_E a wren rden (width_code k)) j \<longleftrightarrow> j = 2 \<and> ?d \<and> wren \<or> j = 0 \<and> ?d \<and> rden" for j
    by (auto simp: except_E_def Let_def bit_vec nth_Cons')
  have "bit (exceptSignal except_F 0 (except_E a wren rden (width_code k))) j
      \<longleftrightarrow> j = 6 \<and> ?d \<and> wren \<or> j = 4 \<and> ?d \<and> rden" for j
    by (auto simp: exceptSignal_def except_F_def bit_vec nth_append nth_Cons' nth_bits e)
  moreover have "x = 0 \<longleftrightarrow> (\<forall>j. \<not> bit x j)" for x :: "16 word" using bit_word_eqI [of x 0] by auto
  ultimately show ?thesis unfolding d by auto
qed

text \<open>What the masks give is the number in the bytes.\<close>

lemma bit_byte_at: "bit (byte_at word m x) j \<longleftrightarrow> j < 8 \<and> bit (word (field 14 3 x) m) (8 * field 2 0 x + j)"
  by (auto simp: byte_at_def bit_simps)

lemma byte_in_doubleword:
  assumes "field 2 0 a + k \<le> 8" "n < 8 * k"
  shows "bit (byte_at word m (a + of_nat (n div 8))) (n mod 8) \<longleftrightarrow> bit (word (field 14 3 a) m) (8 * field 2 0 a + n)"
proof -
  have "n div 8 < k" using assms(2) by auto
  then have "field 2 0 a + n div 8 < 8" using assms(1) by simp
  from field_add [OF this] show ?thesis by (simp add: bit_byte_at algebra_simps)
qed

lemma bit_load_value:
  assumes "access_size k" "field 2 0 a + k \<le> 8"
  shows "bit (load_value word m k sg a) n \<longleftrightarrow> n < 64 \<and>
    (if n < 8 * k then bit (word (field 14 3 a) m) (8 * field 2 0 a + n)
     else sg \<and> bit (word (field 14 3 a) m) (8 * field 2 0 a + (8 * k - 1)))"
proof -
  have k: "0 < k" "k \<le> 8" using assms(1) by (auto simp: access_size_def)
  define v where "v = (horner_sum of_bool 2 (map (\<lambda>j. bit (byte_at word m (a + of_nat (j div 8))) (j mod 8)) [0..<8 * k]) :: u64)"
  have v: "bit v n \<longleftrightarrow> n < 8 * k \<and> bit (word (field 14 3 a) m) (8 * field 2 0 a + n)" for n
    using byte_in_doubleword [OF assms(2), where word = word and m = m and n = n] k(2) unfolding v_def bit_horner_sum_bit_word_iff by auto
  have m: "min n (8 * k - 1) = (if n < 8 * k then n else 8 * k - 1)" using k(1) by (auto simp: min_def)
  show ?thesis
    unfolding load_value_def v_def [symmetric] Let_def
    using k by (auto simp: bit_signed_take_bit_iff v m [unfolded One_nat_def] possible_bit_def)
qed

lemma read_mask:
  assumes "access_size k" "field 2 0 a + k \<le> 8"
  shows "memReadMask (word (field 14 3 a) m) sg (width_code k) (field 2 0 a) = load_value word m k sg a"
proof (rule bit_word_eqI)
  fix n
  assume n: "n < LENGTH(64)"
  show "bit (memReadMask (word (field 14 3 a) m) sg (width_code k) (field 2 0 a)) n \<longleftrightarrow> bit (load_value word m k sg a) n"
    using assms(1) n unfolding bit_load_value [OF assms] access_size_def
    by (elim disjE) (auto simp: memReadMask_def Let_def width_code_def bit_vec nth_append nth_bits bit_simps
        bit_Suc_0_iff mult.commute)
qed

section \<open>Loads and stores\<close>

definition access :: "controls \<Rightarrow> bool" where
  "access c \<longleftrightarrow> exceptSignal_D c = 0 \<and> \<not> trapReturn c \<and> \<not> csrWriteEnable c \<and> \<not> aluSelect c \<and> \<not> wArith c
     \<and> Branch c = 0 \<and> regSel c = 0 \<and> ALUSrc c"

lemma access_wires:
  fixes R :: "u64 list" and s :: "'m rv_core" and e :: "'m rv_env" and n :: u64
  assumes "controller False i = (c, alu_code Add)" "access c" "field 6 0 i \<noteq> 0b1100111"
  defines "a \<equiv> R ! field 19 15 i + signext i" and "w \<equiv> decode_execute e n i R s"
  shows "aluResult_E (w_execute w) = a" "w_readData2 w = R ! field 24 20 i" "\<not> w_PCSrc w" "w_controls w = c"
    "w_writeData3 w = (if MemtoReg c
      then memReadMask (ram_q e (dmem s)) (bit (MemRead c) 1) (memWidth c) (field 2 0 a) else a)"
    "w_except w = exceptSignal except_F 0 (except_E a (MemWrite c) (bit (MemRead c) 0) (memWidth c))"
proof -
  note c = assms(2) [unfolded access_def]
  have x: "execute c (alu_code Add) (PC s) (signext i) (R ! field 19 15 i) b v
      = (execute c (alu_code Add) (PC s) (signext i) (R ! field 19 15 i) b v)\<lparr>aluResult_E := a\<rparr>" for b v
    using alu_value [of "R ! field 19 15 i" "signext i" Add]
    by (simp add: execute_def Let_def split_beta c a_def)
  have a: "aluResult_E (execute c (alu_code Add) (PC s) (signext i) (R ! field 19 15 i) b v) = a" for b v
    by (subst x) simp
  note unf = w_def decode_execute_def assms(1) prod.case Let_def wires.select_convs
  have r: "(if bit (regSel c) 0 then 0 else field 19 15 i) = field 19 15 i" by (simp add: c)
  show "aluResult_E (w_execute w) = a" "w_readData2 w = R ! field 24 20 i" "w_controls w = c" "\<not> w_PCSrc w"
    "w_writeData3 w = (if MemtoReg c
      then memReadMask (ram_q e (dmem s)) (bit (MemRead c) 1) (memWidth c) (field 2 0 a) else a)"
    "w_except w = exceptSignal except_F 0 (except_E a (MemWrite c) (bit (MemRead c) 0) (memWidth c))"
    unfolding unf r if_not_P [OF assms(3)] a by (simp_all add: c branching_def)
qed

lemma core_exec_access:
  fixes R :: "u64 list" and s :: "'m rv_core"
  assumes "controller False i = (c, alu_code Add)" "access c" "field 6 0 i \<noteq> 0b1100111" "imem e (field 11 2 (PC s)) = i"
  defines "a \<equiv> R ! field 19 15 i + signext i"
  assumes "access_size k" "memWidth c = width_code k" "field 2 0 a + k \<le> 8"
  shows "core_exec e n (R, s) =
    (if RegWrite c then put_reg (field 11 7 i) (if MemtoReg c
       then memReadMask (ram_q e (dmem s)) (bit (MemRead c) 1) (memWidth c) (field 2 0 a) else a) R else R,
     s\<lparr>PC := PC s + 4,
       dmem := dmem_edge e (MemWrite c) (bit (MemRead c) 0) a (R ! field 24 20 i) (memWidth c) (dmem s)\<rparr>)"
proof -
  note w = access_wires [OF assms(1-3), where R = R and e = e and n = n and s = s, folded a_def]
  have x: "w_except (decode_execute e n i R s) = 0"
    using except_access [OF assms(6)] assms(8) by (simp add: w(6) assms(7))
  note c = assms(2) [unfolded access_def]
  show ?thesis
    unfolding core_exec_def prod.case Let_def assms(4) w(1,2,4,5) x
    by (simp add: c put_reg_def no_status_change no_exception fetch_next_def w(3))
qed

lemma decode_size: "access_size (2 ^ (field 14 12 i mod 4))"
proof -
  have "field 14 12 i mod 4 < 4" by simp
  then have "field 14 12 i mod 4 \<in> {0, 1, 2, 3}" by auto
  then show ?thesis by (auto simp: access_size_def)
qed

text \<open>A load writes what the memory's output shows before the edge, and has the doubleword it wants read.\<close>

lemma step_load:
  fixes R :: "u64 list" and s :: "'m rv_core"
  assumes "field 6 0 i = 0x03" "field 14 12 i \<noteq> 7" "imem e (field 11 2 (PC s)) = i"
  defines "a \<equiv> R ! field 19 15 i + imm_I i" and "k \<equiv> 2 ^ (field 14 12 i mod 4)"
  assumes "field 2 0 a + k \<le> 8"
  shows "core_exec e n (R, s) =
    (put_reg (field 11 7 i) (memReadMask (ram_q e (dmem s)) (field 14 12 i < 4) (width_code k) (field 2 0 a)) R,
     s\<lparr>PC := PC s + 4, dmem := dmem_edge e False True a (R ! field 24 20 i) (width_code k) (dmem s)\<rparr>)"
proof -
  define c where "c = signals 0 0 0 0 0b111 (if field 14 12 i < 4 then 0b11 else 0b01) 0 (width_code k) 0 0"
  have k: "controller False i = (c, alu_code Add)"
    using assms(1,2) funct3_cases [of i]
    by (elim insertE emptyE) (simp_all add: decoder_simps aludec_def c_def k_def width_code_def)
  have c: "access c" "field 6 0 i \<noteq> 0b1100111" using assms(1) by (simp_all add: c_def decoder_simps access_def)
  have v: "RegWrite c" "MemtoReg c" "\<not> MemWrite c" "bit (MemRead c) 0" "bit (MemRead c) 1 \<longleftrightarrow> field 14 12 i < 4"
    "memWidth c = width_code k"
    by (simp_all add: c_def decoder_simps)
  have imm: "signext i = imm_I i" by (rule signext_I) (simp add: assms(1))
  show ?thesis
    using core_exec_access [OF k c assms(3), where R = R and k = k and n = n] assms(6) v decode_size [of i] by (simp add: imm a_def k_def)
qed

lemma step_store:
  fixes R :: "u64 list" and s :: "'m rv_core"
  assumes "field 6 0 i = 0x23" "field 14 12 i < 4" "imem e (field 11 2 (PC s)) = i"
  defines "a \<equiv> R ! field 19 15 i + imm_S i" and "k \<equiv> 2 ^ field 14 12 i"
  assumes "field 2 0 a + k \<le> 8"
  shows "core_exec e n (R, s) =
    (R, s\<lparr>PC := PC s + 4, dmem := dmem_edge e True False a (R ! field 24 20 i) (width_code k) (dmem s)\<rparr>)"
proof -
  define c where "c = signals 0 0 0 0 0b100 0 1 (width_code k) 0 0"
  have k: "controller False i = (c, alu_code Add)"
    using assms(1,2) funct3_cases [of i]
    by (elim insertE emptyE) (simp_all add: decoder_simps aludec_def c_def k_def width_code_def)
  have c: "access c" "field 6 0 i \<noteq> 0b1100111" using assms(1) by (simp_all add: c_def decoder_simps access_def)
  have v: "\<not> RegWrite c" "MemWrite c" "\<not> bit (MemRead c) 0" "memWidth c = width_code k"
    by (simp_all add: c_def decoder_simps)
  have imm: "signext i = imm_S i" by (rule signext_S) (rule assms(1))
  have "access_size k" using decode_size [of i] assms(2) by (simp add: k_def)
  then show ?thesis
    using core_exec_access [OF k c assms(3), where R = R and k = k and n = n] assms(6) v by (simp add: imm a_def)
qed

text \<open>The same, from the decoded instruction.\<close>

lemma decoded_load:
  assumes "isa_decode i = Some (Load k sg d rs1 imm)"
  shows "field 6 0 i = 0x03" "field 14 12 i \<noteq> 7" "k = 2 ^ (field 14 12 i mod 4)" "sg \<longleftrightarrow> field 14 12 i < 4"
    "d = field 11 7 i" "rs1 = field 19 15 i" "imm = imm_I i" "access_size k"
proof -
  show f: "field 6 0 i = 0x03" "field 14 12 i \<noteq> 7"
    using assms unfolding isa_decode_def Let_def
    by (simp_all add: op_word_some split: if_split_asm option.split_asm)
  show "k = 2 ^ (field 14 12 i mod 4)" "sg \<longleftrightarrow> field 14 12 i < 4" "d = field 11 7 i" "rs1 = field 19 15 i" "imm = imm_I i"
    using assms f by (simp_all add: isa_decode_def Let_def)
  then show "access_size k" by (simp add: decode_size)
qed

lemma decoded_store:
  assumes "isa_decode i = Some (Store k rs1 rs2 imm)"
  shows "field 6 0 i = 0x23" "field 14 12 i < 4" "k = 2 ^ field 14 12 i" "rs1 = field 19 15 i" "rs2 = field 24 20 i"
    "imm = imm_S i" "access_size k"
proof -
  show f: "field 6 0 i = 0x23" "field 14 12 i < 4"
    using assms unfolding isa_decode_def Let_def
    by (simp_all add: op_word_some split: if_split_asm option.split_asm)
  show "k = 2 ^ field 14 12 i" "rs1 = field 19 15 i" "rs2 = field 24 20 i" "imm = imm_S i"
    using assms f by (simp_all add: isa_decode_def Let_def)
  then show "access_size k" using decode_size [of i] f(2) by simp
qed

lemma load_step:
  fixes R :: "u64 list" and s :: "'m rv_core"
  assumes "isa_decode (imem e (field 11 2 (PC s))) = Some (Load k sg d rs1 imm)" "field 2 0 (R ! rs1 + imm) + k \<le> 8"
  shows "core_exec e n (R, s) =
    (put_reg d (memReadMask (ram_q e (dmem s)) sg (width_code k) (field 2 0 (R ! rs1 + imm))) R,
     s\<lparr>PC := PC s + 4, dmem := dmem_edge e False True (R ! rs1 + imm)
       (R ! field 24 20 (imem e (field 11 2 (PC s)))) (width_code k) (dmem s)\<rparr>)"
  using step_load [OF decoded_load(1,2) [OF assms(1)] refl, of R n] assms(2) decoded_load(3-7) [OF assms(1)] by simp

lemma store_step:
  fixes R :: "u64 list" and s :: "'m rv_core"
  assumes "isa_decode (imem e (field 11 2 (PC s))) = Some (Store k rs1 rs2 imm)" "field 2 0 (R ! rs1 + imm) + k \<le> 8"
  shows "core_exec e n (R, s) = (R, s\<lparr>PC := PC s + 4,
    dmem := dmem_edge e True False (R ! rs1 + imm) (R ! rs2) (width_code k) (dmem s)\<rparr>)"
  using step_store [OF decoded_store(1,2) [OF assms(1)] refl, of R n] assms(2) decoded_store(3-6) [OF assms(1)] by simp

text \<open>The doubleword a store leaves.\<close>

lemma bit_byte_lanes: "bit (byte_lanes be) n \<longleftrightarrow> n < 64 \<and> bit be (n div 8)"
  unfolding byte_lanes_def bit_horner_sum_bit_word_iff by auto

lemma stored_doubleword:
  fixes e :: "'m rv_env" and m :: 'm and v :: u64
  assumes "sync_ram e word" "access_size k" "field 2 0 a + k \<le> 8"
  defines "m' \<equiv> dmem_edge e True False a v (width_code k) m"
  shows "bit (word (field 14 3 a) m') n \<longleftrightarrow> n < 64 \<and>
      (if 8 * field 2 0 a \<le> n \<and> n < 8 * (field 2 0 a + k) then bit v (n - 8 * field 2 0 a)
       else bit (word (field 14 3 a) m) n)"
    and "b \<noteq> field 14 3 a \<Longrightarrow> word b m' = word b m"
proof -
  let ?o = "field 2 0 a"
  define be :: u8 where "be = push_bit ?o (vec (width_mask (width_code k)))"
  have be: "bit be j \<longleftrightarrow> ?o \<le> j \<and> j < ?o + k" for j
    using assms(3) by (auto simp: be_def bit_push_bit_iff width_mask_bit [OF assms(2)])
  have m': "m' = ram_edge e True False (field 14 3 a) (push_bit (?o * 8) v) be m"
    by (simp add: m'_def dmem_edge_def memWriteMask_def be_def)
  have div: "?o \<le> n div 8 \<and> n div 8 < ?o + k \<longleftrightarrow> 8 * ?o \<le> n \<and> n < 8 * (?o + k)"
    by (simp add: less_eq_div_iff_mult_less_eq div_less_iff_less_mult mult.commute)
  note ram = assms(1) [unfolded sync_ram_def, THEN conjunct2, THEN conjunct2, rule_format]
  show "bit (word (field 14 3 a) m') n \<longleftrightarrow> n < 64 \<and>
      (if 8 * ?o \<le> n \<and> n < 8 * (?o + k) then bit v (n - 8 * ?o) else bit (word (field 14 3 a) m) n)"
    unfolding m' ram by (auto simp: bit_or_iff bit_and_iff bit_not_iff bit_byte_lanes be div bit_push_bit_iff mult.commute
        dest: bit_imp_le_length)
  show "b \<noteq> field 14 3 a \<Longrightarrow> word b m' = word b m" unfolding m' by (simp add: ram)
qed

text \<open>What a load finds where a store of the same size was.\<close>

lemma load_after_store:
  assumes "sync_ram e word" "access_size k" "field 2 0 a + k \<le> 8"
  shows "load_value word (dmem_edge e True False a v (width_code k) m) k sg a
    = (if sg then signed_take_bit (8 * k - 1) v else take_bit (8 * k) v)"
proof (rule bit_word_eqI)
  have k: "0 < k" "k \<le> 8" using assms(2) by (auto simp: access_size_def)
  fix n
  assume n: "n < LENGTH(64)"
  let ?w = "word (field 14 3 a) (dmem_edge e True False a v (width_code k) m)"
  have w: "bit ?w (8 * field 2 0 a + j) \<longleftrightarrow> bit v j" if "j < 8 * k" for j
    using that assms(3) by (simp add: stored_doubleword(1) [OF assms])
  show "bit (load_value word (dmem_edge e True False a v (width_code k) m) k sg a) n
      \<longleftrightarrow> bit (if sg then signed_take_bit (8 * k - 1) v else take_bit (8 * k) v) n"
  proof (cases "n < 8 * k")
    case True
    then have "min n (8 * k - 1) = n" by simp
    then show ?thesis using True n
      by (simp add: bit_load_value [OF assms(2,3)] w bit_signed_take_bit_iff bit_take_bit_iff possible_bit_def)
  next
    case False
    then have "min n (8 * k - 1) = 8 * k - 1" by simp
    then show ?thesis using False n k w [of "8 * k - 1"]
      by (simp add: bit_load_value [OF assms(2,3)] bit_signed_take_bit_iff bit_take_bit_iff possible_bit_def)
  qed
qed

text \<open>
  The doubled load.  The first one has the memory read the doubleword, the second one writes the
  bytes to the register; the memory is unchanged.
\<close>

lemma load_pair:
  fixes R :: "u64 list" and s :: "'m rv_core"
  assumes "sync_ram e word" "isa_decode i = Some (Load k sg d rs1 imm)" "d \<noteq> rs1 \<or> d = 0"
    "imem e (field 11 2 (PC s)) = i" "imem e (field 11 2 (PC s + 4)) = i" "field 2 0 (R ! rs1 + imm) + k \<le> 8"
  shows "\<exists>m. core_exec e n' (core_exec e n (R, s))
      = (put_reg d (load_value word (dmem s) k sg (R ! rs1 + imm)) R, s\<lparr>PC := PC s + 8, dmem := m\<rparr>)
    \<and> (\<forall>b. word b m = word b (dmem s))"
proof -
  define a where "a = R ! rs1 + imm"
  note size = decoded_load(8) [OF assms(2)]
  have edge: "ram_q e (dmem_edge e False True a v w m) = word (field 14 3 a) m"
    "word b (dmem_edge e False True a v w m) = word b m" for b v w m
    using assms(1) unfolding sync_ram_def dmem_edge_def split_beta Let_def by simp_all
  let ?R = "put_reg d (memReadMask (ram_q e (dmem s)) sg (width_code k) (field 2 0 a)) R"
  let ?s = "s\<lparr>PC := PC s + 4, dmem := dmem_edge e False True a (R ! field 24 20 i) (width_code k) (dmem s)\<rparr>"
  have one: "core_exec e n (R, s) = (?R, ?s)"
    using load_step [of e s k sg d rs1 imm R n] assms(2,4,6) by (simp add: a_def)
  have base: "?R ! rs1 = R ! rs1" using assms(3) by (auto simp: put_reg_def)
  have pc: "imem e (field 11 2 (PC ?s)) = i" using assms(5) by simp
  have "core_exec e n' (?R, ?s) = (put_reg d (memReadMask (ram_q e (dmem ?s)) sg (width_code k) (field 2 0 a)) ?R,
      ?s\<lparr>PC := PC ?s + 4, dmem := dmem_edge e False True a (?R ! field 24 20 i) (width_code k) (dmem ?s)\<rparr>)"
    using load_step [of e ?s k sg d rs1 imm ?R n'] assms(2,6) pc base by (simp add: a_def)
  moreover have "memReadMask (ram_q e (dmem ?s)) sg (width_code k) (field 2 0 a) = load_value word (dmem s) k sg a"
    using read_mask [OF size assms(6) [folded a_def]] by (simp add: edge)
  moreover have "put_reg d v ?R = put_reg d v R" for v by (simp add: put_reg_def)
  ultimately show ?thesis unfolding a_def [symmetric]
    by (intro exI [of _ "dmem_edge e False True a (?R ! field 24 20 i) (width_code k) (dmem ?s)"])
      (simp add: one edge add.commute)
qed

text \<open>
  For a load into its own base register the patch script first copies the base to \<open>t6\<close>, register 31, and
  has the two loads use that.
\<close>

lemma load_own_base:
  fixes R :: "u64 list" and s :: "'m rv_core"
  assumes "sync_ram e word" "idle_ram e" "R ! 0 = 0" "d < 31" "length R = 32"
    "isa_decode (imem e (field 11 2 (PC s))) = Some (Reg_imm False Add 31 d 0)" "isa_decode i = Some (Load k sg d 31 imm)"
    "imem e (field 11 2 (PC s + 4)) = i" "imem e (field 11 2 (PC s + 8)) = i" "field 2 0 (R ! d + imm) + k \<le> 8"
  shows "\<exists>m. core_exec e n2 (core_exec e n1 (core_exec e n0 (R, s)))
      = (put_reg d (load_value word (dmem s) k sg (R ! d + imm)) (R[31 := R ! d]), s\<lparr>PC := PC s + 12, dmem := m\<rparr>)
    \<and> (\<forall>b. word b m = word b (dmem s))"
proof -
  let ?R = "R[31 := R ! d]" and ?s = "s\<lparr>PC := PC s + 4\<rparr>"
  have mv: "core_exec e n0 (R, s) = (?R, ?s)"
    using computing_step [OF assms(6) _ _ assms(3,2), of "PC s + 4" ?R n0] by (simp add: put_reg_def exact_op_def rv_value_def)
  have base: "?R ! 31 = R ! d" using assms(5) by simp
  obtain m where "core_exec e n2 (core_exec e n1 (?R, ?s))
      = (put_reg d (load_value word (dmem ?s) k sg (?R ! 31 + imm)) ?R, ?s\<lparr>PC := PC ?s + 8, dmem := m\<rparr>)"
    "\<forall>b. word b m = word b (dmem ?s)"
    using load_pair [OF assms(1,7), of ?s ?R n2 n1] assms(4,8-10) unfolding base by (auto simp: add.assoc)
  then show ?thesis by (intro exI [of _ m]) (simp add: mv base add.assoc)
qed

text \<open>
  C7: The doubled load of a patched program.  On a memory whose output is registered, a load
  instruction that stands twice in a row leaves in its register the bytes at the address, as the
  instruction set asks of one load, and nothing else changes but the memory's output.  This holds
  for loads that stay inside their doubleword and whose destination is not their base register
  (or is \<open>x0\<close>); with the same register in both places the second load would use the first one's result
  as its base, which the patch script avoids by copying the base to \<open>t6\<close> first (lemma \<open>load_own_base\<close>).
\<close>

theorem patched_load_loads:
  fixes R :: "u64 list" and s :: "'m rv_core"
  assumes "sync_ram e word" "isa_decode i = Some (Load k sg d rs1 imm)" "d \<noteq> rs1 \<or> d = 0"
    "imem e (field 11 2 (PC s)) = i" "imem e (field 11 2 (PC s + 4)) = i" "field 2 0 (R ! rs1 + imm) + k \<le> 8"
  shows "\<exists>m. core_exec e n' (core_exec e n (R, s))
      = (put_reg d (load_value word (dmem s) k sg (R ! rs1 + imm)) R, s\<lparr>PC := PC s + 8, dmem := m\<rparr>)
    \<and> (\<forall>b. word b m = word b (dmem s))"
  by (rule load_pair [OF assms])

text \<open>
  C8: A store and a doubled load of the same size at the same address, however each of them forms
  that address from its base register and offset, give the value stored, cut to the size and
  extended as the load asks.  The access stays inside one doubleword, and the load's destination
  is not its base register (or is \<open>x0\<close>).
\<close>

theorem store_load_round_trip:
  fixes R :: "u64 list" and s :: "'m rv_core"
  assumes "sync_ram e word" "isa_decode i = Some (Store k rs1 rs2 imm)" "isa_decode j = Some (Load k sg d rs1' imm')"
    "imem e (field 11 2 (PC s)) = i" "imem e (field 11 2 (PC s + 4)) = j" "imem e (field 11 2 (PC s + 8)) = j"
    "d \<noteq> rs1' \<or> d = 0" "field 2 0 (R ! rs1 + imm) + k \<le> 8" "R ! rs1' + imm' = R ! rs1 + imm"
  shows "fst (core_exec e n2 (core_exec e n1 (core_exec e n0 (R, s))))
    = put_reg d (if sg then signed_take_bit (8 * k - 1) (R ! rs2) else take_bit (8 * k) (R ! rs2)) R"
proof -
  note size = decoded_store(7) [OF assms(2)]
  let ?a = "R ! rs1 + imm" and ?s = "s\<lparr>PC := PC s + 4, dmem := dmem_edge e True False (R ! rs1 + imm) (R ! rs2) (width_code k) (dmem s)\<rparr>"
  have "core_exec e n0 (R, s) = (R, ?s)"
    using store_step [of e s k rs1 rs2 imm R n0] assms(2,4,8) by simp
  moreover obtain m where "core_exec e n2 (core_exec e n1 (R, ?s))
      = (put_reg d (load_value word (dmem ?s) k sg ?a) R, ?s\<lparr>PC := PC ?s + 8, dmem := m\<rparr>)"
    using load_pair [OF assms(1,3,7), of ?s R n2 n1] assms(5,6,8) unfolding assms(9) by (auto simp: add.assoc)
  ultimately show ?thesis
    using load_after_store [OF assms(1) size assms(8)] by simp
qed

text \<open>A memory with a registered port, and programs on it.\<close>

definition registered_ram :: "(nat \<Rightarrow> u32) \<Rightarrow> ((nat \<Rightarrow> u64) \<times> u64) rv_env" where
  "registered_ram program = \<lparr>imem = program,
     ram_edge = (\<lambda>wren rden a d be (m, q).
       if wren then (m(a := (d AND byte_lanes be) OR (m a AND NOT (byte_lanes be))), q)
       else if rden then (m, m a) else (m, q)),
     ram_q = snd, undriven = 0\<rparr>"

lemma registered_ram_sync: "sync_ram (registered_ram program) (\<lambda>a m. fst m a)"
  by (simp add: sync_ram_def registered_ram_def split_beta)

definition ram_start :: "((nat \<Rightarrow> u64) \<times> u64) rv_core" where
  "ram_start = \<lparr>PC = 0, privMode = 3, mstatus = 0, mcause = 0, mtvec = 0, mepc = 0, dmem = (\<lambda>a. 0x1234 * of_nat a, 7)\<rparr>"

lemma decode_lbu: "isa_decode 0x0085c503 = Some (Load 1 False 10 11 8)"
proof -
  have "imm_I 0x0085c503 = 8" by (simp add: imm_I_def vec_def bits_def upt_rec)
  then show ?thesis by (simp add: isa_decode_def field_def Let_def)
qed

theorem patched_load_loads_witness:
  "\<exists>t. core_exec (registered_ram (\<lambda>_. 0x0085c503)) 1 (core_exec (registered_ram (\<lambda>_. 0x0085c503)) 0 (replicate 32 0, ram_start))
    = ((replicate 32 0)[10 := 0x34], t)"
proof -
  have "load_value (\<lambda>a m. fst m a) (dmem ram_start) 1 False 8 = 0x34"
    by (simp add: load_value_def byte_at_def ram_start_def field_def upt_rec)
  then show ?thesis
    using patched_load_loads [OF registered_ram_sync decode_lbu, of "\<lambda>_. 0x0085c503" ram_start "replicate 32 0" 1 0]
    by (auto simp: registered_ram_def put_reg_def field_def)
qed

lemma decode_sb: "isa_decode 0x00c68223 = Some (Store 1 13 12 4)"
proof -
  have "imm_S 0x00c68223 = 4" by (simp add: imm_S_def vec_def bits_def upt_rec)
  then show ?thesis by (simp add: isa_decode_def field_def Let_def)
qed

text \<open>The byte at 8, stored as \<open>4(x13)\<close> with 4 in \<open>x13\<close> and loaded as \<open>8(x11)\<close> with 0 in \<open>x11\<close>.\<close>

theorem store_load_round_trip_witness:
  "let e = registered_ram (\<lambda>a. if a = 0 then 0x00c68223 else 0x0085c503) in
    fst (core_exec e 2 (core_exec e 1 (core_exec e 0 ((replicate 32 0)[12 := 0x4321, 13 := 4], ram_start))))
      = (replicate 32 0)[12 := 0x4321, 13 := 4, 10 := 0x21]"
  using store_load_round_trip [OF registered_ram_sync decode_sb decode_lbu,
      of "\<lambda>a. if a = 0 then 0x00c68223 else 0x0085c503" ram_start "(replicate 32 0)[12 := 0x4321, 13 := 4]" 2 1 0]
  by (simp add: registered_ram_def put_reg_def field_def ram_start_def Let_def)

end
