(* ===== verification/CoreTrap.thy ===== *)
theory CoreTrap
  imports CoreMem
begin

text \<open>
  Traps of the core: the environment call, the breakpoint and the illegal instruction enter the
  handler at \<open>mtvec\<close> when the interrupt enable bit is set (the core has no other traps but the
  accesses of theory CoreMem that leave their doubleword), and \<open>mret\<close> undoes what entering did.
\<close>

section \<open>The status register\<close>

text \<open>What a trap and what a return do to the bits of \<open>mstatus\<close>.\<close>

lemma two_bits: "bits 1 0 (m :: 2 word) = [bit m 1, bit m 0]" "bits 12 11 (w :: u64) = [bit w 12, bit w 11]"
  by (simp_all add: bits_def upt_rec)

lemma status_after_trap:
  "bit (mstatus (core_status True r c x s)) j \<longleftrightarrow> j < 64 \<and>
    (if j = 12 then bit (privMode s) 1 else if j = 11 then bit (privMode s) 0 else if j = 7 then bit (mstatus s) 3
     else j \<noteq> 3 \<and> bit (mstatus s) j)"
  by (auto simp: core_status_def Let_def two_bits bit_vec nth_append nth_bits nth_Cons')

lemma status_after_return:
  "bit (mstatus (core_status False True c x s)) j \<longleftrightarrow> j < 64 \<and>
    (if j = 12 \<or> j = 11 then False else if j = 7 then True else if j = 3 then bit (mstatus s) 7 else bit (mstatus s) j)"
  by (auto simp: core_status_def Let_def two_bits bit_vec nth_append nth_bits nth_Cons')

section \<open>Entering the handler\<close>

text \<open>The signals of an instruction that only raises exception \<open>x\<close> of the decoder.\<close>

definition raising :: "nat \<Rightarrow> controls" where
  "raising x = signals 0 x 0 0 0 0 0 0 0 0"

definition known_opcodes :: "nat set" where
  "known_opcodes = computing \<union> {0x03, 0x23, 0x73}"

lemma decode_environment:
  "isa_decode i = Some Ecall \<Longrightarrow> i = 0x73" "isa_decode i = Some Ebreak \<Longrightarrow> i = 0x100073"
  "isa_decode i = Some Mret \<Longrightarrow> i = 0x30200073"
  unfolding isa_decode_def Let_def by (simp_all add: op_word_some split: if_split_asm option.split_asm)

lemma controller_raising:
  "isa_decode i = Some Ecall \<Longrightarrow> fst (controller False i) = raising 2"
  "isa_decode i = Some Ebreak \<Longrightarrow> fst (controller False i) = raising 1"
  "field 6 0 i \<notin> known_opcodes \<Longrightarrow> fst (controller False i) = raising 4"
proof -
  show "fst (controller False i) = raising 2" if "isa_decode i = Some Ecall"
    unfolding decode_environment(1) [OF that] by (simp add: controller_def maindec_def field_def raising_def Let_def)
  show "fst (controller False i) = raising 1" if "isa_decode i = Some Ebreak"
    unfolding decode_environment(2) [OF that] by (simp add: controller_def maindec_def field_def raising_def Let_def)
  show "fst (controller False i) = raising 4" if "field 6 0 i \<notin> known_opcodes"
    using that by (simp add: controller_def maindec_def raising_def Let_def known_opcodes_def computing_def)
qed

definition cause_code :: "nat \<Rightarrow> u64" where
  "cause_code x = (if x = 1 then 3 else if x = 2 then 8 else 2)"

lemma exception_raised:
  assumes "x = 1 \<or> x = 2 \<or> x = 4"
  shows "exceptSignal except_F x (except_E a False False 0) \<noteq> 0"
    and "of_nat (exceptDecode (exceptSignal except_F x (except_E a False False 0))
      (vec [bit x 0, bit (except_E a False False 0) 6, bit except_F 3])) = cause_code x"
proof -
  have e: "except_E a False False 0 = 0" by (simp add: except_E_def Let_def vec_def)
  have b: "bit (exceptSignal except_F x 0) j \<longleftrightarrow> j = 3 \<and> bit x 0 \<or> j = 2 \<and> bit x 2 \<or> j \<in> {8, 9, 11} \<and> bit x 1" for j
    by (auto simp: exceptSignal_def except_F_def bit_vec nth_append nth_Cons' nth_bits)
  show "exceptSignal except_F x (except_E a False False 0) \<noteq> 0"
  proof
    assume "exceptSignal except_F x (except_E a False False 0) = 0"
    then have "\<not> bit (exceptSignal except_F x 0) j" for j by (simp add: e)
    from this [of 3] this [of 2] this [of 8] show False using assms by (auto simp: b bit_Suc_0_iff)
  qed
  show "of_nat (exceptDecode (exceptSignal except_F x (except_E a False False 0))
      (vec [bit x 0, bit (except_E a False False 0) 6, bit except_F 3])) = cause_code x"
    using assms unfolding e exceptDecode_def b
    by (elim disjE) (simp_all add: cause_code_def bit_vec nth_Cons' bit_Suc_0_iff except_F_def)
qed

text \<open>One clock edge with such an instruction.\<close>

lemma core_exec_raising:
  fixes R :: "u64 list" and s :: "'m rv_core"
  assumes "fst (controller False (imem e (field 11 2 (PC s)))) = raising x" "x = 1 \<or> x = 2 \<or> x = 4"
    "idle_ram e"
  shows "core_exec e n (R, s) = (R, if bit (mstatus s) 3
    then (core_status True False False 0 s)\<lparr>mcause := cause_code x, mepc := PC s, PC := vec (bits 63 2 (mtvec s) @ [False, False])\<rparr>
    else s\<lparr>PC := PC s + 4\<rparr>)"
proof -
  let ?i = "imem e (field 11 2 (PC s))"
  define w where "w = decode_execute e n ?i R s"
  obtain k where k: "controller False ?i = (raising x, k)" using assms(1) by (cases "controller False ?i") simp
  have r: "\<not> trapReturn (raising x)" "\<not> csrWriteEnable (raising x)" "\<not> RegWrite (raising x)" "\<not> MemWrite (raising x)"
    "MemRead (raising x) = 0" "Branch (raising x) = 0" "exceptSignal_D (raising x) = x" "memWidth (raising x) = 0"
    by (simp_all add: raising_def signals_def)
  have w1: "w_controls w = raising x"
    unfolding w_def decode_execute_def k prod.case Let_def wires.select_convs by (rule refl)
  have w2: "\<not> w_PCSrc w"
    unfolding w_def decode_execute_def k prod.case Let_def wires.select_convs r by (simp add: branching_def)
  have w3: "w_except w = exceptSignal except_F x (except_E (aluResult_E (w_execute w)) False False 0)"
    unfolding w_def decode_execute_def k prod.case Let_def wires.select_convs r by (simp add: r split del: if_split)
  have w4: "w_breakSrc w = vec [bit x 0, bit (except_E (aluResult_E (w_execute w)) False False 0) 6, bit except_F 3]"
    unfolding w_def decode_execute_def k prod.case Let_def wires.select_convs r by (simp add: r split del: if_split)
  note ex = exception_raised [OF assms(2), where a = "aluResult_E (w_execute w)", folded w3 w4]
  have c: "except_controller (w_except w) (w_breakSrc w) a False x' s
      = (if bit (mstatus s) 3 then s\<lparr>mcause := cause_code x, mepc := PC s\<rparr> else s)" for a x'
    using ex by (simp add: except_controller_def Let_def)
  have st: "core_status True False False x' t = core_status True False False 0 t" for x' and t :: "'m rv_core"
    by (simp add: core_status_def Let_def)
  have up: "core_status True False False 0 (s\<lparr>mcause := cause_code x, mepc := PC s\<rparr>)
      = (core_status True False False 0 s)\<lparr>mcause := cause_code x, mepc := PC s\<rparr>"
    by (simp add: core_status_def Let_def)
  have d: "(core_status True False False 0 s)\<lparr>mcause := c, mepc := p, PC := p', dmem := dmem s\<rparr>
      = (core_status True False False 0 s)\<lparr>mcause := c, mepc := p, PC := p'\<rparr>" for c p p'
    by (simp add: core_status_def Let_def)
  show ?thesis
    unfolding core_exec_def prod.case Let_def w_def [symmetric] w1
    using ex(1) by (simp add: r w2 c st [of "result1_Atom (w_execute w)"] up d no_status_change no_access [OF assms(3)] fetch_next_def)
qed

section \<open>Properties\<close>

lemma handler_address: "(vec (bits 63 2 a @ [False, False]) :: u64) = a AND NOT (mask 2)"
proof (rule bit_word_eqI)
  fix n
  assume "n < LENGTH(64)"
  then show "bit (vec (bits 63 2 a @ [False, False]) :: u64) n \<longleftrightarrow> bit (a AND NOT (mask 2)) n"
    by (cases "n < 2") (auto simp: bit_vec nth_append nth_bits nth_Cons' bit_simps less_2_cases_iff)
qed

text \<open>The exceptions of the decoder, and the causes the core reports for them.\<close>

definition raises :: "u32 \<Rightarrow> u64 \<Rightarrow> bool" where
  "raises i c \<longleftrightarrow> isa_decode i = Some Ecall \<and> c = 8 \<or> isa_decode i = Some Ebreak \<and> c = 3
     \<or> field 6 0 i \<notin> known_opcodes \<and> c = 2"

lemma raises_raising:
  assumes "raises i c"
  shows "\<exists>x. fst (controller False i) = raising x \<and> (x = 1 \<or> x = 2 \<or> x = 4) \<and> c = cause_code x"
  using assms unfolding raises_def
proof (elim disjE conjE)
  assume "isa_decode i = Some Ecall" "c = 8"
  then show ?thesis using controller_raising(1) [of i] by (intro exI [of _ 2]) (simp add: cause_code_def)
next
  assume "isa_decode i = Some Ebreak" "c = 3"
  then show ?thesis using controller_raising(2) [of i] by (intro exI [of _ 1]) (simp add: cause_code_def)
next
  assume "field 6 0 i \<notin> known_opcodes" "c = 2"
  then show ?thesis using controller_raising(3) [of i] by (intro exI [of _ 4]) (simp add: cause_code_def)
qed

text \<open>What \<open>mstatus\<close> holds in the handler, and after the return.\<close>

definition saved_status :: "2 word \<Rightarrow> u64 \<Rightarrow> u64 \<Rightarrow> bool" where
  "saved_status mode old new \<longleftrightarrow> (\<forall>j. bit new j \<longleftrightarrow>
     (if j = 12 then bit mode 1 else if j = 11 then bit mode 0 else if j = 7 then bit old 3 else j \<noteq> 3 \<and> bit old j))"

definition restored_status :: "u64 \<Rightarrow> u64 \<Rightarrow> bool" where
  "restored_status old new \<longleftrightarrow> (\<forall>j. bit new j \<longleftrightarrow>
     (if j = 12 \<or> j = 11 then False else if j = 7 then True else if j = 3 then bit old 7 else bit old j))"

lemma bit_u64_less: "bit w j \<Longrightarrow> j < 64" for w :: u64
  using bit_imp_le_length [of w j] by simp

lemma raising_enters:
  fixes R :: "u64 list" and s :: "'m rv_core"
  assumes "raises (imem e (field 11 2 (PC s))) c" "bit (mstatus s) 3" "idle_ram e"
  shows "\<exists>t. core_exec e n (R, s) = (R, t) \<and> PC t = mtvec s AND NOT (mask 2) \<and> mepc t = PC s \<and> mcause t = c
    \<and> privMode t = 3 \<and> mtvec t = mtvec s \<and> dmem t = dmem s \<and> saved_status (privMode s) (mstatus s) (mstatus t)"
proof -
  obtain x where x: "fst (controller False (imem e (field 11 2 (PC s)))) = raising x" "x = 1 \<or> x = 2 \<or> x = 4" "c = cause_code x"
    using raises_raising [OF assms(1)] by blast
  let ?t = "(core_status True False False 0 s)\<lparr>mcause := c, mepc := PC s, PC := mtvec s AND NOT (mask 2)\<rparr>"
  have "core_exec e n (R, s) = (R, ?t)"
    using core_exec_raising [OF x(1,2) assms(3)] assms(2) by (simp add: x(3) handler_address)
  moreover have "privMode ?t = 3" "mtvec ?t = mtvec s" "dmem ?t = dmem s"
    by (simp_all add: core_status_def Let_def)
  moreover have "saved_status (privMode s) (mstatus s) (mstatus ?t)"
    by (auto simp: saved_status_def status_after_trap dest: bit_u64_less split: if_splits)
  ultimately show ?thesis by (intro exI [of _ ?t]) simp
qed

text \<open>
  C13: an environment call, a breakpoint and an instruction with an unknown opcode.  With the
  enable bit set the core goes to the handler in machine mode, notes the address and the cause,
  saves mode and enable bit in \<open>mstatus\<close> and clears the enable bit; registers and memory are
  untouched.  With the enable bit clear the instruction is skipped.
\<close>

theorem trap_enters_handler:
  fixes R :: "u64 list" and s :: "'m rv_core"
  assumes "raises (imem e (field 11 2 (PC s))) c" "idle_ram e"
  shows "if bit (mstatus s) 3 then
      \<exists>t. core_exec e n (R, s) = (R, t) \<and> PC t = mtvec s AND NOT (mask 2) \<and> mepc t = PC s \<and> mcause t = c
        \<and> privMode t = 3 \<and> mtvec t = mtvec s \<and> dmem t = dmem s \<and> saved_status (privMode s) (mstatus s) (mstatus t)
    else core_exec e n (R, s) = (R, s\<lparr>PC := PC s + 4\<rparr>)"
proof (cases "bit (mstatus s) 3")
  case True
  then show ?thesis using raising_enters [OF assms(1) True assms(2)] by simp
next
  case False
  obtain x where "fst (controller False (imem e (field 11 2 (PC s)))) = raising x" "x = 1 \<or> x = 2 \<or> x = 4"
    using raises_raising [OF assms(1)] by blast
  from core_exec_raising [OF this assms(2)] False show ?thesis by simp
qed

text \<open>The return instruction.\<close>

lemma core_exec_mret:
  fixes R :: "u64 list" and s :: "'m rv_core"
  assumes "isa_decode (imem e (field 11 2 (PC s))) = Some Mret" "idle_ram e"
  shows "core_exec e n (R, s) = (R, (core_status False True False 0 s)\<lparr>PC := mepc s\<rparr>)"
proof -
  let ?i = "imem e (field 11 2 (PC s))"
  let ?c = "signals 0b100 0 0 0 0 0 0 0 0 0"
  define w where "w = decode_execute e n ?i R s"
  obtain k where k: "controller False ?i = (?c, k)"
    unfolding decode_environment(3) [OF assms(1)] by (simp add: controller_def maindec_def field_def Let_def)
  have r: "trapReturn ?c" "\<not> csrWriteEnable ?c" "\<not> RegWrite ?c" "\<not> MemWrite ?c"
    "MemRead ?c = 0" "exceptSignal_D ?c = 0" "memWidth ?c = 0"
    by (simp_all add: signals_def bit_Suc_0_iff)
  have w1: "w_controls w = ?c"
    unfolding w_def decode_execute_def k prod.case Let_def wires.select_convs by (rule refl)
  have w2: "w_except w = 0"
    unfolding w_def decode_execute_def k prod.case Let_def wires.select_convs
    by (simp add: r except_none split del: if_split)
  have st: "core_status False True False x s = core_status False True False 0 s" for x by (simp add: core_status_def Let_def)
  have d: "(core_status False True False 0 s)\<lparr>PC := p, dmem := dmem s\<rparr> = (core_status False True False 0 s)\<lparr>PC := p\<rparr>" for p
    by (simp add: core_status_def Let_def)
  show ?thesis
    unfolding core_exec_def prod.case Let_def w_def [symmetric] w1
    by (simp add: r w2 st [of "result1_Atom (w_execute w)"] d no_exception no_access [OF assms(2)] fetch_next_def)
qed

text \<open>
  C14: a trap and the return from it.  When the handler's first instruction is \<open>mret\<close>, the core
  is back at the instruction that trapped, in the mode it was in, with interrupts enabled as
  before; registers and memory are as they were.
\<close>

theorem trap_and_return:
  fixes R :: "u64 list" and s :: "'m rv_core"
  assumes "raises (imem e (field 11 2 (PC s))) c" "bit (mstatus s) 3"
    "isa_decode (imem e (field 11 2 (mtvec s AND NOT (mask 2)))) = Some Mret" "idle_ram e"
  shows "\<exists>u. core_exec e n' (core_exec e n (R, s)) = (R, u) \<and> PC u = PC s \<and> privMode u = privMode s
    \<and> bit (mstatus u) 3 \<and> dmem u = dmem s \<and> mtvec u = mtvec s
    \<and> (\<forall>j. j \<notin> {3, 7, 11, 12} \<longrightarrow> bit (mstatus u) j = bit (mstatus s) j)"
proof -
  obtain t where t: "core_exec e n (R, s) = (R, t)" "PC t = mtvec s AND NOT (mask 2)" "mepc t = PC s"
      "mtvec t = mtvec s" "dmem t = dmem s" and st: "saved_status (privMode s) (mstatus s) (mstatus t)"
    using raising_enters [OF assms(1,2,4)] by blast
  let ?u = "(core_status False True False 0 t)\<lparr>PC := mepc t\<rparr>"
  have "core_exec e n' (R, t) = (R, ?u)" by (rule core_exec_mret) (simp_all add: t(2) assms(3,4))
  moreover have "privMode ?u = privMode s"
  proof (rule bit_word_eqI)
    fix j
    assume "j < LENGTH(2)"
    then have "j = 0 \<or> j = 1" by auto
    then show "bit (privMode ?u) j \<longleftrightarrow> bit (privMode s) j"
      using st by (auto simp: core_status_def Let_def two_bits bit_vec saved_status_def)
  qed
  moreover have "dmem ?u = dmem s" "mtvec ?u = mtvec s" by (simp_all add: core_status_def Let_def t)
  moreover have "bit (mstatus ?u) 3" using st assms(2) by (simp add: status_after_return saved_status_def)
  moreover have "bit (mstatus ?u) j = bit (mstatus s) j" if "j \<notin> {3, 7, 11, 12}" for j
    using st that bit_u64_less [of "mstatus s" j] by (auto simp: status_after_return saved_status_def)
  ultimately show ?thesis unfolding t(1) by (intro exI [of _ ?u]) (simp add: t(3))
qed

definition trapping :: "unit rv_core" where
  "trapping = at_start\<lparr>mstatus := 8, mtvec := 64\<rparr>"

definition ecall_and_return :: "unit rv_env" where
  "ecall_and_return = (one_instruction 0x73)\<lparr>imem := \<lambda>a. if a = 16 then 0x30200073 else 0x73\<rparr>"

lemma decode_ecall: "isa_decode 0x73 = Some Ecall" "isa_decode 0x30200073 = Some Mret"
  by (simp_all add: isa_decode_def field_def Let_def)

lemma ecall_raises: "raises (imem ecall_and_return (field 11 2 (PC trapping))) 8"
  by (simp add: raises_def ecall_and_return_def one_instruction_def trapping_def at_start_def decode_ecall field_def)

lemma idle_ecall_and_return: "idle_ram ecall_and_return"
  by (simp add: idle_ram_def ecall_and_return_def one_instruction_def)

lemma trapping_enabled: "bit (mstatus trapping) 3"
  by (simp add: trapping_def bit_iff_odd)

theorem trap_enters_handler_witness:
  "\<exists>t. core_exec ecall_and_return 0 (replicate 32 1, trapping) = (replicate 32 1, t) \<and> PC t = 64 \<and> mcause t = 8"
proof -
  have "mtvec trapping AND NOT (mask 2) = 64" by (simp add: trapping_def mask_numeral)
  then show ?thesis
    using trap_enters_handler [OF ecall_raises idle_ecall_and_return, of 0 "replicate 32 1"] by (auto simp: trapping_enabled)
qed

theorem trap_and_return_witness:
  "\<exists>u. core_exec ecall_and_return 1 (core_exec ecall_and_return 0 (replicate 32 1, trapping)) = (replicate 32 1, u)
    \<and> PC u = 0 \<and> privMode u = 3 \<and> bit (mstatus u) 3"
proof -
  have "mtvec trapping AND NOT (mask 2) = 64" by (simp add: trapping_def mask_numeral)
  then have "isa_decode (imem ecall_and_return (field 11 2 (mtvec trapping AND NOT (mask 2)))) = Some Mret"
    by (simp add: ecall_and_return_def one_instruction_def field_def decode_ecall)
  from trap_and_return [OF ecall_raises trapping_enabled this idle_ecall_and_return, of 1 0 "replicate 32 1"] show ?thesis
    by (auto simp: trapping_def at_start_def)
qed

end
