(* ===== verification/CoreCsr.thy ===== *)
theory CoreCsr
  imports CoreTrap
begin

text \<open>
  The status register instructions of the core (\<open>csrrw\<close>, \<open>csrrs\<close>, \<open>csrrc\<close> and their forms with an
  immediate): what they read, what they write, and which fields of which registers take it.
\<close>

section \<open>The value written\<close>

text \<open>The operand is a register, or the bits that name it in the other forms, sign-extended.\<close>

definition csr_operand :: "u32 \<Rightarrow> u64 list \<Rightarrow> u64" where
  "csr_operand i R = (if 4 \<le> field 14 12 i then scast (ucast (drop_bit 15 i) :: 5 word) else R ! field 19 15 i)"

definition csr_new :: "u32 \<Rightarrow> u64 \<Rightarrow> u64 \<Rightarrow> u64" where
  "csr_new i x old =
     (if field 14 12 i mod 4 = 1 then x else if field 14 12 i mod 4 = 2 then old OR x else old AND NOT x)"

text \<open>The fields of a mask from the first word, the rest from the second.\<close>

definition merged :: "u64 \<Rightarrow> u64 \<Rightarrow> u64 \<Rightarrow> u64" where
  "merged m x old = (x AND m) OR (old AND NOT m)"

abbreviation mstatus_fields :: u64 where "mstatus_fields \<equiv> 0x1888"
abbreviation mtvec_fields :: u64 where "mtvec_fields \<equiv> 0xfffffc"

lemma signext_system:
  assumes "field 6 0 i = 0x73"
  shows "signext i = scast (ucast (drop_bit 15 i) :: 5 word)"
  by (rule bit_word_eqI) (use assms in \<open>auto simp: signext_def bus_simps bit_simps\<close>)

lemma status_after_write:
  "bit (mstatus (core_status False False True x s)) j \<longleftrightarrow> j < 64 \<and>
    (if j = 12 then bit x 12 else if j = 11 then bit x 11 else if j = 7 then bit x 7 else if j = 3 then bit x 3
     else bit (mstatus s) j)"
  by (auto simp: core_status_def Let_def two_bits bit_vec nth_append nth_bits nth_Cons')

lemma bit_mstatus_fields: "bit mstatus_fields j \<longleftrightarrow> j = 3 \<or> j = 7 \<or> j = 11 \<or> j = 12"
proof -
  have "mstatus_fields = push_bit 3 1 OR push_bit 7 1 OR push_bit 11 1 OR push_bit 12 1" by simp
  then show ?thesis by (simp only: bit_or_iff bit_push_bit_iff bit_1_iff) auto
qed

lemma mstatus_written:
  "core_status False False True x s = s\<lparr>mstatus := merged mstatus_fields x (mstatus s)\<rparr>"
proof -
  have "mstatus (core_status False False True x s) = merged mstatus_fields x (mstatus s)"
    unfolding merged_def
    by (rule bit_word_eqI, unfold status_after_write bit_or_iff bit_and_iff bit_not_iff bit_mstatus_fields) auto
  then show ?thesis by (simp add: core_status_def Let_def)
qed

lemma mtvec_written:
  "except_controller 0 b a True x s = (if a = 0x305 then s\<lparr>mtvec := merged mtvec_fields x (mtvec s)\<rparr> else s)"
proof -
  have "(vec (replicate 40 False @ replicate 22 True @ replicate 2 False) :: u64) = 0xfffffc"
    by (simp add: vec_def horner_sum_simps numeral_eq_Suc)
  then show ?thesis by (simp add: except_controller_def Let_def merged_def or.commute)
qed

section \<open>One instruction\<close>

definition csr_instruction :: "u32 \<Rightarrow> bool" where
  "csr_instruction i \<longleftrightarrow> field 6 0 i = 0x73 \<and> field 14 12 i mod 4 \<noteq> 0"

definition csr_signals :: "bool \<Rightarrow> controls" where
  "csr_signals imm = signals 0b011 0 0 0 (if imm then 0b101 else 0b001) 0 0 0 0 0b10"

lemma csr_signals:
  "aluSelect (csr_signals b)" "csrWriteEnable (csr_signals b)" "\<not> trapReturn (csr_signals b)" "exceptSignal_D (csr_signals b) = 0"
  "\<not> wArith (csr_signals b)" "regSel (csr_signals b) = 0" "ALUSrc (csr_signals b) = b" "\<not> MemtoReg (csr_signals b)"
  "RegWrite (csr_signals b)" "MemRead (csr_signals b) = 0" "\<not> MemWrite (csr_signals b)" "memWidth (csr_signals b) = 0"
  "Branch (csr_signals b) = 0"
  by (simp_all add: csr_signals_def signals_def bit_Suc_0_iff bit_iff_odd)

text \<open>The operation of the atomic unit that the decoder selects.\<close>

definition csr_alu :: "u32 \<Rightarrow> nat" where
  "csr_alu i = (if field 14 12 i mod 4 = 1 then 0 else if field 14 12 i mod 4 = 2 then 1 else 3)"

lemma controller_csr:
  assumes "csr_instruction i"
  shows "controller False i = (csr_signals (4 \<le> field 14 12 i), csr_alu i)"
proof -
  have f: "field 6 0 i = 0x73" "field 14 12 i \<in> {1, 2, 3, 5, 6, 7}"
    using assms funct3_cases [of i] by (auto simp: csr_instruction_def)
  from f(2) show ?thesis
    by (elim insertE emptyE)
      (simp_all add: controller_def maindec_def f(1) csr_signals_def signals_def aludec_atomic_def csr_alu_def Let_def bit_Suc_0_iff)
qed

lemma atom_alu_csr: "atom_alu x old (csr_alu i) = (old, csr_new i x old)"
  by (simp add: atom_alu_def csr_alu_def csr_new_def or.commute and.commute)

lemma csr_wires:
  fixes R :: "u64 list" and s :: "'m rv_core" and e :: "'m rv_env" and n :: u64
  assumes "csr_instruction i"
  defines "w \<equiv> decode_execute e n i R s" and "old \<equiv> csr_dec (csrOut e n s) (of_nat (field 31 20 i))"
  shows "w_controls w = csr_signals (4 \<le> field 14 12 i)" "\<not> w_PCSrc w" "w_writeData3 w = old" "w_except w = 0"
    "result1_Atom (w_execute w) = csr_new i (csr_operand i R) old"
proof -
  have f: "field 6 0 i = 0x73" using assms(1) by (simp add: csr_instruction_def)
  have o: "(if 4 \<le> field 14 12 i then signext i else R ! field 19 15 i) = csr_operand i R"
    by (simp add: csr_operand_def signext_system [OF f])
  note unf = w_def old_def decode_execute_def controller_csr [OF assms(1)] execute_def prod.case Let_def split_beta
    wires.select_convs execute_out.select_convs
  show "w_controls w = csr_signals (4 \<le> field 14 12 i)" unfolding unf by simp
  show "\<not> w_PCSrc w" unfolding unf by (simp add: csr_signals branching_def)
  show "w_writeData3 w = old" unfolding unf by (simp add: csr_signals f atom_alu_csr)
  show "w_except w = 0" unfolding unf by (simp add: csr_signals except_none)
  show "result1_Atom (w_execute w) = csr_new i (csr_operand i R) old"
    unfolding unf by (simp add: csr_signals f o atom_alu_csr cong: if_cong)
qed

text \<open>
  C17: the status register instructions.  In one clock edge the destination register gets the old
  value, and of the new one \<open>mstatus\<close> takes the privilege and interrupt enable fields and \<open>mtvec\<close>
  bits 2 to 23; no other status register can be written, and the rest of the core is untouched.
\<close>

theorem csr_instructions:
  fixes R :: "u64 list" and s :: "'m rv_core" and e :: "'m rv_env" and n :: u64
  assumes "imem e (field 11 2 (PC s)) = i" "csr_instruction i" "idle_ram e"
  defines "old \<equiv> csr_dec (csrOut e n s) (of_nat (field 31 20 i))"
  defines "new \<equiv> csr_new i (csr_operand i R) old"
  shows "core_exec e n (R, s) = (put_reg (field 11 7 i) old R, s\<lparr>PC := PC s + 4,
    mstatus := if field 31 20 i = 0x300 then merged mstatus_fields new (mstatus s) else mstatus s,
    mtvec := if field 31 20 i = 0x305 then merged mtvec_fields new (mtvec s) else mtvec s\<rparr>)"
proof -
  note w = csr_wires [OF assms(2), where R = R and s = s and e = e and n = n, folded old_def, folded new_def]
  show ?thesis
    unfolding core_exec_def prod.case Let_def assms(1) w(1,3,4,5)
    by (simp add: csr_signals w(2) no_access [OF assms(3)] mtvec_written mstatus_written no_status_change
        fetch_next_def put_reg_def)
qed

text \<open>A handler's address is set.\<close>

theorem csr_instructions_witness:
  "core_exec (one_instruction 0x30559573) 0 ((replicate 32 0)[10 := 9, 11 := 0x1234567], at_start)
    = ((replicate 32 0)[10 := 0, 11 := 0x1234567], at_start\<lparr>PC := 4, mtvec := 0x234564\<rparr>)"
proof -
  have f: "field 31 20 (0x30559573 :: u32) = 0x305" "field 14 12 (0x30559573 :: u32) = 1" "field 6 0 (0x30559573 :: u32) = 0x73"
    "field 11 7 (0x30559573 :: u32) = 10" "field 19 15 (0x30559573 :: u32) = 11"
    by (simp_all add: field_def)
  have "csr_instruction 0x30559573" by (simp add: csr_instruction_def f)
  note r = csr_instructions [OF _ this idle_one_instruction, where R = "(replicate 32 0)[10 := 9, 11 := 0x1234567]" and n = 0]
  have "imem (one_instruction 0x30559573) (field 11 2 (PC at_start)) = 0x30559573" by (simp add: one_instruction_def)
  from r [OF this] show ?thesis
    by (simp add: f csr_new_def csr_operand_def merged_def csr_dec_def csrOut_def at_start_def put_reg_def
        list_update_swap [of 11 10])
qed

end
