(* ===== verification/Faults.thy ===== *)
theory Faults
  imports CoreTrap
begin

text \<open>
  What a flipped register bit does to the program on the core: nothing, when the program
  overwrites the register before it reads it.  Every instruction word is considered, also those
  that trap, and those the core does not carry out as the instruction set asks.
\<close>

section \<open>What an instruction reads and writes\<close>

text \<open>The source registers of an instruction and its destination, by its format.\<close>

definition sources :: "u32 \<Rightarrow> nat set" where
  "sources i =
     (if field 6 0 i \<in> {0x03, 0x13, 0x1B, 0x23, 0x33, 0x3B, 0x63, 0x67} \<or> (field 6 0 i = 0x73 \<and> field 14 12 i \<in> {1, 2, 3})
      then {field 19 15 i} else {})
     \<union> (if field 6 0 i \<in> {0x23, 0x33, 0x3B, 0x63} then {field 24 20 i} else {})"

definition target :: "u32 \<Rightarrow> nat option" where
  "target i =
     (if field 6 0 i \<in> {0x03, 0x13, 0x17, 0x1B, 0x33, 0x37, 0x3B, 0x67, 0x6F}
        \<or> (field 6 0 i = 0x73 \<and> field 14 12 i \<in> {1, 2, 3, 5, 6, 7})
      then Some (field 11 7 i) else None)"

lemma target_RegWrite: "RegWrite (fst (controller False i)) \<longleftrightarrow> target i \<noteq> None"
  by (simp add: controller_def maindec_def signals_def target_def bit_iff_odd)

text \<open>The control signals that keep a register that is no source from being used.\<close>

lemma unused_source1:
  assumes "field 19 15 i \<notin> sources i"
  defines "c \<equiv> fst (controller False i)"
  shows "field 6 0 i \<noteq> 0x67 \<and>
    (ALUSrc c \<and> (bit (regSel c) 0 \<or> bit (regSel c) 1) \<and> \<not> MemWrite c
     \<or> ALUSrc c \<and> aluSelect c \<and> \<not> MemWrite c \<and> \<not> bit (MemRead c) 0 \<and> Branch c = 0 \<and> \<not> MemtoReg c
     \<or> Branch c = 7 \<and> \<not> MemWrite c \<and> \<not> bit (MemRead c) 0 \<and> \<not> csrWriteEnable c \<and> \<not> ALUSrc c
     \<or> \<not> RegWrite c \<and> \<not> MemWrite c \<and> \<not> bit (MemRead c) 0 \<and> Branch c = 0 \<and> \<not> csrWriteEnable c)"
proof -
  have op: "field 6 0 i \<notin> {0x03, 0x13, 0x1B, 0x23, 0x33, 0x3B, 0x63, 0x67}"
    "field 6 0 i = 0x73 \<longrightarrow> field 14 12 i \<notin> {1, 2, 3}"
    using assms(1) by (auto simp: sources_def)
  consider "field 6 0 i = 0x37" | "field 6 0 i = 0x17" | "field 6 0 i = 0x6F" | "field 6 0 i = 0x73"
    | "field 6 0 i \<notin> {0x17, 0x37, 0x6F, 0x73}" by blast
  then show ?thesis
    by cases (use op in \<open>simp_all add: c_def controller_def maindec_def signals_def bit_iff_odd Let_def\<close>)
qed

lemma unused_source2:
  assumes "field 24 20 i \<notin> sources i"
  defines "c \<equiv> fst (controller False i)"
  shows "ALUSrc c \<and> \<not> MemWrite c
     \<or> aluSelect c \<and> \<not> MemWrite c \<and> \<not> bit (MemRead c) 0 \<and> Branch c = 0 \<and> \<not> MemtoReg c
     \<or> Branch c = 7 \<and> \<not> MemWrite c \<and> \<not> bit (MemRead c) 0 \<and> \<not> csrWriteEnable c \<and> \<not> ALUSrc c
     \<or> \<not> RegWrite c \<and> \<not> MemWrite c \<and> \<not> bit (MemRead c) 0 \<and> Branch c = 0 \<and> \<not> csrWriteEnable c"
proof -
  have op: "field 6 0 i \<notin> {0x23, 0x33, 0x3B, 0x63}" using assms(1) by (auto simp: sources_def)
  consider "field 6 0 i = 0x03" | "field 6 0 i = 0x13" | "field 6 0 i = 0x1B" | "field 6 0 i = 0x67"
    | "field 6 0 i = 0x37" | "field 6 0 i = 0x17" | "field 6 0 i = 0x6F" | "field 6 0 i = 0x73"
    | "field 6 0 i \<notin> {0x03, 0x13, 0x17, 0x1B, 0x37, 0x67, 0x6F, 0x73}" by blast
  then show ?thesis
    by cases (use op in \<open>simp_all add: c_def controller_def maindec_def signals_def bit_iff_odd Let_def\<close>)
qed

lemma execute_immediate:
  "ALUSrc c \<Longrightarrow> execute c k p im a b r = execute c k p im a b' r"
  "ALUSrc c \<Longrightarrow> bit (regSel c) 1 \<Longrightarrow> execute c k p im a b r = execute c k p im a' b r"
  by (simp_all add: execute_def)

lemma execute_atomic:
  "aluSelect c \<Longrightarrow> aluResult_E (execute c k p im a b r) = fst (atom_alu (if ALUSrc c then im else a) r k)"
  "result1_Atom (execute c k p im a b r) = snd (atom_alu (if ALUSrc c then im else a) r k)"
  "PC4_E (execute c k p im a b r) = p + 4"
  "PCBranch_E (execute c k p im a b r) = (if ALUSrc c then vec (bits 63 1 im @ [False]) else push_bit 1 im + p)"
  by (simp_all add: execute_def split_beta Let_def)

text \<open>Registers that agree on the sources of an instruction give the same signals where they are used.\<close>

lemma same_wires:
  fixes e :: "'m rv_env" and s :: "'m rv_core" and n :: u64 and i :: u32 and R R' :: "u64 list"
  assumes "R' ! 0 = R ! 0" "\<forall>k \<in> sources i. R' ! k = R ! k"
  defines "w \<equiv> decode_execute e n i R s" and "w' \<equiv> decode_execute e n i R' s"
  shows "w_controls w = fst (controller False i)" "w_controls w' = fst (controller False i)"
    and "w_except w' = w_except w" "w_breakSrc w' = w_breakSrc w" "w_PCSrc w' = w_PCSrc w"
    and "w_PCSrc w \<Longrightarrow> PCBranch_E (w_execute w') = PCBranch_E (w_execute w)"
    and "csrWriteEnable (w_controls w) \<Longrightarrow> result1_Atom (w_execute w') = result1_Atom (w_execute w)"
    and "MemWrite (w_controls w) \<or> bit (MemRead (w_controls w)) 0 \<Longrightarrow> aluResult_E (w_execute w') = aluResult_E (w_execute w)"
    and "MemWrite (w_controls w) \<Longrightarrow> w_readData2 w' = w_readData2 w"
    and "RegWrite (w_controls w) \<Longrightarrow> w_writeData3 w' = w_writeData3 w"
proof -
  show c: "w_controls w = fst (controller False i)" "w_controls w' = fst (controller False i)"
    by (simp_all add: w_def w'_def decode_execute_def Let_def split_beta)
  note x = execute_immediate(1) [where b = "R' ! k" and b' = "R ! k" for k]
    execute_immediate(2) [where a = "R' ! k" and a' = "R ! k" for k] execute_atomic branching_def except_E_def
  note d = w_def w'_def decode_execute_def Let_def split_beta wires.select_convs
  consider "field 19 15 i \<in> sources i" "field 24 20 i \<in> sources i"
    | "field 19 15 i \<in> sources i" "field 24 20 i \<notin> sources i"
    | "field 19 15 i \<notin> sources i" "field 24 20 i \<in> sources i"
    | "field 19 15 i \<notin> sources i" "field 24 20 i \<notin> sources i" by blast
  then have "w_except w' = w_except w \<and> w_breakSrc w' = w_breakSrc w \<and> w_PCSrc w' = w_PCSrc w
    \<and> (w_PCSrc w \<longrightarrow> PCBranch_E (w_execute w') = PCBranch_E (w_execute w))
    \<and> (csrWriteEnable (w_controls w) \<longrightarrow> result1_Atom (w_execute w') = result1_Atom (w_execute w))
    \<and> (MemWrite (w_controls w) \<or> bit (MemRead (w_controls w)) 0 \<longrightarrow> aluResult_E (w_execute w') = aluResult_E (w_execute w))
    \<and> (MemWrite (w_controls w) \<longrightarrow> w_readData2 w' = w_readData2 w)
    \<and> (RegWrite (w_controls w) \<longrightarrow> w_writeData3 w' = w_writeData3 w)"
  proof cases
    case 1
    then show ?thesis using assms(1,2) by (simp add: w_def w'_def decode_execute_def Let_def split_beta cong: if_cong)
  next
    case 2
    with assms(1,2) have s: "R' ! (if bit (regSel (fst (controller False i))) 0 then 0 else field 19 15 i)
        = R ! (if bit (regSel (fst (controller False i))) 0 then 0 else field 19 15 i)" by simp
    from unused_source2 [OF 2(2)] show ?thesis
      unfolding d s
      by (elim disjE conjE) (simp_all add: x assms(1) split del: if_split cong: if_cong)
  next
    case 3
    with assms(2) have s: "R' ! field 24 20 i = R ! field 24 20 i" by blast
    from unused_source1 [OF 3(1)] show ?thesis
      unfolding d s
      by (elim disjE conjE) (simp_all add: x assms(1) split del: if_split cong: if_cong)
  next
    case 4
    from unused_source1 [OF 4(1)] unused_source2 [OF 4(2)] show ?thesis
      unfolding d
      by (elim disjE conjE) (simp_all add: x assms(1) split del: if_split cong: if_cong)
  qed
  then show "w_except w' = w_except w" "w_breakSrc w' = w_breakSrc w" "w_PCSrc w' = w_PCSrc w"
    and "w_PCSrc w \<Longrightarrow> PCBranch_E (w_execute w') = PCBranch_E (w_execute w)"
    and "csrWriteEnable (w_controls w) \<Longrightarrow> result1_Atom (w_execute w') = result1_Atom (w_execute w)"
    and "MemWrite (w_controls w) \<or> bit (MemRead (w_controls w)) 0 \<Longrightarrow> aluResult_E (w_execute w') = aluResult_E (w_execute w)"
    and "MemWrite (w_controls w) \<Longrightarrow> w_readData2 w' = w_readData2 w"
    and "RegWrite (w_controls w) \<Longrightarrow> w_writeData3 w' = w_writeData3 w"
    by simp_all
qed

text \<open>A read of the memory does not depend on the data and the byte enables at its port.\<close>

definition reads_alone :: "'m rv_env \<Rightarrow> bool" where
  "reads_alone e \<longleftrightarrow> (\<forall>a d d' be be' m. ram_edge e False True a d be m = ram_edge e False True a d' be' m)"

text \<open>One instruction, with a register changed that is none of its sources.\<close>

lemma exec_changed:
  fixes e :: "'m rv_env" and s :: "'m rv_core"
  defines "i \<equiv> imem e (field 11 2 (PC s))"
  assumes "r \<noteq> 0" "r \<notin> sources i" "reads_alone e" "idle_ram e"
  shows "core_exec e n (R[r := v], s)
    = (if target i = Some r then core_exec e n (R, s) else ((fst (core_exec e n (R, s)))[r := v], snd (core_exec e n (R, s))))"
proof -
  let ?w = "decode_execute e n i R s" and ?w' = "decode_execute e n i (R[r := v]) s"
  have agree: "R[r := v] ! 0 = R ! 0" "\<forall>k \<in> sources i. R[r := v] ! k = R ! k"
    using assms(2,3) by (metis nth_list_update_neq)+
  note w = same_wires [where e = e and n = n and s = s, OF agree]
  have mem: "dmem_edge e (MemWrite (w_controls ?w)) (bit (MemRead (w_controls ?w)) 0) (aluResult_E (w_execute ?w'))
      (w_readData2 ?w') k m
    = dmem_edge e (MemWrite (w_controls ?w)) (bit (MemRead (w_controls ?w)) 0) (aluResult_E (w_execute ?w))
      (w_readData2 ?w) k m" for k m
  proof (cases "MemWrite (w_controls ?w)")
    case True
    then show ?thesis using w(8,9) by simp
  next
    case F: False
    show ?thesis
    proof (cases "bit (MemRead (w_controls ?w)) 0")
      case True
      then show ?thesis using F w(8) assms(4) unfolding reads_alone_def dmem_edge_def memWriteMask_def prod.case by simp
    next
      case False
      then show ?thesis using F by (simp add: no_access [OF assms(5)])
    qed
  qed
  have ctl: "except_controller x b a (csrWriteEnable (w_controls ?w)) (result1_Atom (w_execute ?w')) t
      = except_controller x b a (csrWriteEnable (w_controls ?w)) (result1_Atom (w_execute ?w)) t"
    "core_status tr ret (y \<and> csrWriteEnable (w_controls ?w)) (result1_Atom (w_execute ?w')) t
      = core_status tr ret (y \<and> csrWriteEnable (w_controls ?w)) (result1_Atom (w_execute ?w)) t" for x b a t tr ret y
    using w(7) by (cases "csrWriteEnable (w_controls ?w)"; simp add: except_controller_def core_status_def)+
  have pc: "fetch_next tr t ret p (w_PCSrc ?w) (PCBranch_E (w_execute ?w')) c
      = fetch_next tr t ret p (w_PCSrc ?w) (PCBranch_E (w_execute ?w)) c" for tr t ret p c
    using w(6) by (cases "w_PCSrc ?w") (simp_all add: fetch_next_def)
  have "snd (core_exec e n (R[r := v], s)) = snd (core_exec e n (R, s))"
    unfolding core_exec_def prod.case Let_def snd_conv i_def [symmetric] w(3-5) w(2) w(1) [symmetric] mem ctl pc ..
  moreover have "fst (core_exec e n (R[r := v], s)) = (if target i = Some r then fst (core_exec e n (R, s))
      else (fst (core_exec e n (R, s)))[r := v])"
  proof (cases "RegWrite (fst (controller False i))")
    case True
    then have "target i = Some (field 11 7 i)" unfolding target_RegWrite by (auto simp: target_def split: if_splits)
    then show ?thesis using True w(10) assms(2)
      by (simp add: core_exec_def Let_def i_def [symmetric] w(1,2) list_update_swap)
  next
    case False
    then have "target i = None" unfolding target_RegWrite by simp
    then show ?thesis using False by (simp add: core_exec_def Let_def i_def [symmetric] w(1,2))
  qed
  ultimately show ?thesis by (simp add: prod_eq_iff)
qed

section \<open>Runs\<close>

text \<open>The next \<open>n\<close> instructions from cycle \<open>c\<close> on.\<close>

primrec run_from :: "'x core_fns \<Rightarrow> u64 \<Rightarrow> nat \<Rightarrow> u64 list \<times> 'x \<Rightarrow> u64 list \<times> 'x" where
  "run_from f c 0 x = x"
| "run_from f c (Suc n) x = exec f (c + of_nat n) (run_from f c n x)"

lemma run_from_run_core: "run_from f (of_nat k) n (run_core f k x) = run_core f (k + n) x"
  by (induction n) simp_all

text \<open>What the instruction at hand does with register \<open>r\<close>.\<close>

definition instruction_at :: "'m rv_env \<Rightarrow> u64 list \<times> 'm rv_core \<Rightarrow> u32" where
  "instruction_at e x = imem e (field 11 2 (PC (snd x)))"

definition ignores :: "'m rv_env \<Rightarrow> nat \<Rightarrow> u64 list \<times> 'm rv_core \<Rightarrow> bool" where
  "ignores e r x \<longleftrightarrow> r \<notin> sources (instruction_at e x)"

definition overwrites :: "'m rv_env \<Rightarrow> nat \<Rightarrow> u64 list \<times> 'm rv_core \<Rightarrow> bool" where
  "overwrites e r x \<longleftrightarrow> target (instruction_at e x) = Some r"

lemma ignoring_step:
  assumes "ignores e r x" "r \<noteq> 0" "reads_alone e" "idle_ram e"
  shows "core_exec e n ((fst x)[r := v], snd x)
    = (if overwrites e r x then core_exec e n x else ((fst (core_exec e n x))[r := v], snd (core_exec e n x)))"
  using exec_changed [OF assms(2) _ assms(3,4), of "snd x" n "fst x" v] assms(1)
  by (simp add: ignores_def overwrites_def instruction_at_def)

lemma exec_core_board [simp]: "exec (core_board e) = core_exec e"
  by (simp add: core_board_def)

lemma run_changed:
  assumes "reads_alone e" "idle_ram e" "r \<noteq> 0" "\<forall>k < n. ignores e r (run_from (core_board e) c k (R, s))"
  shows "run_from (core_board e) c n (R[r := v], s) = (let x = run_from (core_board e) c n (R, s) in
    if \<exists>k < n. overwrites e r (run_from (core_board e) c k (R, s)) then x else ((fst x)[r := v], snd x))"
  using assms(4)
proof (induction n)
  case (Suc n)
  let ?x = "run_from (core_board e) c n (R, s)"
  have x: "ignores e r ?x" using Suc.prems by auto
  show ?case
    using Suc ignoring_step [OF x assms(3,1,2), of "c + of_nat n" v]
    by (auto simp: Let_def less_Suc_eq)
qed simp

lemma run_flipped:
  assumes "reads_alone e" "idle_ram e" "\<forall>k < n. ignores e r (run_from (core_board e) c k (R, s))"
    "\<exists>k < n. overwrites e r (run_from (core_board e) c k (R, s))"
  shows "run_from (core_board e) c n (xor_reg r m R, s) = run_from (core_board e) c n (R, s)"
  using run_changed [OF assms(1,2) _ assms(3)] assms(4) by (auto simp: xor_reg_def Let_def)

section \<open>An injection whose fault is masked\<close>

text \<open>
  a fault that the program on the core masks.  When the instructions after the injection do not
  read the register until one of them overwrites it, the core is, that many instructions later,
  in the state it would have reached without the injection.
\<close>

theorem masked_injection:
  fixes cfg :: inject_cfg and e :: "'m rv_env" and b :: "'m rv_core board" and sched host :: "nat \<Rightarrow> nat"
  assumes "\<forall>n. 0 < sched n" "host_listens host" "reads_alone e" "idle_ram e"
  defines "f \<equiv> core_board e"
  defines "io \<equiv> board_io f sched" and "uart \<equiv> board_uart f sched host" and "delay \<equiv> unat (delay_loaded cfg b)"
  defines "armed \<equiv> load_delay io cfg b" and "r \<equiv> unat (INJECT_ADDRESS cfg AND 0x7FFF) mod 32"
  defines "golden k \<equiv> run_core f (delay + k) (b_regs armed, b_rest armed)"
  assumes "\<forall>k < n. ignores e r (golden k)" "\<exists>k < n. overwrites e r (golden k)"
  shows "\<exists>stalled faulted. wait_stall io (io_write io 0x5010 0x20 armed) = Some stalled
    \<and> inject_fault io uart cfg stalled = Some faulted
    \<and> run_from f (of_nat delay) n (b_regs faulted, b_rest faulted) = golden n"
proof -
  obtain st fa i where st: "wait_stall io (io_write io 0x5010 0x20 armed) = Some st"
      "(b_regs st, b_rest st) = run_core f delay (b_regs armed, b_rest armed)"
    and fa: "inject_fault io uart cfg st = Some fa" "b_rest fa = b_rest st"
      "b_regs fa = xor_reg r (flipped_bits sched i cfg) (b_regs st)"
    using injection_flips_ok [where f = f and b = b and cfg = cfg and sched = sched, OF assms(1,2),
        folded io_def uart_def, folded armed_def delay_def r_def] by blast
  let ?m = "flipped_bits sched i cfg"
  have g: "golden k = run_from f (of_nat delay) k (b_regs st, b_rest st)" for k
    unfolding golden_def st(2) by (rule run_from_run_core [symmetric])
  have "run_from f (of_nat delay) n (xor_reg r ?m (b_regs st), b_rest st) = run_from f (of_nat delay) n (b_regs st, b_rest st)"
    using assms(12,13) unfolding g f_def by (intro run_flipped [OF assms(3,4)])
  then have "run_from f (of_nat delay) n (b_regs fa, b_rest fa) = golden n" by (simp add: fa g)
  then show ?thesis using st(1) fa(1) by blast
qed

text \<open>A program that sets register 31 again and again.\<close>

abbreviation demo_program :: "unit rv_env" where
  "demo_program \<equiv> one_instruction 0x00100f93"

lemma demo_word: "sources 0x00100f93 = {0}" "target 0x00100f93 = Some 31"
  by (simp_all add: sources_def target_def field_def)

lemma demo_masks: "ignores demo_program 31 x" "overwrites demo_program 31 x"
  by (simp_all add: ignores_def overwrites_def instruction_at_def one_instruction_def demo_word)

definition demo_rv_board :: "unit rv_core board" where
  "demo_rv_board = \<lparr>b_control = 0, b_addr = 0, b_high = 0, b_low = 0, b_regs = replicate 32 0, b_rest = at_start,
     b_cycles = 0, b_stall_at = 0, b_ebreak = False, b_console = [], b_room = 64, b_ops = 0\<rparr>"

theorem masked_injection_witness:
  "let f = core_board demo_program; io = board_io f (\<lambda>_. 3); armed = load_delay io inject_values demo_rv_board;
       delay = unat (delay_loaded inject_values demo_rv_board) in
    \<exists>stalled faulted. wait_stall io (io_write io 0x5010 0x20 armed) = Some stalled
      \<and> inject_fault io (board_uart f (\<lambda>_. 3) (\<lambda>_. 1)) inject_values stalled = Some faulted
      \<and> run_from f (of_nat delay) 1 (b_regs faulted, b_rest faulted) = run_core f (delay + 1) (b_regs armed, b_rest armed)"
proof -
  have "reads_alone demo_program" by (simp add: reads_alone_def one_instruction_def)
  then show ?thesis
    unfolding Let_def
    by (intro masked_injection) (simp_all add: inject_cfg_values demo_masks idle_one_instruction demo_host [simplified])
qed

end
