(* ===== verification/Report.thy ===== *)
theory Report
  imports CoreMem
begin

text \<open>
  What the injection program prints when the run is over, \<open>print_results\<close> and \<open>dump_memory\<close> of
  theory Inject, on the board with the core of theory Core: the text is the state the core was
  in when the program took hold of it, its whole data memory included.
\<close>

section \<open>The text\<close>

definition halves :: "u8 list \<Rightarrow> u64 \<Rightarrow> u8 list" where
  "halves sep x = bytes_of ''0x'' @ hex_text (ucast (drop_bit 32 x)) @ sep @ hex_text (ucast x)"

definition dump_line :: "nat \<Rightarrow> u64 \<Rightarrow> u8 list" where
  "dump_line k x = bytes_of ''0x'' @ hex_text (of_nat k) @ bytes_of '':'' @ halves (bytes_of ''_0x'') x @ bytes_of '',''"

definition dump_text :: "(nat \<Rightarrow> u64) \<Rightarrow> u8 list" where
  "dump_text w = bytes_of ''||memdump||'' @ concat (map (\<lambda>k. dump_line k (w k)) [0..<4096]) @ [10]"

definition results_text :: "bool \<Rightarrow> u64 \<Rightarrow> u64 \<Rightarrow> u32 \<Rightarrow> u8 list" where
  "results_text in_time pc a0 duration =
     bytes_of ''PC:'' @ halves (bytes_of ''_'') pc @ bytes_of '',result(reg a0):''
     @ (if in_time then halves (bytes_of ''_'') a0 else bytes_of ''dnf'')
     @ bytes_of '',duration:0x'' @ hex_text duration"

lemma formats:
  "printf_text (bytes_of ''PC:0x%x_%x,'') [Num (ucast (drop_bit 32 x)), Num (ucast x)]
    = Some (bytes_of ''PC:'' @ halves (bytes_of ''_'') x @ bytes_of '','')"
  "printf_text (bytes_of ''result(reg a0):0x%x_%x,'') [Num (ucast (drop_bit 32 x)), Num (ucast x)]
    = Some (bytes_of ''result(reg a0):'' @ halves (bytes_of ''_'') x @ bytes_of '','')"
  "printf_text (bytes_of ''result(reg a0):dnf,'') [] = Some (bytes_of ''result(reg a0):dnf,'')"
  "printf_text (bytes_of ''duration:0x%x'') [Num v] = Some (bytes_of ''duration:0x'' @ hex_text v)"
  "printf_text (bytes_of ''||memdump||'') [] = Some (bytes_of ''||memdump||'')"
  "printf_text (bytes_of ''0x%x:0x%x_0x%x,'') [Num (of_nat k), Num (ucast (drop_bit 32 x)), Num (ucast x)]
    = Some (dump_line k x)"
  "printf_text [10] [] = Some [10]"
  by (simp_all add: bytes_of_def of_char_def halves_def dump_line_def)

section \<open>While the core is held\<close>

lemma quiet_printf:
  assumes "quiet b" "same_core b c" "host_listens host" "printf_text fmt args = Some t"
  shows "\<exists>d. alt_printf (alt_putchar (board_uart f sched host)) fmt args c = Some d \<and> same_core b d
    \<and> b_console d = b_console c @ t"
  using char_sink.printf_emits [OF quiet_sink [OF assms(1,3), of f sched] assms(4)] assms(2)
  unfolding char_sink.emits_def [OF quiet_sink [OF assms(1,3)]] by simp

lemma quiet_print_data:
  assumes "quiet b" "same_core b c" "host_listens host"
    and "printf_text fmt [Num (ucast (drop_bit 32 (data_in f b))), Num (ucast (data_in f b))] = Some t"
  shows "\<exists>d. print_data (board_io f sched) (board_uart f sched host) fmt c = Some d \<and> same_core b d
    \<and> b_console d = b_console c @ t"
proof -
  have q: "quiet c" "\<And>n. quiet (c\<lparr>b_ops := n\<rparr>)" using same_core_quiet [OF assms(2,1)] by (simp_all add: quiet_def held_def)
  obtain u r n where c: "c = b\<lparr>b_console := u, b_room := r, b_ops := n\<rparr>" "b_ops b \<le> n"
    using assms(2) unfolding same_core_def by blast
  have d: "data_in f c = data_in f b" by (simp add: c(1) data_in_def b_index_def debug_csr_def cong: if_cong)
  have d2: "data_in f (c\<lparr>b_ops := n\<rparr>) = data_in f c" for n
    by (simp add: data_in_def b_index_def debug_csr_def cong: if_cong)
  have sc: "same_core b (c\<lparr>b_ops := b_ops c + 2\<rparr>)" using c(2) by (simp add: c(1) same_core_def)
  show ?thesis
    using quiet_printf [OF assms(1) sc assms(3,4), of f sched] q
    by (simp add: print_data_def board_io_def elapse_quiet get_port_def d d2)
qed

lemma write_console [simp]: "b_console (io_write (board_io f sched) a v b) = b_console b"
  by (simp add: board_io_def set_port_def settle_def Let_def)

lemma results_shown:
  fixes cfg :: inject_cfg
  assumes "b_high b = 0" "b_low b = 0" "host_listens host"
  defines "h \<equiv> b\<lparr>b_control := 2, b_stall_at := 0, b_addr := 0xa\<rparr>"
  shows "\<exists>c. print_results (board_io f sched) (board_uart f sched host) cfg duration b = Some c \<and> same_core h c
    \<and> b_console c = b_console b @ results_text (\<not> PROGRAM_MAX_DURATION cfg < duration) (pc_of f (b_rest b)) (b_regs b ! 10) duration"
proof -
  let ?io = "board_io f sched" and ?ua = "board_uart f sched host"
  let ?q0 = "b\<lparr>b_control := 2, b_stall_at := 0\<rparr>" and ?q1 = "b\<lparr>b_control := 2, b_stall_at := 0, b_addr := 0x20\<rparr>"
  note h0 = take_hold [OF assms(1,2)]
  have h1: "same_core ?q1 (io_write ?io 0x5020 0x20 (io_write ?io 0x5010 2 b))" "quiet ?q1"
    using write_quiet [OF h0(2) h0(1), of "0x20"] by simp_all
  have "data_in f ?q1 = pc_of f (b_rest b)" by (simp add: data_in_def bit_iff_odd)
  then obtain c1 where c1: "print_data ?io ?ua (bytes_of ''PC:0x%x_%x,'')
      (io_write ?io 0x5020 0x20 (io_write ?io 0x5010 2 b)) = Some c1" "same_core ?q1 c1"
      "b_console c1 = b_console b @ bytes_of ''PC:'' @ halves (bytes_of ''_'') (pc_of f (b_rest b)) @ bytes_of '',''"
    using quiet_print_data [OF h1(2,1) assms(3) formats(1), where f = f and sched = sched] by auto
  have h2: "same_core h (io_write ?io 0x5020 0xa c1)" "quiet h"
    using write_quiet [OF h1(2) c1(2), of "0xa"] by (simp_all add: h_def)
  have d2: "data_in f h = b_regs b ! 10" by (simp add: data_in_def bit_iff_odd h_def b_index_def)
  obtain c2 where c2: "(if PROGRAM_MAX_DURATION cfg < duration
      then alt_printf (alt_putchar ?ua) (bytes_of ''result(reg a0):dnf,'') [] (io_write ?io 0x5020 0xa c1)
      else print_data ?io ?ua (bytes_of ''result(reg a0):0x%x_%x,'') (io_write ?io 0x5020 0xa c1)) = Some c2"
      "same_core h c2" "b_console c2 = b_console c1 @ bytes_of ''result(reg a0):''
        @ (if PROGRAM_MAX_DURATION cfg < duration then bytes_of ''dnf,'' else halves (bytes_of ''_'') (b_regs b ! 10) @ bytes_of '','')"
    using quiet_printf [OF h2(2,1) assms(3) formats(3), where f = f and sched = sched] quiet_print_data [OF h2(2,1) assms(3) formats(2), where f = f and sched = sched]
    by (cases "PROGRAM_MAX_DURATION cfg < duration") (auto simp: d2 bytes_of_def)
  obtain c3 where c3: "alt_printf (alt_putchar ?ua) (bytes_of ''duration:0x%x'') [Num duration] c2 = Some c3"
      "same_core h c3" "b_console c3 = b_console c2 @ bytes_of ''duration:0x'' @ hex_text duration"
    using quiet_printf [OF h2(2) c2(2) assms(3) formats(4)] by blast
  have "b_console c3 = b_console b
      @ results_text (\<not> PROGRAM_MAX_DURATION cfg < duration) (pc_of f (b_rest b)) (b_regs b ! 10) duration"
    by (cases "PROGRAM_MAX_DURATION cfg < duration")
      (simp_all add: c1(3) c2(3) c3(3) results_text_def bytes_of_def)
  with c3(2) show ?thesis
    unfolding print_results_def Let_def c1(1) bind.bind_lunit c2(1) c3(1) by blast
qed

section \<open>The memory dump\<close>

text \<open>The debug port reads the memory, whose doublewords are \<open>w\<close>.\<close>

definition dumping :: "(nat \<Rightarrow> 'm \<Rightarrow> u64) \<Rightarrow> (nat \<Rightarrow> u64) \<Rightarrow> 'm rv_core board \<Rightarrow> bool" where
  "dumping word w b \<longleftrightarrow> b_control b = 8 \<and> (\<forall>a. word a (dmem (b_rest b)) = w a)"

definition shown :: "'m rv_env \<Rightarrow> (nat \<Rightarrow> u64) \<Rightarrow> 'm rv_core board \<Rightarrow> bool" where
  "shown e w b \<longleftrightarrow> ram_q e (dmem (b_rest b)) = w (field 14 3 (ucast (b_addr b) :: u64))"

lemma clock_dumping:
  assumes "sync_ram e word" "dumping word w b"
  shows "dumping word w (clock (core_board e) b)" "b_addr (clock (core_board e) b) = b_addr b"
    "shown e w (clock (core_board e) b)"
  using assms unfolding sync_ram_def dumping_def shown_def
  by (simp_all add: clock_def halted_def cycle_stall_def settle_def debug_mem_def core_board_def dmem_edge_def
      split_beta Let_def bit_iff_odd)

lemma clocks_dumping:
  assumes "sync_ram e word" "dumping word w b"
  shows "dumping word w ((clock (core_board e) ^^ n) b) \<and> b_addr ((clock (core_board e) ^^ n) b) = b_addr b
    \<and> (0 < n \<longrightarrow> shown e w ((clock (core_board e) ^^ n) b))"
  using assms(2) by (induction n) (auto simp: clock_dumping [OF assms(1)])

lemma elapse_dumping:
  assumes "sync_ram e word" "\<forall>n. 0 < sched n" "dumping word w b"
  shows "dumping word w (elapse (core_board e) sched b)" "b_addr (elapse (core_board e) sched b) = b_addr b"
    "shown e w (elapse (core_board e) sched b)"
  using clocks_dumping [OF assms(1), of w "b\<lparr>b_ops := b_ops b + 1\<rparr>" "sched (b_ops b)"] assms(2,3)
  by (simp_all add: elapse_def dumping_def shown_def)

lemma dump_keeps:
  fixes e :: "'m rv_env"
  assumes "sync_ram e word" "\<forall>n. 0 < sched n"
  shows "kept_by (dumping word w) (board_uart (core_board e) sched host)"
  unfolding kept_by_def
proof (intro allI impI)
  fix b :: "'m rv_core board"
  assume "dumping word w b"
  then have "dumping word w (elapse (core_board e) sched (b\<lparr>b_room := r\<rparr>))"
    "dumping word w (elapse (core_board e) sched (b\<lparr>b_console := t, b_room := r\<rparr>))" for t r
    by (intro elapse_dumping(1) [OF assms]; simp add: dumping_def)+
  then show "dumping word w (snd (hw_control (board_uart (core_board e) sched host) b))
      \<and> (\<forall>c. dumping word w (hw_put_data (board_uart (core_board e) sched host) c b))"
    by (simp add: board_uart_def host_reads_def Let_def)
qed

lemma dump_sink:
  fixes e :: "'m rv_env"
  assumes "sync_ram e word" "\<forall>n. 0 < sched n" "host_listens host"
  shows "char_sink (alt_putchar (board_uart (core_board e) sched host)) b_console (dumping word w)"
  by (rule putchar_keeps [OF board_logs board_grants [OF assms(3)] dump_keeps [OF assms(1,2)]])

lemma dump_printf:
  assumes "sync_ram e word" "\<forall>n. 0 < sched n" "host_listens host" "dumping word w b" "printf_text fmt args = Some t"
  shows "\<exists>c. alt_printf (alt_putchar (board_uart (core_board e) sched host)) fmt args b = Some c \<and> dumping word w c
    \<and> b_console c = b_console b @ t"
  using char_sink.printf_emits [OF dump_sink [OF assms(1-3), where w = w] assms(5)] assms(4)
  unfolding char_sink.emits_def [OF dump_sink [OF assms(1-3)]] by simp

lemma write_dumping:
  fixes v :: u32
  assumes "sync_ram e word" "\<forall>n. 0 < sched n" "dumping word w b"
  defines "c \<equiv> io_write (board_io (core_board e) sched) 0x5020 v b"
  shows "dumping word w c" "b_addr c = v AND 0x7FFF" "shown e w c"
proof -
  have "settle (core_board e) (set_port 0x5020 v b) = b\<lparr>b_addr := v AND 0x7FFF, b_stall_at := 0\<rparr>"
    using assms(3) by (simp add: set_port_def settle_def dumping_def bit_iff_odd)
  then have c: "c = elapse (core_board e) sched (b\<lparr>b_addr := v AND 0x7FFF, b_stall_at := 0\<rparr>)"
    by (simp add: c_def board_io_def)
  have d: "dumping word w (b\<lparr>b_addr := v AND 0x7FFF, b_stall_at := 0\<rparr>)" using assms(3) by (simp add: dumping_def)
  show "dumping word w c" "b_addr c = v AND 0x7FFF" "shown e w c"
    using elapse_dumping [OF assms(1,2) d] by (simp_all add: c)
qed

lemma data_dumping: "dumping word w b \<Longrightarrow> shown e w b \<Longrightarrow> data_in (core_board e) b = w (field 14 3 (ucast (b_addr b) :: u64))"
  by (simp add: data_in_def dumping_def shown_def core_board_def bit_iff_odd)

lemma dump_address:
  assumes "k < 4096"
  shows "(of_nat (8 * k) :: u32) AND 0x7FFF = of_nat (8 * k)" "field 14 3 (ucast (of_nat (8 * k) :: u32) :: u64) = k"
    "drop_bit 3 (of_nat (8 * k) :: u32) = of_nat k" "unat (of_nat (8 * k) :: u32) = 8 * k"
proof -
  show u: "unat (of_nat (8 * k) :: u32) = 8 * k" using assms by (intro unat_u32_small) simp
  have k: "unat (of_nat k :: u32) = k" using assms by (intro unat_u32_small) simp
  have "(of_nat (8 * k) :: u32) AND mask 15 = of_nat (8 * k)"
    unfolding word_unat_eq_iff by (use assms in \<open>simp add: u take_bit_eq_mask [symmetric] unsigned_take_bit_eq take_bit_nat_eq_self del: of_nat_mult\<close>)
  then show "(of_nat (8 * k) :: u32) AND 0x7FFF = of_nat (8 * k)" by (simp add: mask_numeral)
  show "field 14 3 (ucast (of_nat (8 * k) :: u32) :: u64) = k"
    unfolding field_div using assms by (simp add: unsigned_ucast_eq u take_bit_nat_eq_self del: of_nat_mult)
  show "drop_bit 3 (of_nat (8 * k) :: u32) = of_nat k"
    unfolding word_unat_eq_iff unat_drop_bit_eq u k by (simp add: drop_bit_eq_div)
qed

lemma dump_word_shown:
  fixes e :: "'m rv_env"
  assumes "sync_ram e word" "\<forall>n. 0 < sched n" "dumping word w b" "k < 4096" "host_listens host"
  shows "\<exists>c. dump_word (board_io (core_board e) sched) (board_uart (core_board e) sched host) (of_nat (8 * k)) b = Some c
    \<and> dumping word w c \<and> b_console c = b_console b @ dump_line k (w k)"
proof -
  let ?io = "board_io (core_board e) sched" and ?i = "of_nat (8 * k) :: u32"
  define h where "h = io_write ?io 0x5020 ?i (io_write ?io 0x5020 ?i b)"
  note i = dump_address [OF assms(4)]
  have h: "dumping word w h" "b_addr h = ?i" "shown e w h"
    using write_dumping [OF assms(1,2) write_dumping(1) [OF assms(1-3)]] by (simp_all add: h_def i(1) del: of_nat_mult)
  define h2 where "h2 = elapse (core_board e) sched h"
  define h3 where "h3 = elapse (core_board e) sched h2"
  have h2: "dumping word w h2" "b_addr h2 = ?i" "shown e w h2"
    using elapse_dumping [OF assms(1,2) h(1)] by (simp_all add: h2_def h(2) del: of_nat_mult)
  have h3: "dumping word w h3" using elapse_dumping(1) [OF assms(1,2) h2(1)] by (simp add: h3_def)
  have "data_in (core_board e) h = w k" "data_in (core_board e) h2 = w k"
    using data_dumping [OF h(1,3)] data_dumping [OF h2(1,3)] by (simp_all add: h(2) h2(2) i(2) del: of_nat_mult)
  then have d: "io_read ?io 0x5030 h = (ucast (drop_bit 32 (w k)), h2)" "io_read ?io 0x5040 h2 = (ucast (w k), h3)"
    by (simp_all add: board_io_def get_port_def h2_def h3_def)
  have con: "b_console h3 = b_console b" by (simp add: h3_def h2_def h_def)
  show ?thesis
    using dump_printf [OF assms(1,2,5) h3 formats(6) [of k "w k"]]
    unfolding dump_word_def Let_def h_def [symmetric] d prod.case i(3) con by simp
qed

lemma dump_loop_shown:
  fixes e :: "'m rv_env"
  assumes "sync_ram e word" "\<forall>n. 0 < sched n" "dumping word w b" "k \<le> 4096" "host_listens host"
  shows "\<exists>c. dump_loop (board_io (core_board e) sched) (board_uart (core_board e) sched host) (of_nat (8 * k)) b = Some c
    \<and> dumping word w c \<and> b_console c = b_console b @ concat (map (\<lambda>k. dump_line k (w k)) [k..<4096])"
  using assms(3,4)
proof (induction "4096 - k" arbitrary: k b)
  case 0
  then have "k = 4096" by simp
  then show ?case using "0.prems" by (subst dump_loop.simps) simp
next
  case (Suc n)
  then have k: "k < 4096" by simp
  have less: "(of_nat (8 * k) :: u32) < 0x8000"
    using k by (simp add: word_less_nat_alt dump_address(4) [OF k] del: of_nat_mult)
  obtain c where c: "dump_word (board_io (core_board e) sched) (board_uart (core_board e) sched host) (of_nat (8 * k)) b = Some c"
      "dumping word w c" "b_console c = b_console b @ dump_line k (w k)"
    using dump_word_shown [OF assms(1,2) Suc.prems(1) k assms(5)] by blast
  have n: "n = 4096 - Suc k" and sk: "Suc k \<le> 4096" using Suc.hyps(2) k by simp_all
  have i: "(of_nat (8 * k) :: u32) + 8 = of_nat (8 * Suc k)" by simp
  obtain d where d: "dump_loop (board_io (core_board e) sched) (board_uart (core_board e) sched host) (of_nat (8 * Suc k)) c = Some d"
      "dumping word w d" "b_console d = b_console c @ concat (map (\<lambda>k. dump_line k (w k)) [Suc k..<4096])"
    using Suc.hyps(1) [OF n c(2) sk] by blast
  have "dump_loop (board_io (core_board e) sched) (board_uart (core_board e) sched host) (of_nat (8 * k)) b = Some d"
    unfolding dump_loop.simps [of _ _ "of_nat (8 * k)" b] if_P [OF less] c(1) bind.bind_lunit i by (rule d(1))
  moreover have "[k..<4096] = k # [Suc k..<4096]" using k by (rule upt_conv_Cons)
  ultimately show ?case using c(3) d(2,3) by simp
qed

section \<open>The report\<close>

text \<open>Taking the core from register access to memory access.\<close>

lemma start_dumping:
  fixes e :: "'m rv_env"
  assumes "sync_ram e word" "\<forall>n. 0 < sched n" "\<forall>a. word a (dmem (b_rest b)) = w a"
  shows "dumping word w (io_write (board_io (core_board e) sched) 0x5010 8 b)"
proof -
  have "dumping word w (b\<lparr>b_control := 8, b_stall_at := 0\<rparr>)" using assms(3) by (simp add: dumping_def)
  moreover have "settle (core_board e) (set_port 0x5010 8 b) = b\<lparr>b_control := 8, b_stall_at := 0\<rparr>"
    by (simp add: set_port_def settle_def bit_iff_odd)
  ultimately show ?thesis using elapse_dumping(1) [OF assms(1,2)] by (simp add: board_io_def)
qed

lemma dump_shown:
  fixes e :: "'m rv_env"
  assumes "sync_ram e word" "\<forall>n. 0 < sched n" "\<forall>a. word a (dmem (b_rest b)) = w a" "quiet b" "host_listens host"
  shows "\<exists>c. dump_memory (board_io (core_board e) sched) (board_uart (core_board e) sched host) b = Some c
    \<and> b_console c = b_console b @ dump_text w"
proof -
  let ?f = "core_board e"
  have "same_core b b" by (simp add: same_core_def)
  then obtain c1 where c1: "alt_printf (alt_putchar (board_uart ?f sched host)) (bytes_of ''||memdump||'') [] b = Some c1"
      "same_core b c1" "b_console c1 = b_console b @ bytes_of ''||memdump||''"
    using quiet_printf [OF assms(4) _ assms(5) formats(5)] by blast
  have "dumping word w (io_write (board_io ?f sched) 0x5010 8 c1)"
    using start_dumping [OF assms(1,2)] assms(3) same_coreD(2) [OF c1(2)] by simp
  from dump_loop_shown [OF assms(1,2) this _ assms(5), of 0]
  obtain c2 where c2: "dump_loop (board_io ?f sched) (board_uart ?f sched host) 0 (io_write (board_io ?f sched) 0x5010 8 c1) = Some c2"
      "dumping word w c2" "b_console c2 = b_console c1 @ concat (map (\<lambda>k. dump_line k (w k)) [0..<4096])"
    by (auto simp del: upt_conv_Cons)
  obtain c3 where "alt_printf (alt_putchar (board_uart ?f sched host)) [10] [] c2 = Some c3" "b_console c3 = b_console c2 @ [10]"
    using dump_printf [OF assms(1,2,5) c2(2) formats(7)] by blast
  then show ?thesis
    unfolding dump_memory_def Let_def c1(1) bind.bind_lunit c2(1) using c1(3) c2(3) by (simp add: dump_text_def)
qed

text \<open>
  From any board with clear data ports, whatever the core is doing, the two output functions print
  the state the core is in.
\<close>

lemma report_shown:
  fixes e :: "'m rv_env" and cfg :: inject_cfg and b :: "'m rv_core board" and duration :: u32
  assumes "b_high b = 0" "b_low b = 0" "\<forall>n. 0 < sched n" "sync_ram e word" "host_listens host"
  defines "io \<equiv> board_io (core_board e) sched" and "uart \<equiv> board_uart (core_board e) sched host"
  shows "\<exists>c d. print_results io uart cfg duration b = Some c \<and> dump_memory io uart c = Some d
    \<and> b_console d = b_console b
      @ results_text (\<not> PROGRAM_MAX_DURATION cfg < duration) (PC (b_rest b)) (b_regs b ! 10) duration
      @ dump_text (\<lambda>a. word a (dmem (b_rest b)))"
proof -
  let ?h = "b\<lparr>b_control := 2, b_stall_at := 0, b_addr := 0xa\<rparr>"
  obtain c where c: "print_results io uart cfg duration b = Some c" "same_core ?h c"
      "b_console c = b_console b
        @ results_text (\<not> PROGRAM_MAX_DURATION cfg < duration) (PC (b_rest b)) (b_regs b ! 10) duration"
    using results_shown [OF assms(1,2,5), of "core_board e" sched cfg duration]
    by (auto simp: io_def uart_def core_board_def)
  have "quiet ?h" using assms(1,2) by (simp add: quiet_def held_def)
  then have q: "quiet c" by (rule same_core_quiet [OF c(2)])
  have "\<forall>a. word a (dmem (b_rest c)) = word a (dmem (b_rest b))" using same_coreD(2) [OF c(2)] by simp
  from dump_shown [OF assms(4,3) this q assms(5)] c show ?thesis by (auto simp: io_def uart_def)
qed

text \<open>The wait for the end leaves the data ports alone.\<close>

lemma ports_clock: "b_high (clock f b) = b_high b" "b_low (clock f b) = b_low b"
  by (simp_all add: clock_def settle_def split_beta Let_def)

lemma ports_elapse: "b_high (elapse f sched b) = b_high b" "b_low (elapse f sched b) = b_low b"
proof -
  have "b_high ((clock f ^^ n) b) = b_high b \<and> b_low ((clock f ^^ n) b) = b_low b" for n b
    by (induction n) (simp_all add: ports_clock)
  then show "b_high (elapse f sched b) = b_high b" "b_low (elapse f sched b) = b_low b" by (simp_all add: elapse_def)
qed

lemma ports_poll:
  "b_high (poll (board_io f sched) n b) = b_high b" "b_low (poll (board_io f sched) n b) = b_low b"
  by (induction n arbitrary: b) (simp_all add: poll_def board_io_def ports_elapse)

lemma ports_release:
  "b_high (io_write (board_io f sched) 0x5010 0 b) = b_high b" "b_low (io_write (board_io f sched) 0x5010 0 b) = b_low b"
  by (simp_all add: board_io_def ports_elapse set_port_def settle_def Let_def)

text \<open>
  C4: The output of a run is the state of the core.  Whatever the core executes and whatever the board
  did before, the injection program comes from the delay over the injection to the wait for the
  end.  If that wait is over, what the program prints last is the program counter, register \<open>a0\<close> (or
  that the program did not finish in time), the duration and every doubleword of the data memory
  as they are at the end of the wait: the program stops the core at once, and reads all of it
  through the debug port without changing anything.  If the wait is not over, which theory Board
  shows to be possible for the limit \<open>0xFFFFFFFF\<close> only, \<open>main\<close> does not return.  It is assumed that every
  access takes at least one clock edge, that the host keeps reading the console, and that the data
  memory is a synchronous one: a read gives the doubleword at the address one edge later, a write
  changes that doubleword alone.
\<close>

theorem main_reports_core:
  fixes e :: "'m rv_env" and cfg :: inject_cfg and b :: "'m rv_core board" and sched host :: "nat \<Rightarrow> nat"
  assumes "\<forall>n. 0 < sched n" "host_listens host" "sync_ram e word"
  defines "io \<equiv> board_io (core_board e) sched" and "uart \<equiv> board_uart (core_board e) sched host"
    and "limit \<equiv> PROGRAM_MAX_DURATION cfg"
  shows "\<exists>stalled faulted. wait_stall io (io_write io 0x5010 0x20 (load_delay io cfg b)) = Some stalled
    \<and> inject_fault io uart cfg stalled = Some faulted
    \<and> (case wait_finish io limit 0 (io_write io 0x5010 0 faulted) of
         None \<Rightarrow> hello_world_small_main cfg io uart b = None
       | Some (duration, finished) \<Rightarrow> \<exists>shown. hello_world_small_main cfg io uart b = Some (duration, shown)
         \<and> b_console shown = b_console finished
           @ results_text (\<not> limit < duration) (PC (b_rest finished)) (b_regs finished ! 10) duration
           @ dump_text (\<lambda>a. word a (dmem (b_rest finished))))"
proof -
  obtain c1 where c1: "wait_stall io (io_write io 0x5010 0x20 (load_delay io cfg b)) = Some c1" "b_high c1 = 0" "b_low c1 = 0"
    using arm_and_stall [where sched = sched and f = "core_board e" and cfg = cfg, OF assms(1)]
    unfolding running_def io_def by blast
  obtain c2 where c2: "inject_fault io uart cfg c1 = Some c2" "quiet c2"
    using inject_fault_ok [where sched = sched and f = "core_board e" and cfg = cfg, OF c1(2,3) assms(2)]
    unfolding io_def uart_def by blast
  let ?h = "io_write io 0x5010 0 c2"
  show ?thesis
  proof (cases "\<exists>n. first_stop (\<lambda>j. ended io (poll io j ?h)) limit n")
    case False
    then show ?thesis using c1(1) c2(1) by (simp add: hello_world_small_main_def limit_def wait_finish_forever)
  next
    case True
    then obtain n where "first_stop (\<lambda>j. ended io (poll io j ?h)) limit n" by blast
    note c3 = wait_finish_first_stop [OF this]
    let ?c = "poll io (n + 1) ?h"
    have "b_high ?c = 0" "b_low ?c = 0"
      using c2(2) unfolding io_def by (simp_all only: ports_poll ports_release quiet_def)
    from report_shown [OF this assms(1,3,2), of cfg "of_nat n"]
    obtain d g where "print_results io uart cfg (of_nat n) ?c = Some d" "dump_memory io uart d = Some g"
        "b_console g = b_console ?c @ results_text (\<not> limit < of_nat n) (PC (b_rest ?c)) (b_regs ?c ! 10) (of_nat n)
          @ dump_text (\<lambda>a. word a (dmem (b_rest ?c)))"
      unfolding io_def uart_def limit_def by blast
    then show ?thesis using c1(1) c2(1) c3 by (simp add: hello_world_small_main_def limit_def)
  qed
qed

definition ram_board :: "((nat \<Rightarrow> u64) \<times> u64) rv_core board" where
  "ram_board = \<lparr>b_control = 0, b_addr = 0, b_high = 0, b_low = 0, b_regs = replicate 32 0, b_rest = ram_start,
     b_cycles = 0, b_stall_at = 0, b_ebreak = False, b_console = [], b_room = 64, b_ops = 0\<rparr>"

theorem main_reports_core_witness:
  "let f = core_board (registered_ram (\<lambda>_. 0x00100f93)); io = board_io f (\<lambda>_. 3); uart = board_uart f (\<lambda>_. 3) (\<lambda>_. 1) in
    \<exists>faulted duration finished shown.
      wait_finish io 10682 0 (io_write io 0x5010 0 faulted) = Some (duration, finished)
      \<and> hello_world_small_main inject_values io uart ram_board = Some (duration, shown)
      \<and> b_console shown = b_console finished
        @ results_text (\<not> 10682 < duration) (PC (b_rest finished)) (b_regs finished ! 10) duration
        @ dump_text (\<lambda>a. fst (dmem (b_rest finished)) a)"
proof -
  have h: "PROGRAM_MAX_DURATION inject_values = 10682" by (simp add: inject_values_def)
  define f where "f = core_board (registered_ram (\<lambda>_. 0x00100f93))"
  define io where "io = board_io f (\<lambda>_. 3)"
  define uart where "uart = board_uart f (\<lambda>_. 3) (\<lambda>_. 1)"
  note m = main_reports_core [OF _ demo_host registered_ram_sync, where sched = "\<lambda>_. 3" and cfg = inject_values
      and b = ram_board, of "\<lambda>_. 0x00100f93", folded f_def, folded io_def uart_def, unfolded h]
  from m obtain faulted where c: "case wait_finish io 10682 0 (io_write io 0x5010 0 faulted) of
         None \<Rightarrow> hello_world_small_main inject_values io uart ram_board = None
       | Some (duration, finished) \<Rightarrow> \<exists>shown. hello_world_small_main inject_values io uart ram_board = Some (duration, shown)
         \<and> b_console shown = b_console finished
           @ results_text (\<not> 10682 < duration) (PC (b_rest finished)) (b_regs finished ! 10) duration
           @ dump_text (\<lambda>a. fst (dmem (b_rest finished)) a)"
    by (meson zero_less_numeral)
  obtain r where r: "wait_finish io 10682 0 (io_write io 0x5010 0 faulted) = Some r"
    using first_stop_exists [of "\<lambda>j. ended io (poll io j (io_write io 0x5010 0 faulted))" 10682]
      wait_finish_first_stop [of io "io_write io 0x5010 0 faulted" 10682] by fastforce
  show ?thesis
    using c r unfolding Let_def f_def [symmetric] io_def [symmetric] uart_def [symmetric] by (cases r) auto
qed

end
