(* ===== verification/Silent.thy ===== *)
theory Silent
  imports Faults Report
begin

text \<open>
  Two runs of the injection program on boards that start alike, one with a fault and one with an
  empty mask, where every access of the program to the outside takes the same number \<open>k\<close> of clock
  edges: while the core runs freely it does the same in both, and so does what is printed.
\<close>

section \<open>A core that runs freely\<close>

lemma clock_released:
  assumes "b_control b = 0"
  shows "b_control (clock f b) = 0" "b_cycles (clock f b) = b_cycles b + 1"
    "(b_regs (clock f b), b_rest (clock f b)) = exec f (b_cycles b) (b_regs b, b_rest b)"
    "b_ebreak (clock f b) \<longleftrightarrow> b_ebreak b \<or> ebreak_now f (b_rest b)"
  using assms by (simp_all add: clock_def settle_def halted_def cycle_stall_def next_ebreak_def split_beta Let_def)

lemma clocks_released:
  fixes f :: "'x core_fns"
  assumes "b_control b = 0"
  defines "x m \<equiv> run_from f (b_cycles b) m (b_regs b, b_rest b)"
  shows "b_control ((clock f ^^ m) b) = 0 \<and> b_cycles ((clock f ^^ m) b) = b_cycles b + of_nat m
    \<and> (b_regs ((clock f ^^ m) b), b_rest ((clock f ^^ m) b)) = x m
    \<and> (b_ebreak ((clock f ^^ m) b) \<longleftrightarrow> b_ebreak b \<or> (\<exists>j < m. ebreak_now f (snd (x j))))"
proof (induction m)
  case 0
  show ?case using assms(1) by (simp add: x_def)
next
  case (Suc m)
  let ?b = "(clock f ^^ m) b"
  from Suc.IH have c: "b_control ?b = 0" and r: "(b_regs ?b, b_rest ?b) = x m" and n: "b_cycles ?b = b_cycles b + of_nat m"
    and e: "b_ebreak ?b \<longleftrightarrow> b_ebreak b \<or> (\<exists>j < m. ebreak_now f (snd (x j)))" by simp_all
  have s: "b_rest ?b = snd (x m)" by (simp flip: r)
  have "(b_regs (clock f ?b), b_rest (clock f ?b)) = x (Suc m)"
    using clock_released(3) [OF c, of f] unfolding r n by (simp add: x_def)
  moreover have "b_ebreak (clock f ?b) \<longleftrightarrow> b_ebreak b \<or> (\<exists>j < Suc m. ebreak_now f (snd (x j)))"
    using clock_released(4) [OF c, of f] unfolding e s by (auto simp: less_Suc_eq)
  ultimately show ?case using clock_released(1,2) [OF c, of f] by (simp add: n)
qed

text \<open>Releasing the core and polling its flags, with \<open>k\<close> edges each.\<close>

lemma clocks_ops: "(clock f ^^ m) (b\<lparr>b_ops := n\<rparr>) = ((clock f ^^ m) b)\<lparr>b_ops := n\<rparr>"
proof (induction m)
  case (Suc m)
  have "clock f (c\<lparr>b_ops := n\<rparr>) = (clock f c)\<lparr>b_ops := n\<rparr>" for c
    by (simp add: clock_def settle_def halted_def cycle_stall_def next_ebreak_def debug_mem_def b_data_def b_index_def
        split_beta Let_def)
  then show ?case using Suc by simp
qed simp

lemma polls_clock:
  "\<exists>i. poll (board_io f (\<lambda>_. k)) n b = ((clock f ^^ (k * n)) b)\<lparr>b_ops := i\<rparr>"
proof (induction n)
  case 0
  show ?case by (intro exI [of _ "b_ops b"]) (simp add: poll_def)
next
  case (Suc n)
  then obtain i where "poll (board_io f (\<lambda>_. k)) n b = ((clock f ^^ (k * n)) b)\<lparr>b_ops := i\<rparr>" by blast
  then have "poll (board_io f (\<lambda>_. k)) (Suc n) b = elapse f (\<lambda>_. k) (((clock f ^^ (k * n)) b)\<lparr>b_ops := i\<rparr>)"
    by (simp add: poll_def board_io_def)
  then show ?case
    by (simp add: elapse_def clocks_ops funpow_add algebra_simps) (metis comp_apply funpow_add)
qed

lemma release_and_poll:
  fixes b :: "'x board" and f :: "'x core_fns" and k :: nat
  defines "io \<equiv> board_io f (\<lambda>_. k)"
  defines "c n \<equiv> poll io n (io_write io 0x5010 0 b)"
    and "x m \<equiv> run_from f (b_cycles b) m (b_regs b, b_rest b)"
  shows "(b_regs (c n), b_rest (c n)) = x (k * (n + 1))"
    and "ended io (c n) \<longleftrightarrow> b_ebreak b \<or> (\<exists>j < k * (n + 1). ebreak_now f (snd (x j)))"
proof -
  let ?b = "b\<lparr>b_control := 0, b_stall_at := 0\<rparr>"
  have "io_write io 0x5010 0 b = ((clock f ^^ k) ?b)\<lparr>b_ops := b_ops b + 1\<rparr>"
    by (simp add: io_def board_io_def set_port_def settle_def elapse_def clocks_ops)
  moreover obtain i where "c n = ((clock f ^^ (k * n)) (io_write io 0x5010 0 b))\<lparr>b_ops := i\<rparr>"
    using polls_clock [of f k n "io_write io 0x5010 0 b"] unfolding c_def io_def by blast
  ultimately have "c n = ((clock f ^^ (k * n + k)) ?b)\<lparr>b_ops := i\<rparr>"
    by (simp add: clocks_ops funpow_add)
  then have c: "c n = ((clock f ^^ (k * (n + 1))) ?b)\<lparr>b_ops := i\<rparr>" by (simp add: algebra_simps)
  note run = clocks_released [where b = ?b and f = f and m = "k * (n + 1)"]
  show "(b_regs (c n), b_rest (c n)) = x (k * (n + 1))" using run by (simp add: c x_def)
  have "ended io (c n) \<longleftrightarrow> b_ebreak (c n)"
    by (cases "cycle_stall (c n)"; cases "b_ebreak (c n)") (simp_all add: ended_def io_def board_io_def get_port_def)
  then show "ended io (c n) \<longleftrightarrow> b_ebreak b \<or> (\<exists>j < k * (n + 1). ebreak_now f (snd (x j)))"
    using run by (simp add: c x_def)
qed

section \<open>A masked fault does not change the rest of the core\<close>

lemma run_from_add: "run_from f c (n + d) x = run_from f (c + of_nat n) d (run_from f c n x)"
  by (induction d) (simp_all add: add.assoc)

lemma run_masked:
  assumes "reads_alone e" "idle_ram e" "\<forall>k < n. ignores e r (run_from (core_board e) c k (R, s))"
    "\<exists>k < n. overwrites e r (run_from (core_board e) c k (R, s))"
  shows "n \<le> m \<Longrightarrow> run_from (core_board e) c m (xor_reg r v R, s) = run_from (core_board e) c m (R, s)"
    and "snd (run_from (core_board e) c m (xor_reg r v R, s)) = snd (run_from (core_board e) c m (R, s))"
proof -
  show late: "run_from (core_board e) c m (xor_reg r v R, s) = run_from (core_board e) c m (R, s)" if "n \<le> m" for m
    using run_flipped [OF assms] run_from_add [of "core_board e" c n "m - n"] that by simp
  show "snd (run_from (core_board e) c m (xor_reg r v R, s)) = snd (run_from (core_board e) c m (R, s))"
  proof (cases "n \<le> m")
    case True
    then show ?thesis by (simp add: late)
  next
    case False
    then have "\<forall>k < m. ignores e r (run_from (core_board e) c k (R, s))" using assms(3) by simp
    then show ?thesis using run_changed [OF assms(1,2)] by (auto simp: xor_reg_def Let_def)
  qed
qed

section \<open>Two runs\<close>

text \<open>What is printed last.\<close>

definition report_text :: "(nat \<Rightarrow> 'm \<Rightarrow> u64) \<Rightarrow> u32 \<Rightarrow> u32 \<Rightarrow> u64 list \<times> 'm rv_core \<Rightarrow> u8 list" where
  "report_text word limit duration = (\<lambda>(R, s).
     results_text (\<not> limit < duration) (PC s) (R ! 10) duration @ dump_text (\<lambda>a. word a (dmem s)))"

text \<open>
  The program from the stall on: with \<open>over m\<close> for the end being shown at poll \<open>m\<close>, it returns after the
  poll at which the wait stops, or not at all.
\<close>

lemma main_from_stall:
  fixes e :: "'m rv_env" and cfg :: inject_cfg and b :: "'m rv_core board" and k :: nat and host :: "nat \<Rightarrow> nat"
  defines "io \<equiv> board_io (core_board e) (\<lambda>_. k)" and "uart \<equiv> board_uart (core_board e) (\<lambda>_. k) host"
    and "limit \<equiv> PROGRAM_MAX_DURATION cfg"
  assumes "wait_stall io (io_write io 0x5010 0x20 (load_delay io cfg b)) = Some st" "inject_fault io uart cfg st = Some fa"
    "quiet fa" "host_listens host" "sync_ram e word" "0 < k"
  defines "x m \<equiv> run_from (core_board e) (b_cycles fa) m (b_regs fa, b_rest fa)"
  defines "over m \<equiv> b_ebreak fa \<or> (\<exists>j < k * (m + 1). ebreak_now (core_board e) (snd (x j)))"
  shows "first_stop over limit d \<Longrightarrow> \<exists>shown out. hello_world_small_main cfg io uart b = Some (of_nat d, shown)
      \<and> b_console shown = out @ report_text word limit (of_nat d) (x (k * (d + 2)))"
    and "\<nexists>d. first_stop over limit d \<Longrightarrow> hello_world_small_main cfg io uart b = None"
proof -
  let ?h = "io_write io 0x5010 0 fa"
  have "ended io (poll io j ?h) \<longleftrightarrow> over j" for j
    unfolding over_def x_def io_def by (rule release_and_poll(2))
  then have over: "(\<lambda>j. ended io (poll io j ?h)) = over" by blast
  show "hello_world_small_main cfg io uart b = None" if "\<nexists>d. first_stop over limit d"
    using wait_finish_forever [of io ?h limit] that assms(4,5)
    by (simp add: over hello_world_small_main_def limit_def)
  show "\<exists>shown out. hello_world_small_main cfg io uart b = Some (of_nat d, shown)
      \<and> b_console shown = out @ report_text word limit (of_nat d) (x (k * (d + 2)))" if stop: "first_stop over limit d"
  proof -
    have n: "wait_finish io limit 0 ?h = Some (of_nat d, poll io (d + 1) ?h)"
      by (rule wait_finish_first_stop) (simp add: over stop)
    let ?c = "poll io (d + 1) ?h"
    have c: "(b_regs ?c, b_rest ?c) = x (k * (d + 2))"
      using release_and_poll(1) [of "core_board e" k "d + 1" fa] unfolding x_def io_def by simp
    have "b_high ?c = 0" "b_low ?c = 0"
      using assms(6) unfolding io_def by (simp_all only: ports_poll ports_release quiet_def)
    then obtain g h where gh: "print_results io uart cfg (of_nat d) ?c = Some g" "dump_memory io uart g = Some h"
        "b_console h = b_console ?c @ results_text (\<not> limit < of_nat d) (PC (b_rest ?c)) (b_regs ?c ! 10) (of_nat d)
          @ dump_text (\<lambda>a. word a (dmem (b_rest ?c)))"
      using report_shown [OF _ _ _ assms(8,7), of ?c "\<lambda>_. k" cfg "of_nat d"] assms(9) unfolding io_def uart_def limit_def by blast
    have "hello_world_small_main cfg io uart b = Some (of_nat d, h)"
      using assms(4,5) n gh(1,2) by (simp add: hello_world_small_main_def limit_def)
    moreover have "b_console h = b_console ?c @ report_text word limit (of_nat d) (x (k * (d + 2)))"
      unfolding c [symmetric] report_text_def prod.case by (rule gh(3))
    ultimately show ?thesis by blast
  qed
qed

lemma injected:
  fixes c :: inject_cfg
  assumes "b_high b = 0" "b_low b = 0" "host_listens host"
  shows "\<exists>fa n. inject_fault (board_io f (\<lambda>_. k)) (board_uart f (\<lambda>_. k) host) c b = Some fa \<and> quiet fa
    \<and> b_cycles fa = b_cycles b \<and> b_ebreak fa = b_ebreak b \<and> b_rest fa = b_rest b
    \<and> b_regs fa = xor_reg (unat (INJECT_ADDRESS c AND 0x7FFF) mod 32) (flipped_bits (\<lambda>_. k) n c) (b_regs b)"
proof -
  obtain fa n where fa: "inject_fault (board_io f (\<lambda>_. k)) (board_uart f (\<lambda>_. k) host) c b = Some fa" "b_rest fa = b_rest b" "quiet fa"
      "b_regs fa = xor_reg (unat (INJECT_ADDRESS c AND 0x7FFF) mod 32) (flipped_bits (\<lambda>_. k) n c) (b_regs b)"
      "same_core (b\<lparr>b_control := 2, b_stall_at := 0, b_addr := INJECT_ADDRESS c AND 0x7FFF, b_regs := b_regs fa\<rparr>) fa"
    using inject_fault_ok [where f = f and cfg = c and sched = "\<lambda>_. k", OF assms] by blast
  obtain R u r i where "fa = b\<lparr>b_control := 2, b_stall_at := 0, b_addr := INJECT_ADDRESS c AND 0x7FFF, b_regs := R,
      b_console := u, b_room := r, b_ops := i\<rparr>"
    using fa(5) unfolding same_core_def by blast
  then have "b_cycles fa = b_cycles b" "b_ebreak fa = b_ebreak b" by simp_all
  with fa show ?thesis by blast
qed

definition clean :: "inject_cfg \<Rightarrow> inject_cfg" where
  "clean cfg = cfg\<lparr>INJECT_DATA_LOW := 0, INJECT_DATA_HIGH := 0\<rparr>"

lemma clean_flips: "flipped_bits sched n (clean cfg) = 0"
  by (simp add: flipped_bits_def clean_def)

text \<open>
  C3: A masked fault is silent.  On equal boards, in any state, let one run of the program inject a fault
  and the other an empty mask, with the same settings otherwise.  After the injection let \<open>golden j\<close>
  be the state that the core reaches without a fault after \<open>j\<close> further instructions, and let none of
  the first \<open>n\<close> of them have the register among its source registers (whatever instructions they are,
  also trapping or illegal ones) and one of them have it as its destination.  Then either neither
  run returns, or both wait for the end equally long and, when at least \<open>n\<close> instructions fit into that
  time, both end their output with the same text: the report on the state that the core reaches
  without any fault.  It is assumed that every access of the program to the outside takes the same
  number \<open>k > 0\<close> of clock edges, that the host keeps reading the console, and of the data memory that
  a read gives the doubleword at the address whatever is on its data inputs, that a write changes
  one doubleword, and that without either it stays as it is.  The injection comes after
  \<open>delay_loaded cfg b\<close> instructions, which is \<open>INJECT_DELAY\<close> when the high data port is 0.
\<close>

theorem masked_fault_is_silent:
  fixes cfg :: inject_cfg and e :: "'m rv_env" and b :: "'m rv_core board" and k :: nat and host :: "nat \<Rightarrow> nat"
  assumes "0 < k" "host_listens host" "reads_alone e" "idle_ram e" "sync_ram e word"
  defines "f \<equiv> core_board e"
  defines "io \<equiv> board_io f (\<lambda>_. k)" and "uart \<equiv> board_uart f (\<lambda>_. k) host" and "delay \<equiv> unat (delay_loaded cfg b)"
  defines "armed \<equiv> load_delay io cfg b" and "r \<equiv> unat (INJECT_ADDRESS cfg AND 0x7FFF) mod 32"
  defines "golden j \<equiv> run_core f (delay + j) (b_regs armed, b_rest armed)"
  assumes "\<forall>j < n. ignores e r (golden j)" "\<exists>j < n. overwrites e r (golden j)"
  shows "hello_world_small_main cfg io uart b = None \<and> hello_world_small_main (clean cfg) io uart b = None
    \<or> (\<exists>d faulty flawless text text'. hello_world_small_main cfg io uart b = Some (of_nat d, faulty)
      \<and> hello_world_small_main (clean cfg) io uart b = Some (of_nat d, flawless)
      \<and> b_console flawless = text @ report_text word (PROGRAM_MAX_DURATION cfg) (of_nat d) (golden (k * (d + 2)))
      \<and> (n \<le> k * (d + 2) \<longrightarrow>
          b_console faulty = text' @ report_text word (PROGRAM_MAX_DURATION cfg) (of_nat d) (golden (k * (d + 2)))))"
proof -
  let ?sched = "\<lambda>_ :: nat. k" and ?limit = "PROGRAM_MAX_DURATION cfg"
  have pos: "\<forall>j. 0 < ?sched j" using assms(1) by simp
  have armed: "load_delay io (clean cfg) b = armed" unfolding armed_def by (simp add: clean_def load_delay_def)
  obtain st where st: "wait_stall io (io_write io 0x5010 0x20 armed) = Some st"
      "running f (delay_loaded cfg b) (b_regs armed, b_rest armed) st" "b_cycles st = delay_loaded cfg b"
    using arm_and_stall [where sched = ?sched and f = f and cfg = cfg, OF pos] unfolding armed_def io_def by blast
  have clear: "b_high st = 0" "b_low st = 0" using st(2) by (simp_all add: running_def)
  have start: "(b_regs st, b_rest st) = golden 0" using st(2,3) by (simp add: running_def golden_def delay_def)
  have delay: "delay_loaded cfg b = of_nat delay" by (simp add: delay_def)
  have golden: "golden j = run_from f (of_nat delay) j (b_regs st, b_rest st)" for j
    unfolding start golden_def using run_from_run_core [of f delay j] by simp
  obtain fa i where fa: "inject_fault io uart cfg st = Some fa" "quiet fa" "b_cycles fa = of_nat delay" "b_ebreak fa = b_ebreak st"
      "b_rest fa = b_rest st" "b_regs fa = xor_reg r (flipped_bits ?sched i cfg) (b_regs st)"
    using injected [OF clear assms(2), of f k cfg] st(3) delay unfolding io_def uart_def r_def by auto
  obtain go where go: "inject_fault io uart (clean cfg) st = Some go" "quiet go" "b_cycles go = of_nat delay" "b_ebreak go = b_ebreak st"
      "b_rest go = b_rest st" "b_regs go = b_regs st"
    using injected [OF clear assms(2), of f k "clean cfg"] st(3) delay unfolding io_def uart_def clean_flips xor_reg_0 by auto
  note masked = run_masked [OF assms(3,4), folded f_def, of n r "of_nat delay" "b_regs st" "b_rest st", folded golden, OF assms(13,14)]
  define x where "x j = run_from f (b_cycles fa) j (b_regs fa, b_rest fa)" for j
  have x: "n \<le> j \<Longrightarrow> x j = golden j" "snd (x j) = snd (golden j)" for j
    using masked [of j "flipped_bits ?sched i cfg"] by (simp_all add: x_def fa golden)
  have gx: "run_from f (b_cycles go) j (b_regs go, b_rest go) = golden j" for j by (simp add: go golden)
  define over where "over j \<longleftrightarrow> b_ebreak st \<or> (\<exists>i < k * (j + 1). ebreak_now f (snd (golden i)))" for j
  have c: "PROGRAM_MAX_DURATION (clean cfg) = ?limit" by (simp add: clean_def)
  note faulty = main_from_stall [of e k cfg b st host fa word, folded f_def, folded io_def uart_def, folded armed_def x_def,
      unfolded fa(4) x(2), folded over_def, OF st(1) fa(1,2) assms(2,5,1)]
  note flawless = main_from_stall [of e k "clean cfg" b st host go word, folded f_def, folded io_def uart_def,
      unfolded armed gx go(4) c, folded over_def, OF st(1) go(1,2) assms(2,5,1)]
  show ?thesis
  proof (cases "\<exists>d. first_stop over ?limit d")
    case False
    then show ?thesis using faulty(2) flawless(2) by blast
  next
    case True
    then obtain d where d: "first_stop over ?limit d" by blast
    obtain s1 t1 where r1: "hello_world_small_main cfg io uart b = Some (of_nat d, s1)"
        "b_console s1 = t1 @ report_text word ?limit (of_nat d) (x (k * (d + 2)))"
      using faulty(1) [OF d] by blast
    obtain s2 t2 where r2: "hello_world_small_main (clean cfg) io uart b = Some (of_nat d, s2)"
        "b_console s2 = t2 @ report_text word ?limit (of_nat d) (golden (k * (d + 2)))"
      using flawless(1) [OF d] by blast
    from r1 r2 x(1) [of "k * (d + 2)"] show ?thesis
      by (intro disjI2 exI [of _ d] exI [of _ s1] exI [of _ s2] exI [of _ t2] exI [of _ t1]) simp
  qed
qed

lemma demo_ram:
  "ignores (registered_ram (\<lambda>_. 0x00100f93)) 31 x" "overwrites (registered_ram (\<lambda>_. 0x00100f93)) 31 x"
  "reads_alone (registered_ram p)" "idle_ram (registered_ram p)"
  by (simp_all add: ignores_def overwrites_def instruction_at_def registered_ram_def demo_word
      reads_alone_def idle_ram_def split_beta)

theorem masked_fault_is_silent_witness:
  "let f = core_board (registered_ram (\<lambda>_. 0x00100f93)); io = board_io f (\<lambda>_. 3); uart = board_uart f (\<lambda>_. 3) (\<lambda>_. 1) in
    \<exists>d faulty flawless text text' report. hello_world_small_main inject_values io uart ram_board = Some (of_nat d, faulty)
      \<and> hello_world_small_main (clean inject_values) io uart ram_board = Some (of_nat d, flawless)
      \<and> b_console flawless = text @ report \<and> b_console faulty = text' @ report \<and> report \<noteq> []"
proof -
  have k: "(0 :: nat) < 3" by simp
  have limit: "PROGRAM_MAX_DURATION inject_values \<noteq> - 1" by (simp add: inject_values_def)
  have r: "unat (INJECT_ADDRESS inject_values AND 0x7FFF) mod 32 = 31" by (simp add: inject_cfg_values)
  have m: "\<forall>j < 1. ignores (registered_ram (\<lambda>_. 0x00100f93)) 31 (g j)"
      "\<exists>j < 1. overwrites (registered_ram (\<lambda>_. 0x00100f93)) 31 (g j)" for g :: "nat \<Rightarrow> _"
    by (simp_all add: demo_ram)
  have n: "(1 :: nat) \<le> 3 * (d + 2)" for d by simp
  have e: "report_text w m d x \<noteq> []" for w :: "nat \<Rightarrow> (nat \<Rightarrow> u64) \<times> u64 \<Rightarrow> u64" and m d x
    by (simp add: report_text_def results_text_def bytes_of_def split_beta)
  have ret: "hello_world_small_main inject_values (board_io f (\<lambda>_. 3)) (board_uart f (\<lambda>_. 3) (\<lambda>_. 1)) b \<noteq> None"
    for f :: "((nat \<Rightarrow> u64) \<times> u64) rv_core core_fns" and b
    using main_returns [OF _ demo_host limit, of "\<lambda>_. 3" f b] by auto
  note masked_fault_is_silent [OF k demo_host demo_ram(3,4) registered_ram_sync, where n = 1 and cfg = inject_values and b = ram_board, unfolded r, OF m]
  then show ?thesis
    unfolding Let_def
    by (elim disjE exE conjE) (erule notE [OF ret], intro exI conjI, assumption+, erule mp [OF _ n], rule e)
qed

end
