(* ===== verification/Cache.thy ===== *)
theory Cache
  imports Prelude
begin

text \<open>
  Cache maintenance and uncached memory: \<open>alt_dcache_flush.c\<close>, \<open>alt_dcache_flush_all.c\<close>,
  \<open>alt_dcache_flush_no_writeback.c\<close>, \<open>alt_icache_flush.c\<close>, \<open>alt_icache_flush_all.c\<close>,
  \<open>alt_remap_cached.c\<close>, \<open>alt_remap_uncached.c\<close>, \<open>alt_uncached_malloc.c\<close> and
  \<open>alt_uncached_free.c\<close>.

  The sizes that the build fixes by macros are arguments.  A function's result is the list of
  addresses it gives to the flush instruction, in order; \<open>None\<close> means it never returns.
\<close>

section \<open>The flush functions\<close>

text \<open>The loop over the range, with the address it ends at.\<close>

partial_function (option) flush_loop :: "u32 \<Rightarrow> u32 \<Rightarrow> u32 \<Rightarrow> u32 list \<Rightarrow> (u32 list \<times> u32) option" where
  "flush_loop line_size i fin flushed =
     (if i < fin then flush_loop line_size (i + line_size) fin (flushed @ [i]) else Some (flushed, i))"

declare flush_loop.simps [code]

definition flush_range :: "u32 \<Rightarrow> u32 \<Rightarrow> u32 \<Rightarrow> u32 list option" where
  "flush_range line_size start len = do {
     (flushed, i) \<leftarrow> flush_loop line_size start (start + len) [];
     Some (if start AND (line_size - 1) \<noteq> 0 then flushed @ [i] else flushed)
   }"

definition alt_dcache_flush :: "u32 \<Rightarrow> u32 \<Rightarrow> u32 \<Rightarrow> u32 \<Rightarrow> u32 list option" where
  "alt_dcache_flush dcache_size line_size start len =
     (if 0 < dcache_size then flush_range line_size start len else Some [])"

definition alt_dcache_flush_no_writeback :: "u32 \<Rightarrow> u32 \<Rightarrow> u32 \<Rightarrow> u32 list option" where
  "alt_dcache_flush_no_writeback line_size start len = flush_range line_size start len"

definition alt_dcache_flush_all :: "u32 \<Rightarrow> u32 \<Rightarrow> u32 list option" where
  "alt_dcache_flush_all dcache_size line_size =
     (if 0 < dcache_size then map_option fst (flush_loop line_size 0 dcache_size []) else Some [])"

definition alt_icache_flush :: "u32 \<Rightarrow> u32 \<Rightarrow> u32 \<Rightarrow> u32 \<Rightarrow> u32 list option" where
  "alt_icache_flush icache_size line_size start len =
     (if 0 < icache_size
      then (let len = (if icache_size < len then icache_size else len) in flush_range line_size start len)
      else Some [])"

definition alt_icache_flush_all :: "u32 \<Rightarrow> u32 \<Rightarrow> u32 list option" where
  "alt_icache_flush_all icache_size line_size =
     (if 0 < icache_size then alt_icache_flush icache_size line_size 0 icache_size else Some [])"

section \<open>Cached and uncached addresses\<close>

text \<open>
  \<open>bypass\<close> is \<open>ALT_CPU_DCACHE_BYPASS_MASK\<close>, if the processor has one; without it the program
  does not link.  \<open>memalign\<close>, \<open>malloc\<close> and \<open>free\<close> of the C library are parameters on its state.
\<close>

definition alt_remap_cached :: "u32 \<Rightarrow> u32 option \<Rightarrow> u32 \<Rightarrow> u32" where
  "alt_remap_cached dcache_size bypass ptr =
     (if 0 < dcache_size then (case bypass of Some m \<Rightarrow> ptr AND NOT m | None \<Rightarrow> 0) else ptr)"

definition alt_remap_uncached :: "u32 \<Rightarrow> u32" where
  "alt_remap_uncached ptr = 0"

definition aligned_size :: "u32 \<Rightarrow> u32 \<Rightarrow> u32" where
  "aligned_size line_size bytes =
     (let num_lines = (bytes + line_size - 1) div line_size in num_lines * line_size)"

definition alt_uncached_malloc ::
  "(u32 \<Rightarrow> u32 \<Rightarrow> 's \<Rightarrow> u32 \<times> 's) \<Rightarrow> (u32 \<Rightarrow> 's \<Rightarrow> u32 \<times> 's) \<Rightarrow> u32 \<Rightarrow> u32 \<Rightarrow> u32 option \<Rightarrow> u32 \<Rightarrow> 's
    \<Rightarrow> (u32 \<times> u32 list \<times> 's) option" where
  "alt_uncached_malloc memalign malloc dcache_size line_size bypass bytes s =
     (if 0 < dcache_size then
        (case bypass of
           Some m \<Rightarrow>
             (let (ptr, s) = memalign line_size (aligned_size line_size bytes) s in
              if ptr = 0 then Some (0, [], s)
              else do {
                flushed \<leftarrow> alt_dcache_flush dcache_size line_size ptr (aligned_size line_size bytes);
                Some (ptr OR m, flushed, s)
              })
         | None \<Rightarrow> Some (0, [], s))
      else (let (ptr, s) = malloc bytes s in Some (ptr, [], s)))"

definition alt_uncached_free :: "(u32 \<Rightarrow> 's \<Rightarrow> 's) \<Rightarrow> u32 \<Rightarrow> u32 option \<Rightarrow> u32 \<Rightarrow> 's \<Rightarrow> 's" where
  "alt_uncached_free free dcache_size bypass ptr s =
     (if 0 < dcache_size then (case bypass of Some m \<Rightarrow> free (ptr AND NOT m) s | None \<Rightarrow> s)
      else free ptr s)"

section \<open>What is flushed\<close>

text \<open>The addresses are those from \<open>start\<close> in steps of a line, up to the end of the range.\<close>

lemma flush_loop_ok:
  assumes "0 < unat line_size" "unat fin + unat line_size < 2 ^ 32"
  shows "\<exists>n out i'. flush_loop line_size i fin flushed = Some (flushed @ out, i')
    \<and> map unat out = map (\<lambda>j. unat i + j * unat line_size) [0..<n]
    \<and> unat i' = unat i + n * unat line_size \<and> unat fin \<le> unat i'"
proof (induction "unat fin - unat i" arbitrary: i flushed rule: less_induct)
  case less
  show ?case
  proof (cases "i < fin")
    case False
    then have "flush_loop line_size i fin flushed = Some (flushed @ [], i)" by (subst flush_loop.simps) simp
    moreover have "unat fin \<le> unat i" using False by (simp add: word_less_nat_alt)
    ultimately show ?thesis by (intro exI [of _ 0] exI [of _ "[]"] exI [of _ i]) simp
  next
    case True
    then have lt: "unat i < unat fin" by (simp add: word_less_nat_alt)
    then have u: "unat (i + line_size) = unat i + unat line_size"
      using assms by (intro unat_plus_if_small) simp
    have "unat fin - unat (i + line_size) < unat fin - unat i" using u lt assms(1) by simp
    from less [OF this, of "flushed @ [i]"] obtain n out i' where n:
      "flush_loop line_size (i + line_size) fin (flushed @ [i]) = Some ((flushed @ [i]) @ out, i')"
      "map unat out = map (\<lambda>j. unat (i + line_size) + j * unat line_size) [0..<n]"
      "unat i' = unat (i + line_size) + n * unat line_size" "unat fin \<le> unat i'" by blast
    have "flush_loop line_size i fin flushed = Some (flushed @ (i # out), i')"
      using True n(1) by (subst flush_loop.simps) simp
    moreover have "map unat (i # out) = map (\<lambda>j. unat i + j * unat line_size) [0..<Suc n]"
      using n(2) u by (simp add: upt_conv_Cons map_Suc_upt [symmetric] del: upt_Suc)
    moreover have "unat i' = unat i + Suc n * unat line_size" using n(3) u by simp
    ultimately show ?thesis using n(4) by blast
  qed
qed

lemma line_reached:
  fixes x d n L :: nat
  assumes "0 < L" "d < n * L"
  shows "\<exists>j. (x + d) div L = (x + j * L) div L \<and> (j < n \<or> j = n \<and> x mod L \<noteq> 0)"
proof -
  have x: "x = x div L * L + x mod L" and d: "d = d div L * L + d mod L" by simp_all
  have jn: "d div L < n" using assms(2) by (simp add: less_mult_imp_div_less)
  have step: "(x + j * L) div L = x div L + j" for j using assms(1) by simp
  have "x + d = (x div L + d div L) * L + (x mod L + d mod L)"
    using x d by (simp add: add_mult_distrib)
  then have sum: "(x + d) div L = x div L + d div L + (x mod L + d mod L) div L" using assms(1) by simp
  show ?thesis
  proof (cases "x mod L + d mod L < L")
    case True
    then show ?thesis using sum step jn by (intro exI [of _ "d div L"]) simp
  next
    case False
    have "x mod L < L" "d mod L < L" using assms(1) by simp_all
    then have "x mod L + d mod L - L < L" by linarith
    then have "(x mod L + d mod L) div L = 1" using False assms(1) by (simp add: le_div_geq)
    moreover have "x mod L \<noteq> 0" using False \<open>d mod L < L\<close> by (intro notI) simp
    ultimately show ?thesis using sum step [of "Suc (d div L)"] jn by (intro exI [of _ "Suc (d div L)"]) auto
  qed
qed

text \<open>
  C35: Flushing a range returns and touches every cache line that holds a byte of the range, also
  when the range starts in the middle of a line (the case the extra instruction is for).
\<close>

theorem dcache_flush_covers:
  assumes "line_size = 2 ^ k" "0 < dcache_size" "k < 32"
    and "unat start + unat len + 2 ^ k < 2 ^ 32" "unat start \<le> a" "a < unat start + unat len"
  shows "\<exists>flushed. alt_dcache_flush dcache_size line_size start len = Some flushed
    \<and> a div 2 ^ k \<in> (\<lambda>f. unat f div 2 ^ k) ` set flushed"
proof -
  have L: "unat line_size = 2 ^ k"
    using unat_u32_small [of "2 ^ k"] power_strict_increasing [of k 32 "2 :: nat"] assms(1,3) by simp
  have fin: "unat (start + len) = unat start + unat len" using assms(4) by (intro unat_plus_if_small) simp
  obtain n out i' where n: "flush_loop line_size start (start + len) [] = Some (out, i')"
    "map unat out = map (\<lambda>j. unat start + j * 2 ^ k) [0..<n]"
    "unat i' = unat start + n * 2 ^ k" "unat start + unat len \<le> unat i'"
    using flush_loop_ok [of line_size "start + len" start "[]"] assms(4) by (auto simp: L fin)
  define tail where "tail = (if start AND (line_size - 1) \<noteq> 0 then [i'] else [])"
  have fl: "alt_dcache_flush dcache_size line_size start len = Some (out @ tail)"
    using assms(2) n(1) by (simp add: alt_dcache_flush_def flush_range_def tail_def)
  have "line_size - 1 = mask k" by (simp add: assms(1) mask_eq_exp_minus_1)
  then have "unat (start AND (line_size - 1)) = unat start mod 2 ^ k" by (simp only: unat_and_mask)
  then have tail: "tail = (if unat start mod 2 ^ k \<noteq> 0 then [i'] else [])"
    unfolding tail_def by (metis unat_eq_0)
  have lt: "a - unat start < n * 2 ^ k" using n(3,4) assms(5,6) by linarith
  obtain j where j: "(unat start + (a - unat start)) div 2 ^ k = (unat start + j * 2 ^ k) div 2 ^ k"
    "j < n \<or> j = n \<and> unat start mod 2 ^ k \<noteq> 0"
    by (rule exE [OF line_reached [OF zero_less_power [OF zero_less_numeral] lt]]) (elim conjE)
  have "unat start + j * 2 ^ k \<in> unat ` set (out @ tail)"
  proof (cases "j < n")
    case True
    have "unat ` set out = (\<lambda>j. unat start + j * 2 ^ k) ` {0..<n}"
      using arg_cong [OF n(2), of set] by (simp only: set_map set_upt)
    then have "unat start + j * 2 ^ k \<in> unat ` set out" using True by auto
    then show ?thesis by (simp add: image_Un)
  next
    case False
    then show ?thesis using j(2) tail n(3) by simp
  qed
  then obtain f where "f \<in> set (out @ tail)" "unat f = unat start + j * 2 ^ k" by (metis imageE)
  moreover have "unat start + (a - unat start) = a" using assms(5) by simp
  ultimately have "a div 2 ^ k \<in> (\<lambda>f. unat f div 2 ^ k) ` set (out @ tail)"
    using j(1) by (intro image_eqI [of _ _ f]) (simp_all only:)
  with fl show ?thesis by blast
qed

theorem dcache_flush_covers_witness:
  "\<exists>flushed. alt_dcache_flush 2048 32 0x101E 4 = Some flushed \<and> 0x1020 div 32 \<in> (\<lambda>f. unat f div 32) ` set flushed"
proof -
  have "(32 :: u32) = 2 ^ 5" by simp
  from dcache_flush_covers [OF this, of 2048 "0x101E" 4 "0x1020"] show ?thesis by simp
qed

text \<open>With a line size of 0, as this project has it, a flush of the data cache without write-back never ends.\<close>

lemma flush_no_writeback_diverges:
  assumes "0 < len" "unat start + unat len < 2 ^ 32"
  shows "alt_dcache_flush_no_writeback 0 start len = None"
proof -
  have lt: "start < start + len"
    using assms by (simp add: word_less_nat_alt unat_plus_if_small)
  have "\<not> (\<exists>out. flush_loop 0 start (start + len) flushed = Some out)" for flushed
  proof
    assume "\<exists>out. flush_loop 0 start (start + len) flushed = Some out"
    then obtain out where "flush_loop 0 start (start + len) flushed = Some out" by blast
    then have "(0 :: u32) = 0 \<longrightarrow> \<not> start < start + len"
      by (rule flush_loop.raw_induct [where P = "\<lambda>l i e f y. l = 0 \<longrightarrow> \<not> i < e", rotated]) (auto split: if_splits)
    then show False using lt by simp
  qed
  then have "flush_loop 0 start (start + len) [] = None" by (metis not_None_eq)
  then show ?thesis by (simp add: alt_dcache_flush_no_writeback_def flush_range_def)
qed

end
