(* ===== verification/Boot.thy ===== *)
theory Boot
  imports Cache Files Irq
begin

text \<open>
  Start-up, shutdown and what is left of the system calls: section loading (\<open>alt_load.c\<close>,
  \<open>sys/alt_load.h\<close>), constructors (\<open>alt_do_ctors.c\<close>, \<open>alt_do_dtors.c\<close>), \<open>alt_main.c\<close>,
  \<open>alt_sys_init.c\<close>, \<open>alt_kill.c\<close>, instruction exceptions (\<open>alt_instruction_exception_entry.c\<close>,
  \<open>_register.c\<close>, \<open>alt_ecc_fatal_exception.c\<close>), the stubs \<open>alt_execve.c\<close>, \<open>alt_fork.c\<close>,
  \<open>alt_getpid.c\<close>, \<open>alt_link.c\<close>, \<open>alt_rename.c\<close>, \<open>alt_unlink.c\<close> and \<open>alt_wait.c\<close>, and the
  calibrated delay \<open>alt_busy_sleep.c\<close> with \<open>alt_usleep.c\<close>.
\<close>

section \<open>Loading sections\<close>

text \<open>Memory is a function from the addresses of words.\<close>

type_synonym word_mem = "u32 \<Rightarrow> u32"

partial_function (option) load_loop :: "u32 \<Rightarrow> u32 \<Rightarrow> u32 \<Rightarrow> word_mem \<Rightarrow> word_mem option" where
  "load_loop source dest fin m =
     (if dest \<noteq> fin then load_loop (source + 4) (dest + 4) fin (m(dest := m source)) else Some m)"

declare load_loop.simps [code]

definition alt_load_section :: "u32 \<Rightarrow> u32 \<Rightarrow> u32 \<Rightarrow> word_mem \<Rightarrow> word_mem option" where
  "alt_load_section source dest fin m = (if dest \<noteq> source then load_loop source dest fin m else Some m)"

text \<open>
  The linker's symbols for the three sections are arguments, as are the cache sizes; the second
  result is what the two cache flushes touch.
\<close>

record section_symbols =
  flash_start :: u32
  ram_start :: u32
  ram_end :: u32

definition load_symbols :: "section_symbols \<Rightarrow> word_mem \<Rightarrow> word_mem option" where
  "load_symbols y m = alt_load_section (flash_start y) (ram_start y) (ram_end y) m"

definition alt_load ::
  "section_symbols \<Rightarrow> section_symbols \<Rightarrow> section_symbols \<Rightarrow> u32 \<Rightarrow> u32 \<Rightarrow> u32 \<Rightarrow> u32 \<Rightarrow> word_mem
    \<Rightarrow> (word_mem \<times> u32 list \<times> u32 list) option" where
  "alt_load rwdata exceptions rodata dcache_size dline icache_size iline m = do {
     m \<leftarrow> load_symbols rwdata m;
     m \<leftarrow> load_symbols exceptions m;
     m \<leftarrow> load_symbols rodata m;
     dflush \<leftarrow> alt_dcache_flush_all dcache_size dline;
     iflush \<leftarrow> alt_icache_flush_all icache_size iline;
     Some (m, dflush, iflush)
   }"

section \<open>Constructors and destructors\<close>

text \<open>The pointer walks from the last entry down to the first; \<open>run\<close> calls a function.\<close>

function table_loop :: "(u32 \<Rightarrow> 's \<Rightarrow> 's) \<Rightarrow> u32 list \<Rightarrow> int \<Rightarrow> 's \<Rightarrow> 's" where
  "table_loop run tbl i s = (if 0 \<le> i then table_loop run tbl (i - 1) (run (tbl ! nat i) s) else s)"
  by pat_completeness auto
termination by (relation "measure (\<lambda>(r, t, i, s). nat (i + 1))") auto

declare table_loop.simps [simp del]

definition do_ctors :: "(u32 \<Rightarrow> 's \<Rightarrow> 's) \<Rightarrow> u32 list \<Rightarrow> 's \<Rightarrow> 's" where
  "do_ctors run ctor_tab s = table_loop run ctor_tab (int (length ctor_tab) - 1) s"

definition do_dtors :: "(u32 \<Rightarrow> 's \<Rightarrow> 's) \<Rightarrow> u32 list \<Rightarrow> 's \<Rightarrow> 's" where
  "do_dtors run dtor_tab s = table_loop run dtor_tab (int (length dtor_tab) - 1) s"

section \<open>From reset to \<open>main\<close>\<close>

definition alt_irq_init :: "'m cpu_scheme \<Rightarrow> 'm cpu_scheme" where
  "alt_irq_init s = (let s = altera_nios2_gen2_irq_init s in alt_irq_cpu_enable_interrupts s)"

text \<open>The small UART driver has nothing to initialise: \<open>None\<close>.\<close>

definition alt_sys_init :: "('s \<Rightarrow> 's) option \<Rightarrow> 's \<Rightarrow> 's" where
  "alt_sys_init uart_init s = (case uart_init of Some init \<Rightarrow> init s | None \<Rightarrow> s)"

text \<open>The build's switches, and what \<open>alt_main\<close> calls in other files or libraries.\<close>

record boot_cfg =
  use_direct_drivers :: bool
  no_c_plus_plus :: bool
  no_clean_exit :: bool
  no_exit :: bool

record 's boot_calls =
  uart_setup :: "('s \<Rightarrow> 's) option"
  io_redirect :: "'s \<Rightarrow> 's"
  run_ctors :: "'s \<Rightarrow> 's"
  at_exit_dtors :: "'s \<Rightarrow> 's"
  main_fn :: "'s \<Rightarrow> int \<times> 's"
  close_stdout :: "'s \<Rightarrow> 's"
  exit_fn :: "int \<Rightarrow> 's \<Rightarrow> 's"

definition alt_main :: "boot_cfg \<Rightarrow> 'm cpu_scheme boot_calls \<Rightarrow> 'm cpu_scheme \<Rightarrow> 'm cpu_scheme" where
  "alt_main cfg calls s =
     (let s = alt_irq_init s;
          s = alt_sys_init (uart_setup calls) s;
          s = (if \<not> use_direct_drivers cfg then io_redirect calls s else s);
          s = (if \<not> no_c_plus_plus cfg then run_ctors calls s else s);
          s = (if \<not> no_c_plus_plus cfg \<and> \<not> no_clean_exit cfg \<and> \<not> no_exit cfg then at_exit_dtors calls s else s);
          (result, s) = main_fn calls s
      in if no_exit cfg then s else exit_fn calls result (close_stdout calls s))"

section \<open>Signals and the stubs\<close>

text \<open>The C library's signal numbers are a parameter, as the classes the \<open>switch\<close> has.\<close>

datatype signal_class = Sig_null | Sig_terminates | Sig_ignored | Sig_unknown

datatype kill_outcome = Exits int | Returns int

definition alt_kill ::
  "(int \<Rightarrow> signal_class) \<Rightarrow> int \<Rightarrow> int \<Rightarrow> 'm dev_state_scheme \<Rightarrow> kill_outcome \<times> 'm dev_state_scheme" where
  "alt_kill class_of pid sig s =
     (if pid \<le> 0 \<and> class_of sig = Sig_terminates then (Exits 0, s)
      else let status = (if pid \<le> 0 then (if class_of sig = Sig_unknown then 22 else 0) else 3)
           in if status \<noteq> 0 then (Returns (- 1), s\<lparr>errno := status\<rparr>) else (Returns 0, s))"

definition alt_execve :: "'m dev_state_scheme \<Rightarrow> int \<times> 'm dev_state_scheme" where
  "alt_execve s = (- 1, s\<lparr>errno := ENOSYS_fd\<rparr>)"

definition alt_fork :: "'m dev_state_scheme \<Rightarrow> int \<times> 'm dev_state_scheme" where
  "alt_fork s = (- 1, s\<lparr>errno := ENOSYS_fd\<rparr>)"

definition alt_getpid :: int where
  "alt_getpid = 0"

definition alt_link :: "'m dev_state_scheme \<Rightarrow> int \<times> 'm dev_state_scheme" where
  "alt_link s = (- 1, s\<lparr>errno := ENOSYS_fd\<rparr>)"

definition alt_rename :: "'m dev_state_scheme \<Rightarrow> int \<times> 'm dev_state_scheme" where
  "alt_rename s = (- 1, s\<lparr>errno := ENOSYS_fd\<rparr>)"

definition alt_unlink :: "'m dev_state_scheme \<Rightarrow> int \<times> 'm dev_state_scheme" where
  "alt_unlink s = (- 1, s\<lparr>errno := ENOSYS_fd\<rparr>)"

text \<open>The second result is \<open>*status\<close>.\<close>

definition alt_wait :: "'m dev_state_scheme \<Rightarrow> int \<times> int \<times> 'm dev_state_scheme" where
  "alt_wait s = (- 1, 0, s\<lparr>errno := 10\<rparr>)"

section \<open>Instruction exceptions\<close>

text \<open>A handler gets the cause, the program counter and the bad address.\<close>

type_synonym 's exc_handler = "int \<Rightarrow> u32 \<Rightarrow> u32 \<Rightarrow> 's \<Rightarrow> int \<times> 's"

definition alt_instruction_exception_register ::
  "'s exc_handler option \<Rightarrow> 's exc_handler option \<Rightarrow> 's exc_handler option" where
  "alt_instruction_exception_register hdlr old = hdlr"

text \<open>
  \<open>extra_info\<close>: the processor has the exception register, whose value and that of \<open>BADADDR\<close>
  follow; \<open>debug_stub\<close>: it has a break instruction.  \<open>None\<close> is the endless loop.
\<close>

definition alt_instruction_exception_entry ::
  "bool \<Rightarrow> bool \<Rightarrow> 's exc_handler option \<Rightarrow> u32 \<Rightarrow> u32 \<Rightarrow> u32 \<Rightarrow> 's \<Rightarrow> (int \<times> 's) option" where
  "alt_instruction_exception_entry extra_info debug_stub hdlr exception_reg badaddr_reg exception_pc s =
     (let (cause, badaddr) =
        (if extra_info then (uint (drop_bit 2 (exception_reg AND 0x7c)), badaddr_reg) else (- 1, 0))
      in case hdlr of
           Some h \<Rightarrow> Some (h cause exception_pc badaddr s)
         | None \<Rightarrow> if debug_stub then Some (0, s) else None)"

definition alt_exception_cause_generated_bad_addr :: "int \<Rightarrow> int" where
  "alt_exception_cause_generated_bad_addr cause = (if cause \<in> {11, 6, 7, 14, 15, 17, 21} then 1 else 0)"

text \<open>The new handler, and what is flushed: four bytes at the variable's address.\<close>

definition alt_ecc_fatal_exception_register :: "u32 \<Rightarrow> u32 \<Rightarrow> u32 \<Rightarrow> u32 \<Rightarrow> (u32 \<times> u32 list) option" where
  "alt_ecc_fatal_exception_register dcache_size line_size variable hdlr = do {
     flushed \<leftarrow> alt_dcache_flush dcache_size line_size variable 4;
     Some (hdlr, flushed)
   }"

section \<open>The calibrated delay\<close>

text \<open>How often the two loops in assembly language run, from the value in their register.\<close>

lemma down_less: "n - 1 \<noteq> 0 \<Longrightarrow> unat (n - 2) < unat (n - 1)" for n :: u32
proof -
  assume "n - 1 \<noteq> 0"
  then have a: "unat (n - 1 - 1) = unat (n - 1) - 1" and b: "unat (n - 1) \<noteq> 0"
    using unat_minus_one [of "n - 1"] unat_eq_0 [of "n - 1"] by blast+
  have "n - 1 - 1 = n - 2" by simp
  then show ?thesis using a b by (metis diff_less neq0_conv zero_less_one)
qed

function rounds_bne :: "u32 \<Rightarrow> nat" where
  "rounds_bne n = (if n - 1 \<noteq> 0 then Suc (rounds_bne (n - 1)) else 1)"
  by pat_completeness auto
termination by (relation "measure (\<lambda>n. unat (n - 1))") (use down_less in simp_all)

function rounds_bgt :: "u32 \<Rightarrow> nat" where
  "rounds_bgt n = (if 0 < sint (n - 1) then Suc (rounds_bgt (n - 1)) else 1)"
  by pat_completeness auto
termination by (relation "measure (\<lambda>n. unat (n - 1))") (use down_less in \<open>auto intro!: down_less\<close>)

declare rounds_bne.simps [simp del] rounds_bgt.simps [simp del]

text \<open>The rounds of the loop over \<open>big_loops\<close>, and what is left of \<open>us\<close>.\<close>

primrec big_loop :: "u32 \<Rightarrow> nat \<Rightarrow> u32 \<Rightarrow> nat \<times> u32" where
  "big_loop limit 0 us = (0, us)"
| "big_loop limit (Suc n) us = (let (r, us) = big_loop limit n (us - limit) in (rounds_bne 0x7FFFFFFF + r, us))"

text \<open>\<open>alt_busy_sleep\<close>: the number of rounds, each of \<open>cycles_per_loop\<close> cycles.\<close>

definition alt_busy_sleep :: "u32 \<Rightarrow> bool \<Rightarrow> u32 \<Rightarrow> nat" where
  "alt_busy_sleep cpu_freq tiny us =
     (let cycles_per_loop = (if tiny then 9 else 3);
          per_us = cpu_freq div (cycles_per_loop * 1000000);
          limit = 0x7FFFFFFF div per_us;
          big_loops = us div limit
      in if big_loops \<noteq> 0 then
           (let (r, us) = big_loop limit (unat big_loops) us in r + rounds_bne (us * per_us))
         else rounds_bgt (us * per_us))"

definition alt_usleep :: "u32 \<Rightarrow> bool \<Rightarrow> u32 \<Rightarrow> nat" where
  "alt_usleep cpu_freq tiny us = alt_busy_sleep cpu_freq tiny us"

section \<open>What loading does\<close>

lemma load_loop_ok:
  assumes "n < 2 ^ 30" "\<And>i j. i < j \<Longrightarrow> j < n \<Longrightarrow> dest + 4 * of_nat i \<noteq> source + 4 * of_nat j"
  shows "\<exists>m'. load_loop source dest (dest + 4 * of_nat n) m = Some m'
    \<and> (\<forall>k < n. m' (dest + 4 * of_nat k) = m (source + 4 * of_nat k))
    \<and> (\<forall>a. (\<forall>k < n. a \<noteq> dest + 4 * of_nat k) \<longrightarrow> m' a = m a)"
  using assms
proof (induction n arbitrary: source dest m)
  case 0
  show ?case by (subst load_loop.simps) simp
next
  case (Suc n)
  let ?m = "m(dest := m source)"
  have four: "(4 :: u32) * of_nat i \<noteq> 0" if "0 < i" "i < 2 ^ 30" for i
  proof -
    have "unat (of_nat (4 * i) :: u32) = 4 * i" using that by (intro unat_u32_small) simp
    then show ?thesis using that by (auto simp: unat_eq_0 [symmetric])
  qed
  have shift: "x + 4 + 4 * of_nat k = x + 4 * of_nat (Suc k)" for x :: u32 and k by (simp add: algebra_simps)
  have "dest \<noteq> dest + 4 * of_nat (Suc n)" using four [of "Suc n"] Suc.prems(1) by simp
  then have step: "load_loop source dest (dest + 4 * of_nat (Suc n)) m
      = load_loop (source + 4) (dest + 4) (dest + 4 + 4 * of_nat n) ?m"
    by (subst load_loop.simps) (simp only: shift if_True not_False_eq_True)
  have al: "dest + 4 + 4 * of_nat i \<noteq> source + 4 + 4 * of_nat j" if "i < j" "j < n" for i j
    unfolding shift using Suc.prems(2) [of "Suc i" "Suc j"] that by simp
  have n: "n < 2 ^ 30" using Suc.prems(1) by simp
  have "\<exists>m'. load_loop (source + 4) (dest + 4) (dest + 4 + 4 * of_nat n) ?m = Some m'
      \<and> (\<forall>k < n. m' (dest + 4 + 4 * of_nat k) = ?m (source + 4 + 4 * of_nat k))
      \<and> (\<forall>a. (\<forall>k < n. a \<noteq> dest + 4 + 4 * of_nat k) \<longrightarrow> m' a = ?m a)"
    by (rule Suc.IH [OF n]) (rule al)
  then obtain m' where IH:
    "load_loop (source + 4) (dest + 4) (dest + 4 + 4 * of_nat n) ?m = Some m'
      \<and> (\<forall>k < n. m' (dest + 4 + 4 * of_nat k) = ?m (source + 4 + 4 * of_nat k))
      \<and> (\<forall>a. (\<forall>k < n. a \<noteq> dest + 4 + 4 * of_nat k) \<longrightarrow> m' a = ?m a)" by (elim exE)
  note m'1 = conjunct1 [OF IH] and m'2 = conjunct1 [OF conjunct2 [OF IH]] and m'3 = conjunct2 [OF conjunct2 [OF IH]]
  have first: "dest \<noteq> dest + 4 + 4 * of_nat k" if "k < n" for k
    unfolding shift using four [of "Suc k"] that Suc.prems(1) by simp
  have zero: "m' dest = m source" using m'3 [rule_format, of dest] first by simp
  have later: "m' (dest + 4 * of_nat (Suc k)) = m (source + 4 * of_nat (Suc k))" if "k < n" for k
    using m'2 [rule_format, OF that] Suc.prems(2) [of 0 "Suc k"] that unfolding shift by auto
  have copied: "\<forall>k < Suc n. m' (dest + 4 * of_nat k) = m (source + 4 * of_nat k)"
  proof (intro allI impI)
    fix k assume "k < Suc n"
    then show "m' (dest + 4 * of_nat k) = m (source + 4 * of_nat k)"
      using zero later by (cases k) simp_all
  qed
  have frame: "m' a = m a" if "\<forall>k < Suc n. a \<noteq> dest + 4 * of_nat k" for a
  proof -
    have "\<forall>k < n. a \<noteq> dest + 4 + 4 * of_nat k" unfolding shift using that by blast
    moreover have "a \<noteq> dest" using that [rule_format, of 0] by simp
    ultimately show ?thesis using m'3 [rule_format, of a] by simp
  qed
  show ?case unfolding step using m'1 copied frame by (intro exI [of _ m'] conjI allI impI) simp_all
qed

text \<open>
  Loading a section of \<open>n\<close> words ends, when no word is overwritten before it is copied, with
  every word of the section at its address in RAM and no other word of memory changed.
\<close>

theorem load_section_copies:
  assumes "ram_end y = ram_start y + 4 * of_nat n" "n < 2 ^ 30" "ram_start y \<noteq> flash_start y"
    and "\<And>i j. i < j \<Longrightarrow> j < n \<Longrightarrow> ram_start y + 4 * of_nat i \<noteq> flash_start y + 4 * of_nat j"
  shows "\<exists>m'. load_symbols y m = Some m'
    \<and> (\<forall>k < n. m' (ram_start y + 4 * of_nat k) = m (flash_start y + 4 * of_nat k))
    \<and> (\<forall>a. (\<forall>k < n. a \<noteq> ram_start y + 4 * of_nat k) \<longrightarrow> m' a = m a)"
  using load_loop_ok [OF assms(2,4), of m] assms(1,3)
  by (simp add: load_symbols_def alt_load_section_def)

lemma table_loop_rev: "n \<le> length tbl \<Longrightarrow> table_loop run tbl (int n - 1) s = fold run (rev (take n tbl)) s"
proof (induction n arbitrary: s)
  case 0
  show ?case by (subst table_loop.simps) simp
next
  case (Suc n)
  then show ?case by (subst table_loop.simps) (simp add: take_Suc_conv_app_nth)
qed

text \<open>Constructors run from the end of their table to its start; so do destructors.\<close>

lemma ctors_run_backwards: "do_ctors run ctor_tab s = fold run (rev ctor_tab) s"
  by (simp add: do_ctors_def table_loop_rev)

lemma dtors_run_backwards: "do_dtors run dtor_tab s = fold run (rev dtor_tab) s"
  by (simp add: do_dtors_def table_loop_rev)

text \<open>With this project's switches \<open>main\<close> starts with interrupts on and every line masked.\<close>

lemma main_starts_with_interrupts_on:
  assumes "use_direct_drivers cfg" "no_c_plus_plus cfg" "no_exit cfg" "uart_setup calls = None"
  shows "alt_main cfg calls s = snd (main_fn calls (s\<lparr>cpu_ienable := 0, cpu_status := 1\<rparr>))"
  using assms by (simp add: alt_main_def alt_irq_init_def alt_sys_init_def altera_nios2_gen2_irq_init_def
      alt_irq_cpu_enable_interrupts_def split_beta)

section \<open>How long the delay is\<close>

lemma rounds_bne_eq: "rounds_bne n = (if n = 0 then 2 ^ 32 else unat n)"
proof (induction n rule: rounds_bne.induct)
  case (1 n)
  show ?case
  proof (cases "n - 1 = 0")
    case True
    then show ?thesis by (subst rounds_bne.simps) auto
  next
    case False
    have "unat (n - 1) = (if n = 0 then 2 ^ 32 - 1 else unat n - 1)"
    proof (cases "n = 0")
      case True
      have "unat (0 - 1 :: u32) = 2 ^ 32 - 1" by (simp add: unsigned_minus_1_eq_mask mask_eq_exp_minus_1)
      then show ?thesis using True by simp
    qed (simp add: unat_minus_one)
    moreover have "n \<noteq> 0 \<Longrightarrow> 0 < unat n" by (simp add: unat_gt_0)
    ultimately show ?thesis using 1 False by (subst rounds_bne.simps) auto
  qed
qed

lemma rounds_bgt_eq: "unat n < 2 ^ 31 \<Longrightarrow> rounds_bgt n = (if n = 0 then 1 else unat n)"
proof (induction n rule: rounds_bgt.induct)
  case (1 n)
  consider "n = 0" | "n = 1" | "n \<noteq> 0" "n \<noteq> 1" by blast
  then show ?case
  proof cases
    case 1
    then show ?thesis by (subst rounds_bgt.simps) simp
  next
    case 2
    then show ?thesis by (subst rounds_bgt.simps) simp
  next
    case 3
    then have u: "unat (n - 1) = unat n - 1" by (simp add: unat_minus_one)
    have "unat n \<noteq> unat (1 :: u32)" using 3(2) by (simp only: word_unat_eq_iff not_False_eq_True)
    moreover have "unat n \<noteq> 0" using 3(1) by (simp add: unat_eq_0)
    ultimately have "unat n \<noteq> 0" "unat n \<noteq> 1" by simp_all
    note un = this
    moreover have "sint (n - 1) = int (unat (n - 1))" by (rule sint_u32_small) (use u 1(2) in simp)
    ultimately have p: "0 < sint (n - 1)" using u by linarith
    then show ?thesis using 1 u 3 un by (subst rounds_bgt.simps) auto
  qed
qed

theorem load_section_copies_witness:
  "\<exists>m'. load_symbols \<lparr>flash_start = 0x1000, ram_start = 0x2000, ram_end = 0x2008\<rparr> (\<lambda>a. a) = Some m'
    \<and> m' 0x2000 = 0x1000 \<and> m' 0x2004 = 0x1004 \<and> m' 0x2008 = 0x2008"
proof -
  let ?y = "\<lparr>flash_start = 0x1000, ram_start = 0x2000, ram_end = 0x2008\<rparr>"
  have pairs: "i = 0 \<and> j = 1" if "i < j" "j < 2" for i j :: nat using that by simp
  have "ram_start ?y + 4 * of_nat i \<noteq> flash_start ?y + 4 * of_nat j" if "i < j" "j < 2" for i j
    using pairs [OF that] by simp
  from load_section_copies [of ?y 2 "\<lambda>a. a", OF _ _ _ this] obtain m' where
    m': "load_symbols ?y (\<lambda>a. a) = Some m'" "\<forall>k < 2. m' (0x2000 + 4 * of_nat k) = 0x1000 + 4 * of_nat k"
      "\<forall>a. (\<forall>k < 2. a \<noteq> 0x2000 + 4 * of_nat k) \<longrightarrow> m' a = a" by auto
  have "m' 0x2000 = 0x1000" "m' 0x2004 = 0x1004"
    using m'(2) [rule_format, of 0] m'(2) [rule_format, of 1] by simp_all
  moreover have "(0x2008 :: u32) \<noteq> 0x2000 + 4 * of_nat k" if "k < 2" for k
  proof -
    have "k = 0 \<or> k = 1" using that by arith
    then show ?thesis by auto
  qed
  then have "m' 0x2008 = 0x2008" using m'(3) by blast
  ultimately show ?thesis using m'(1) by blast
qed

lemma big_loop_eq:
  "n * unat limit \<le> unat us \<Longrightarrow> big_loop limit n us = (n * 0x7FFFFFFF, us - of_nat n * limit)"
proof (induction n arbitrary: us)
  case (Suc n)
  have "unat (us - limit) = unat us - unat limit"
    using Suc.prems by (intro unat_sub) (simp add: word_le_nat_alt)
  then have "n * unat limit \<le> unat (us - limit)" using Suc.prems by simp
  moreover have "rounds_bne 0x7FFFFFFF = 0x7FFFFFFF" by (simp add: rounds_bne_eq)
  ultimately show ?case using Suc.IH [of "us - limit"] by (simp add: algebra_simps)
qed simp

lemma busy_sleep_long:
  assumes "us div 429496729 \<noteq> 0"
  shows "alt_busy_sleep 50000000 True us = 5 * unat us + 2 * (unat us div 429496729)
    + (if unat us mod 429496729 = 0 then 2 ^ 32 else 0)"
proof -
  let ?q = "unat us div 429496729"
  have q: "unat (us div 429496729) = ?q" by (simp add: unat_div)
  have less: "unat us < 2 ^ 32" by (rule unat_u32_lt)
  have us: "us \<noteq> 0" using assms by auto
  define r where "r = us - of_nat ?q * 429496729"
  have b: "big_loop 429496729 ?q us = (?q * 0x7FFFFFFF, r)" unfolding r_def
    by (rule big_loop_eq) (simp add: div_times_less_eq_dividend)
  have prod: "unat (of_nat ?q * 429496729 :: u32) = ?q * 429496729"
  proof -
    have "?q * 429496729 \<le> unat us" by simp
    then have "unat (of_nat (?q * 429496729) :: u32) = ?q * 429496729" using less by (intro unat_u32_small) linarith
    then show ?thesis by simp
  qed
  have "unat r = unat us - ?q * 429496729"
    unfolding r_def using prod by (subst unat_sub) (simp_all add: word_le_nat_alt)
  then have r: "unat r = unat us mod 429496729" by (simp add: minus_div_mult_eq_mod)
  then have u: "unat (r * 5) = 5 * unat r" by (simp add: unat_word_ariths)
  then have "r * 5 = 0 \<longleftrightarrow> unat r = 0" by (metis mult_is_0 unat_eq_0 zero_neq_numeral)
  then have "rounds_bne (r * 5) = 5 * unat r + (if unat r = 0 then 2 ^ 32 else 0)" using u by (simp add: rounds_bne_eq)
  then have "alt_busy_sleep 50000000 True us
      = ?q * 0x7FFFFFFF + 5 * (unat us mod 429496729) + (if unat us mod 429496729 = 0 then 2 ^ 32 else 0)"
    using assms b r by (simp add: alt_busy_sleep_def q)
  moreover have e: "unat us = ?q * 429496729 + unat us mod 429496729" by (simp only: div_mult_mod_eq)
  ultimately show ?thesis using us by simp (use e in linarith)
qed

text \<open>
  C36: On this project's processor the delay of \<open>us\<close> microseconds is \<open>5 us\<close> rounds of the loop,
  two more for each 429496729 microseconds, one for \<open>us = 0\<close>, and a further \<open>2^32\<close> when
  \<open>us\<close> is a positive multiple of 429496729: the register then starts at 0 and counts down
  through all its values.
\<close>

theorem busy_sleep_rounds:
  "alt_busy_sleep 50000000 True us = 5 * unat us + 2 * (unat us div 429496729)
    + (if us = 0 then 1 else if unat us mod 429496729 = 0 then 2 ^ 32 else 0)"
proof -
  let ?q = "unat us div 429496729"
  have q: "unat (us div 429496729) = ?q" by (simp add: unat_div)
  show ?thesis
  proof (cases "us div 429496729 = 0")
    case True
    then have "?q = 0" using q by simp
    then have small: "unat us < 429496729" by simp
    then have u: "unat (us * 5) = 5 * unat us" by (simp add: unat_word_ariths)
    have "rounds_bgt (us * 5) = (if us * 5 = 0 then 1 else unat (us * 5))"
      by (rule rounds_bgt_eq) (use u small in simp)
    moreover have "us * 5 = 0 \<longleftrightarrow> us = 0" using u by (metis mult_is_0 unat_eq_0 zero_neq_numeral)
    moreover have "unat us mod 429496729 = 0 \<longleftrightarrow> us = 0" using small by (simp add: unat_eq_0)
    ultimately show ?thesis using True u \<open>?q = 0\<close> by (auto simp: alt_busy_sleep_def)
  next
    case False
    then show ?thesis using busy_sleep_long [OF False] by auto
  qed
qed

end
