(* ===== verification/Support.thy ===== *)
theory Support
  imports Boot
begin

text \<open>
  The last pieces of the run-time support, inline functions of headers under \<open>HAL/inc\<close>: the
  stack limit (\<open>sys/alt_stack.h\<close>), the arguments of \<open>main\<close> (\<open>sys/alt_set_args.h\<close>), where \<open>errno\<close>
  is (\<open>sys/alt_errno.h\<close>), the semaphore calls of the single-threaded HAL
  (\<open>priv/alt_no_error.h\<close>), and what \<open>_exit\<close> tells a simulator (\<open>sys/alt_sim.h\<close>).
\<close>

section \<open>The stack\<close>

text \<open>The registers \<open>et\<close> and \<open>sp\<close>, and the limit's copy in memory.\<close>

record stack_state =
  et_register :: u32
  sp_register :: u32
  alt_stack_limit_value :: u32

definition alt_stack_limit :: "'m stack_state_scheme \<Rightarrow> u32" where
  "alt_stack_limit s = et_register s"

definition alt_stack_pointer :: "'m stack_state_scheme \<Rightarrow> u32" where
  "alt_stack_pointer s = sp_register s"

definition alt_set_stack_limit :: "u32 \<Rightarrow> 'm stack_state_scheme \<Rightarrow> 'm stack_state_scheme" where
  "alt_set_stack_limit limit s = (let s = s\<lparr>alt_stack_limit_value := limit\<rparr> in s\<lparr>et_register := limit\<rparr>)"

text \<open>\<open>stack_end\<close> is the linker's symbol for the end of the exception stack.\<close>

definition alt_exception_stack_pointer :: "u32 \<Rightarrow> word_mem \<Rightarrow> u32" where
  "alt_exception_stack_pointer stack_end m = m (stack_end - 4)"

lemma stack_limit_set: "alt_stack_limit (alt_set_stack_limit limit s) = limit"
  "alt_stack_limit_value (alt_set_stack_limit limit s) = alt_stack_limit (alt_set_stack_limit limit s)"
  by (simp_all add: alt_stack_limit_def alt_set_stack_limit_def)

section \<open>Arguments, \<open>errno\<close> and semaphores\<close>

record main_args =
  alt_argc :: int
  alt_argv :: u32
  alt_envp :: u32

definition main_args_start :: main_args where
  "main_args_start = \<lparr>alt_argc = 0, alt_argv = 0, alt_envp = 0\<rparr>"

definition alt_set_args :: "int \<Rightarrow> u32 \<Rightarrow> u32 \<Rightarrow> 'm main_args_scheme \<Rightarrow> 'm main_args_scheme" where
  "alt_set_args argc argv envp s = s\<lparr>alt_argc := argc, alt_argv := argv, alt_envp := envp\<rparr>"

text \<open>
  \<open>alt_errno_fn\<close> is the pointer \<open>alt_errno\<close>, null when the C library's \<open>__errno\<close> is not linked,
  and \<open>call\<close> runs it; \<open>global\<close> is the address of the variable \<open>errno\<close>.
\<close>

definition alt_get_errno :: "u32 \<Rightarrow> (u32 \<Rightarrow> addr) \<Rightarrow> addr \<Rightarrow> addr" where
  "alt_get_errno alt_errno_fn call global = (if alt_errno_fn \<noteq> 0 then call alt_errno_fn else global)"

definition alt_no_error :: int where
  "alt_no_error = 0"

section \<open>The end of a simulation\<close>

text \<open>Instructions that a simulator or debugger looks for; the loop's register starts at the given value.\<close>

datatype sim_step = Sim_fail | Sim_pass | Sim_delay u32 | Sim_break int u32 "u32 option"

definition alt_sim_halt :: "bool \<Rightarrow> bool \<Rightarrow> bool \<Rightarrow> u32 \<Rightarrow> u32 \<Rightarrow> int \<Rightarrow> sim_step list" where
  "alt_sim_halt debug_stub break_on_exit provide_gmon cpu_freq gmon_data exit_code =
     (let verdict = (if exit_code \<noteq> 0 then Sim_fail else Sim_pass)
      in if debug_stub \<and> (break_on_exit \<or> provide_gmon) then
           [verdict, Sim_delay (cpu_freq div 100),
            Sim_break exit_code (if provide_gmon then 4 OR 16 else 4) (if provide_gmon then Some gmon_data else None)]
         else [verdict])"

text \<open>
  The delay is the loop of \<open>alt_busy_sleep\<close>: 500,000 rounds on this project's 50 MHz processor, 30
  milliseconds when a round takes three cycles.
\<close>

lemma sim_delay_rounds: "rounds_bgt (50000000 div 100) = 500000"
proof -
  have "rounds_bgt 500000 = (if (500000 :: u32) = 0 then 1 else unat (500000 :: u32))"
    by (rule rounds_bgt_eq) simp
  then show ?thesis by simp
qed

end
