(* ===== verification/Log.thy ===== *)
theory Log
  imports Stdio
begin

text \<open>
  The log of the HAL, \<open>alt_log_printf.c\<close> and \<open>sys/alt_log_printf.h\<close>: a second \<open>printf\<close>, an
  automaton over the format, and what the macros in the other files report with it.

  \<open>int\<close> variables of the format are integers (C leaves their overflow undefined); the
  arguments of \<open>long\<close> and \<open>int\<close> have the same width.
\<close>

section \<open>Characters\<close>

text \<open>The wait for room in the device; the transmit register takes the low byte.\<close>

partial_function (option) alt_log_txchar :: "'h uart_hw \<Rightarrow> u32 \<Rightarrow> 'h \<Rightarrow> 'h option" where
  "alt_log_txchar hw c h =
     (let (control, h) = hw_control hw h in
      if control AND CONTROL_WSPACE = 0 then alt_log_txchar hw c h else Some (hw_put_data hw (ucast c) h))"

declare alt_log_txchar.simps [code]

text \<open>As the output function of the format code; there is no result.\<close>

definition log_put :: "'h uart_hw \<Rightarrow> 'h put_fn" where
  "log_put hw c h = map_option (Pair 0) (alt_log_txchar hw c h)"

function alt_log_repchar :: "'s put_fn \<Rightarrow> u8 \<Rightarrow> int \<Rightarrow> 's \<Rightarrow> 's option" where
  "alt_log_repchar put c r s =
     (if 0 < r then do { s \<leftarrow> put1 put (ucast c) s; alt_log_repchar put c (r - 1) s } else Some s)"
  by pat_completeness auto
termination by (relation "measure (\<lambda>(put, c, r, s). nat r)") auto

declare alt_log_repchar.simps [simp del]

section \<open>The format automaton\<close>

datatype pf_state = Pf_chars | Pf_first_fmt_char | Pf_other_fmt_char

record pf =
  fmt_leading_zero :: bool
  fmt_long :: bool
  fmt_before :: int
  fmt_after :: int
  fmt_base :: u32
  fmt_signed :: bool
  fmt_upper :: bool

definition pf_zero :: pf where
  "pf_zero = \<lparr>fmt_leading_zero = False, fmt_long = False, fmt_before = 0, fmt_after = 0, fmt_base = 0,
     fmt_signed = False, fmt_upper = False\<rparr>"

definition pf_start :: pf where
  "pf_start = \<lparr>fmt_leading_zero = False, fmt_long = False, fmt_before = - 1, fmt_after = - 1, fmt_base = 10,
     fmt_signed = True, fmt_upper = False\<rparr>"

text \<open>The characters between \<open>%\<close> and the letter.\<close>

definition flag_char :: "u8 \<Rightarrow> bool" where
  "flag_char c \<longleftrightarrow> c = 0x2e \<or> 0x30 \<le> c \<and> c \<le> 0x39 \<or> c = 0x6c"

definition fmt_flag :: "pf \<Rightarrow> u8 \<Rightarrow> pf" where
  "fmt_flag f c =
     (if c = 0x2e then f\<lparr>fmt_after := 0\<rparr>
      else if 0x30 \<le> c \<and> c \<le> 0x39 then
        (let d = int (unat (c - 0x30)) in
         if fmt_after f < 0 then f\<lparr>fmt_before := (if fmt_before f < 0 then 0 else fmt_before f * 10) + d\<rparr>
         else f\<lparr>fmt_after := fmt_after f * 10 + d\<rparr>)
      else f\<lparr>fmt_long := True\<rparr>)"

text \<open>The largest power of the base, and the number of digits.\<close>

partial_function (option) place_loop :: "u32 \<Rightarrow> u32 \<Rightarrow> u32 \<Rightarrow> int \<Rightarrow> (u32 \<times> int) option" where
  "place_loop b v_shrink p digit_count =
     (let v_shrink = v_shrink div b in
      if 0 < v_shrink then place_loop b v_shrink (p * b) (digit_count + 1) else Some (p, digit_count))"

definition log_digit :: "bool \<Rightarrow> u8 \<Rightarrow> u8" where
  "log_digit upper d =
     (let d = d + 0x30 in if 0x39 < d then d + ((if upper then 0x41 else 0x61) - 0x30 - 10) else d)"

partial_function (option) number_loop :: "'s put_fn \<Rightarrow> bool \<Rightarrow> u32 \<Rightarrow> u32 \<Rightarrow> u32 \<Rightarrow> 's \<Rightarrow> 's option" where
  "number_loop put upper b v p s =
     (if p \<noteq> 0 then do {
        s \<leftarrow> put1 put (ucast (log_digit upper (ucast (v div p)))) s;
        number_loop put upper b (v mod p) (p div b) s
      } else Some s)"

declare place_loop.simps [code] number_loop.simps [code]

definition print_integer :: "'s put_fn \<Rightarrow> pf \<Rightarrow> u32 \<Rightarrow> 's \<Rightarrow> 's option" where
  "print_integer put f v s = do {
     let sign = (fmt_signed f \<and> v AND 0x80000000 \<noteq> 0);
     let v = (if sign then NOT v + 1 else v);
     (p, digit_count) \<leftarrow> place_loop (fmt_base f) v 1 1;
     let before = fmt_before f - digit_count;
     s \<leftarrow> (if fmt_leading_zero f then
             (if sign then do { s \<leftarrow> put1 put 0x2d s; alt_log_repchar put 0x30 (before - 1) s }
              else alt_log_repchar put 0x30 before s)
           else do {
             s \<leftarrow> alt_log_repchar put 0x20 (if sign then before - 1 else before) s;
             if sign then put1 put 0x2d s else Some s
           });
     number_loop put (fmt_upper f) (fmt_base f) v p s
   }"

text \<open>The letter that ends a field; any other character ends it with nothing printed.\<close>

definition fmt_letter :: "'s put_fn \<Rightarrow> pf \<Rightarrow> u8 \<Rightarrow> arg list \<Rightarrow> 's \<Rightarrow> (arg list \<times> 's) option" where
  "fmt_letter put f c args s =
     (let number = (\<lambda>f. case args of Num v # args \<Rightarrow> do { s \<leftarrow> print_integer put f v s; Some (args, s) } | _ \<Rightarrow> None)
      in if c = 0x64 \<or> c = 0x69 then number f
         else if c = 0x75 then number (f\<lparr>fmt_signed := False\<rparr>)
         else if c = 0x6f then number (f\<lparr>fmt_signed := False, fmt_base := 8\<rparr>)
         else if c = 0x78 then number (f\<lparr>fmt_signed := False, fmt_base := 16\<rparr>)
         else if c = 0x58 then number (f\<lparr>fmt_signed := False, fmt_base := 16, fmt_upper := True\<rparr>)
         else if c = 0x63 then
           (case args of Num v # args \<Rightarrow> do {
                s \<leftarrow> alt_log_repchar put 0x20 (fmt_before f - 1) s;
                s \<leftarrow> put1 put v s;
                Some (args, s)
              } | _ \<Rightarrow> None)
         else if c = 0x73 then
           (case args of Str str # args \<Rightarrow> do {
                s \<leftarrow> alt_log_repchar put 0x20 (fmt_before f - int (length str)) s;
                s \<leftarrow> print_str put str s;
                Some (args, s)
              } | _ \<Rightarrow> None)
         else Some (args, s))"

text \<open>One turn of the loop over the format.\<close>

definition other_fmt_char :: "'s put_fn \<Rightarrow> pf \<Rightarrow> u8 \<Rightarrow> arg list \<Rightarrow> 's \<Rightarrow> (pf_state \<times> pf \<times> arg list \<times> 's) option" where
  "other_fmt_char put f c args s =
     (if flag_char c then Some (Pf_other_fmt_char, fmt_flag f c, args, s)
      else do { (args, s) \<leftarrow> fmt_letter put f c args s; Some (Pf_chars, f, args, s) })"

definition log_step :: "'s put_fn \<Rightarrow> u8 \<Rightarrow> pf_state \<times> pf \<times> arg list \<times> 's \<Rightarrow> (pf_state \<times> pf \<times> arg list \<times> 's) option" where
  "log_step put c = (\<lambda>(st, f, args, s).
     case st of
       Pf_chars \<Rightarrow>
         if c = 0x25 then Some (Pf_first_fmt_char, pf_start, args, s)
         else do { s \<leftarrow> put1 put (ucast c) s; Some (Pf_chars, f, args, s) }
     | Pf_first_fmt_char \<Rightarrow>
         if c = 0x30 then Some (Pf_other_fmt_char, f\<lparr>fmt_leading_zero := True\<rparr>, args, s)
         else if c = 0x25 then do { s \<leftarrow> put1 put (ucast c) s; Some (Pf_chars, f, args, s) }
         else other_fmt_char put f c args s
     | Pf_other_fmt_char \<Rightarrow> other_fmt_char put f c args s)"

primrec log_loop :: "'s put_fn \<Rightarrow> u8 list \<Rightarrow> pf_state \<times> pf \<times> arg list \<times> 's \<Rightarrow> (pf_state \<times> pf \<times> arg list \<times> 's) option" where
  "log_loop put [] x = Some x"
| "log_loop put (c # w) x = do { x \<leftarrow> log_step put c x; log_loop put w x }"

definition alt_log_private_printf :: "'s put_fn \<Rightarrow> u8 list \<Rightarrow> arg list \<Rightarrow> 's \<Rightarrow> 's option" where
  "alt_log_private_printf put fmt args s = do {
     (_, _, _, s) \<leftarrow> log_loop put fmt (Pf_chars, pf_zero, args, s);
     Some s
   }"

definition alt_log_printf_proc :: "'h uart_hw \<Rightarrow> u8 list \<Rightarrow> arg list \<Rightarrow> 'h \<Rightarrow> (int \<times> 'h) option" where
  "alt_log_printf_proc hw fmt args h = do { h \<leftarrow> alt_log_private_printf (log_put hw) fmt args h; Some (0, h) }"

section \<open>What a number prints as\<close>

text \<open>The digits of a number, from the last one, and from the first one of \<open>k\<close>.\<close>

function digits_of :: "nat \<Rightarrow> nat \<Rightarrow> nat list" where
  "digits_of b n = (if b < 2 \<or> n < b then [n] else digits_of b (n div b) @ [n mod b])"
  by pat_completeness auto
termination by (relation "measure snd") (auto intro: div_less_dividend)

declare digits_of.simps [simp del]

definition pos_digits :: "nat \<Rightarrow> nat \<Rightarrow> nat \<Rightarrow> nat list" where
  "pos_digits b k n = map (\<lambda>i. n div b ^ i mod b) (rev [0..<k])"

lemma pos_digits_Suc: "pos_digits b (Suc k) n = n div b ^ k mod b # pos_digits b k n"
  by (simp add: pos_digits_def)

lemma pos_digits_last: "pos_digits b (Suc k) n = pos_digits b k (n div b) @ [n mod b]"
proof (induction k)
  case (Suc k)
  have "n div b ^ Suc k mod b = n div b div b ^ k mod b" by (simp add: div_mult2_eq)
  then show ?case using Suc by (simp add: pos_digits_Suc)
qed (simp add: pos_digits_def)

lemma pos_digits_mod: "pos_digits b k (n mod b ^ k) = pos_digits b k n"
proof -
  have "n mod b ^ k div b ^ i mod b = n div b ^ i mod b" if "i < k" for i
  proof -
    define j where "j = k - Suc i"
    have k: "b ^ k = b ^ i * (b * b ^ j)" using that unfolding j_def by (simp flip: power_add power_Suc)
    show ?thesis
    proof (cases "b = 0")
      case False
      then have "n mod b ^ k div b ^ i = n div b ^ i mod (b * b ^ j)" unfolding k by (simp add: mod_mult2_eq)
      then show ?thesis by (simp add: mod_mod_cancel)
    qed (use that in \<open>cases i; cases k; simp\<close>)
  qed
  then show ?thesis by (simp add: pos_digits_def)
qed

lemma digits_of_pos:
  assumes "2 \<le> b"
  shows "b ^ k \<le> n \<or> k = 0 \<Longrightarrow> n < b ^ Suc k \<Longrightarrow> digits_of b n = pos_digits b (Suc k) n"
proof (induction k arbitrary: n)
  case 0
  then show ?case using assms by (subst digits_of.simps) (simp add: pos_digits_def)
next
  case (Suc k)
  have "b \<le> b ^ Suc k" using assms by simp
  moreover have "b ^ Suc k \<le> n" using Suc.prems(1) by blast
  ultimately have big: "\<not> n < b" by linarith
  have "b ^ k \<le> n div b" "n div b < b ^ Suc k"
    using Suc.prems assms by (simp_all add: less_eq_div_iff_mult_less_eq div_less_iff_less_mult mult.commute)
  then have "digits_of b (n div b) = pos_digits b (Suc k) (n div b)" using Suc.IH by blast
  then show ?case using big assms by (subst digits_of.simps) (simp add: pos_digits_last [of b "Suc k"])
qed

definition digit_byte :: "bool \<Rightarrow> nat \<Rightarrow> u8" where
  "digit_byte upper d = (if d < 10 then of_nat (48 + d) else of_nat ((if upper then 55 else 87) + d))"

lemma log_digit_byte: "d < 16 \<Longrightarrow> log_digit upper (of_nat d) = digit_byte upper d"
proof -
  have "\<forall>d \<in> set [0..<16]. log_digit upper (of_nat d) = digit_byte upper d"
    by (simp add: upt_rec log_digit_def digit_byte_def)
  then show "d < 16 \<Longrightarrow> log_digit upper (of_nat d) = digit_byte upper d" by simp
qed

text \<open>A field of at least \<open>width\<close> characters: zeros follow the sign, spaces stand before it.\<close>

definition int_text :: "bool \<Rightarrow> nat \<Rightarrow> bool \<Rightarrow> bool \<Rightarrow> nat \<Rightarrow> u32 \<Rightarrow> u8 list" where
  "int_text zero width upper is_signed base v =
     (let neg = (is_signed \<and> 2 ^ 31 \<le> unat v);
          digits = map (digit_byte upper) (digits_of base (if neg then 2 ^ 32 - unat v else unat v));
          sign = (if neg then [0x2d] else []);
          fill = width - length digits - length sign
      in if zero then sign @ replicate fill 0x30 @ digits else replicate fill 0x20 @ sign @ digits)"

lemma sign_bit: "v AND 0x80000000 \<noteq> 0 \<longleftrightarrow> 2 ^ 31 \<le> unat v" for v :: u32
proof -
  have "v AND 0x80000000 \<noteq> 0 \<longleftrightarrow> bit v 31" using and_exp_eq_0_iff_not_bit [of v 31] by simp
  also have "\<dots> \<longleftrightarrow> odd (unat v div 2 ^ 31)" using bit_unsigned_iff [of v 31, where 'a = nat] by (simp add: bit_iff_odd)
  also have "\<dots> \<longleftrightarrow> 2 ^ 31 \<le> unat v"
  proof -
    have "unat v div 2 ^ 31 < 2" using unat_u32_lt [of v] by (simp add: div_less_iff_less_mult)
    then have "unat v div 2 ^ 31 = 0 \<or> unat v div 2 ^ 31 = 1" by linarith
    moreover have "unat v div 2 ^ 31 = 0 \<longleftrightarrow> unat v < 2 ^ 31" by (simp add: div_eq_0_iff)
    ultimately show ?thesis by (auto simp: not_le)
  qed
  finally show ?thesis .
qed

lemma unat_negate: "v \<noteq> 0 \<Longrightarrow> unat (NOT v + 1) = 2 ^ 32 - unat v" for v :: u32
proof -
  assume v: "v \<noteq> 0"
  let ?x = "unat v + unat (- v)"
  have "NOT v + 1 = - v" by (simp add: minus_eq_not_plus_1)
  moreover have "?x = 2 ^ 32"
  proof -
    have "?x mod 2 ^ LENGTH(32) = unat (v + - v)" by (rule unat_word_ariths(1) [symmetric])
    then have m: "?x mod 2 ^ 32 = 0" by simp
    have "0 < unat v" using v by (simp only: unat_gt_0 not_False_eq_True)
    then have ge: "2 ^ 32 \<le> ?x" using m by (cases "?x < 2 ^ 32") simp_all
    moreover have "?x - 2 ^ 32 < 2 ^ 32" using unat_u32_lt [of v] unat_u32_lt [of "- v"] by linarith
    ultimately have "?x mod 2 ^ 32 = ?x - 2 ^ 32" by (simp only: le_mod_geq mod_less)
    then show ?thesis using m ge by linarith
  qed
  ultimately show ?thesis by (metis diff_add_inverse)
qed

lemma place_loop_ok:
  assumes "2 \<le> unat b"
  shows "\<exists>k. place_loop b v p n = Some (p * b ^ k, n + int k)
    \<and> (unat b ^ k \<le> unat v \<or> k = 0) \<and> unat v < unat b ^ Suc k"
proof (induction "unat v" arbitrary: v p n rule: less_induct)
  case less
  have q: "unat (v div b) = unat v div unat b" by (simp add: unat_div)
  show ?case
  proof (cases "v div b = 0")
    case True
    then have "unat v div unat b = 0" using q by simp
    then have "unat v < unat b" using assms by (simp add: div_eq_0_iff)
    then show ?thesis using True by (intro exI [of _ 0]) (subst place_loop.simps, simp)
  next
    case False
    then have "unat v div unat b \<noteq> 0" using q by (metis unat_eq_0)
    then have "0 < unat v" by (cases "unat v") auto
    then have "unat (v div b) < unat v" unfolding q using assms by (intro div_less_dividend) auto
    from less [OF this, of "p * b" "n + 1"] obtain k where
      k: "place_loop b (v div b) (p * b) (n + 1) = Some (p * b * b ^ k, n + 1 + int k)"
        "unat b ^ k \<le> unat v div unat b \<or> k = 0" "unat v div unat b < unat b ^ Suc k" unfolding q by blast
    have "0 < v div b" using False by (simp add: word_neq_0_conv)
    then have "place_loop b v p n = Some (p * b ^ Suc k, n + int (Suc k))"
      using k(1) by (subst place_loop.simps) (simp add: Let_def mult.assoc)
    moreover have "unat b ^ Suc k \<le> unat v"
    proof -
      have "unat b ^ k \<le> unat v div unat b" using k(2) \<open>unat v div unat b \<noteq> 0\<close> by auto
      then show ?thesis using assms by (simp add: less_eq_div_iff_mult_less_eq mult.commute)
    qed
    moreover have "unat v < unat b ^ Suc (Suc k)"
      using k(3) assms by (simp add: div_less_iff_less_mult mult.commute)
    ultimately show ?thesis by blast
  qed
qed

lemma unat_power_small: "unat b ^ k < 2 ^ 32 \<Longrightarrow> unat (b ^ k) = unat b ^ k" for b :: u32
proof -
  assume "unat b ^ k < 2 ^ 32"
  then have "unat (of_nat (unat b ^ k) :: u32) = unat b ^ k" by (rule unat_u32_small)
  then show ?thesis by simp
qed

section \<open>What a format prints as\<close>

definition width_of :: "u8 list \<Rightarrow> nat" where
  "width_of flags = foldl (\<lambda>w c. w * 10 + unat (c - 0x30)) 0
     (filter (\<lambda>c. 0x30 \<le> c \<and> c \<le> 0x39) (takeWhile (\<lambda>c. c \<noteq> 0x2e) flags))"

definition letter_text :: "bool \<Rightarrow> nat \<Rightarrow> u8 \<Rightarrow> arg list \<Rightarrow> (u8 list \<times> arg list) option" where
  "letter_text zero width c args =
     (let number = (\<lambda>upper is_signed base.
            case args of Num v # args \<Rightarrow> Some (int_text zero width upper is_signed base v, args) | _ \<Rightarrow> None);
          padded = (\<lambda>t. replicate (width - length t) 0x20 @ t)
      in if c = 0x64 \<or> c = 0x69 then number False True 10
         else if c = 0x75 then number False False 10
         else if c = 0x6f then number False False 8
         else if c = 0x78 then number False False 16
         else if c = 0x58 then number True False 16
         else if c = 0x63 then (case args of Num v # args \<Rightarrow> Some (padded [ucast v], args) | _ \<Rightarrow> None)
         else if c = 0x73 then (case args of Str str # args \<Rightarrow> Some (padded str, args) | _ \<Rightarrow> None)
         else Some ([], args))"

lemma dropWhile_shorter: "dropWhile p xs = d # ys \<Longrightarrow> length ys < length xs"
  using length_dropWhile_le [of p xs] by simp

text \<open>
  A field is \<open>%\<close>, perhaps \<open>0\<close>, the flags as far as they go, and the letter; \<open>%%\<close> is a percent
  sign.  A field that the format breaks off prints nothing.
\<close>

function log_text :: "u8 list \<Rightarrow> arg list \<Rightarrow> u8 list option" where
  "log_text [] args = Some []"
| "log_text (c # w) args =
     (if c \<noteq> 0x25 then map_option ((#) c) (log_text w args)
      else let zero = (w \<noteq> [] \<and> hd w = 0x30);
               rest = (if zero then tl w else w)
           in case dropWhile flag_char rest of
                [] \<Rightarrow> Some []
              | d # w \<Rightarrow>
                  if d = 0x25 \<and> \<not> zero \<and> takeWhile flag_char rest = [] then map_option ((#) 0x25) (log_text w args)
                  else do {
                    (t, args) \<leftarrow> letter_text zero (width_of (takeWhile flag_char rest)) d args;
                    map_option ((@) t) (log_text w args)
                  })"
  by pat_completeness auto
termination
  by (relation "measure (\<lambda>(fmt, args). length fmt)")
    (auto dest!: dropWhile_shorter split: if_splits list.splits)

section \<open>The automaton prints it\<close>

lemma fmt_flag_fields [simp]:
  "fmt_leading_zero (fmt_flag f c) = fmt_leading_zero f" "fmt_base (fmt_flag f c) = fmt_base f"
  "fmt_signed (fmt_flag f c) = fmt_signed f" "fmt_upper (fmt_flag f c) = fmt_upper f"
  by (simp_all add: fmt_flag_def Let_def)

lemma fmt_flags_fields [simp]:
  "fmt_leading_zero (foldl fmt_flag f xs) = fmt_leading_zero f" "fmt_base (foldl fmt_flag f xs) = fmt_base f"
  "fmt_signed (foldl fmt_flag f xs) = fmt_signed f" "fmt_upper (foldl fmt_flag f xs) = fmt_upper f"
  by (induction xs arbitrary: f) simp_all

lemma fmt_after_point: "0 \<le> fmt_after f \<Longrightarrow> fmt_before (foldl fmt_flag f xs) = fmt_before f"
proof (induction xs arbitrary: f)
  case (Cons c xs)
  have "0 \<le> fmt_after (fmt_flag f c)" "fmt_before (fmt_flag f c) = fmt_before f"
    using Cons.prems by (auto simp: fmt_flag_def Let_def)
  then show ?case using Cons.IH by simp
qed simp

lemma fmt_before_width:
  "fmt_after f < 0 \<Longrightarrow> list_all flag_char xs \<Longrightarrow> nat (fmt_before (foldl fmt_flag f xs))
    = foldl (\<lambda>w c. w * 10 + unat (c - 0x30)) (nat (fmt_before f))
        (filter (\<lambda>c. 0x30 \<le> c \<and> c \<le> 0x39) (takeWhile (\<lambda>c. c \<noteq> 0x2e) xs))"
proof (induction xs arbitrary: f)
  case (Cons c xs)
  show ?case
  proof (cases "c = 0x2e")
    case True
    then have "fmt_before (foldl fmt_flag (fmt_flag f c) xs) = fmt_before (fmt_flag f c)"
      by (intro fmt_after_point) (simp add: fmt_flag_def)
    moreover have "fmt_before (fmt_flag f c) = fmt_before f" using True by (simp add: fmt_flag_def)
    ultimately show ?thesis using True by simp
  next
    case False
    have a: "fmt_after (fmt_flag f c) < 0" using Cons.prems(1) False by (simp add: fmt_flag_def Let_def)
    have b: "nat (fmt_before (fmt_flag f c)) =
        (if 0x30 \<le> c \<and> c \<le> 0x39 then nat (fmt_before f) * 10 + unat (c - 0x30) else nat (fmt_before f))"
      using Cons.prems(1) False by (auto simp: fmt_flag_def Let_def nat_add_distrib nat_mult_distrib)
    show ?thesis using Cons.IH [OF a] Cons.prems(2) False by (simp add: b)
  qed
qed simp

lemma log_loop_flags:
  "list_all flag_char xs \<Longrightarrow> log_loop put (xs @ w) (Pf_other_fmt_char, f, args, s)
    = log_loop put w (Pf_other_fmt_char, foldl fmt_flag f xs, args, s)"
  by (induction xs arbitrary: f) (simp_all add: log_step_def other_fmt_char_def)

lemma number_byte: "unat v div unat p < 16 \<Longrightarrow> log_digit upper (ucast (v div p)) = digit_byte upper (unat v div unat p)"
  for v p :: u32
proof -
  assume "unat v div unat p < 16"
  then show ?thesis using log_digit_byte [of "unat (v div p)" upper] unfolding unat_div [symmetric] by simp
qed

context char_sink
begin

lemma emits_repchar: "emits (alt_log_repchar put c r) (replicate (nat r) c)"
proof (induction "nat r" arbitrary: r)
  case 0
  then have "alt_log_repchar put c r = Some" by (intro ext) (subst alt_log_repchar.simps, simp)
  then show ?case using 0 by (simp add: emits_nothing)
next
  case (Suc n)
  then have r: "0 < r" "n = nat (r - 1)" "nat r = Suc (nat (r - 1))" by simp_all
  show ?case
    by (rule emits_bind [OF emits_put [of "ucast c"] Suc.hyps(1) [OF r(2)]])
      (subst alt_log_repchar.simps, use r in \<open>simp_all add: ucast_byte\<close>)
qed

lemma emits_number:
  assumes "2 \<le> unat b" "unat b \<le> 16"
  shows "unat p = unat b ^ k \<Longrightarrow> unat v < unat b ^ Suc k \<Longrightarrow>
    emits (number_loop put upper b v p) (map (digit_byte upper) (pos_digits (unat b) (Suc k) (unat v)))"
proof (induction k arbitrary: v p)
  case (0 v p)
  then have p: "p = 1" by (metis power_0 unat_1 word_unat_eq_iff)
  have pn: "p \<noteq> 0" using p by simp
  have "unat p div unat b = 0" using 0 assms by simp
  then have "unat (p div b) = 0" by (simp only: unat_div)
  then have "p div b = 0" by (simp only: unat_eq_0)
  then have stop: "number_loop put upper b (v mod p) (p div b) = Some"
    by (intro ext) (subst number_loop.simps, simp)
  have one: "unat v div unat p = unat v" "unat v < 16" using 0 assms(2) by simp_all
  show ?case
  proof (rule emits_bind [OF emits_put [of "ucast (log_digit upper (ucast (v div p)))"] emits_nothing])
    show "number_loop put upper b v p s = put1 put (ucast (log_digit upper (ucast (v div p)))) s \<bind> Some" for s
      by (subst number_loop.simps) (simp only: pn stop if_True not_False_eq_True)
    have "pos_digits (unat b) (Suc 0) (unat v) = [unat v]" using 0 by (simp add: pos_digits_def)
    then show "map (digit_byte upper) (pos_digits (unat b) (Suc 0) (unat v)) = [ucast (ucast (log_digit upper (ucast (v div p))) :: u32)] @ []"
      using number_byte [of v p upper] one by (simp add: ucast_byte)
  qed
next
  case (Suc k v p)
  let ?b = "unat b"
  have p: "p \<noteq> 0" using Suc.prems(1) assms(1) by (auto simp flip: unat_eq_0)
  have "unat (p div b) = ?b ^ k" using Suc.prems(1) assms(1) by (simp add: unat_div)
  moreover have m: "unat (v mod p) = unat v mod ?b ^ Suc k" using Suc.prems(1) by (simp add: unat_mod)
  moreover have "unat v mod ?b ^ Suc k < ?b ^ Suc k" using assms(1) by (intro mod_less_divisor) simp
  ultimately have IH: "emits (number_loop put upper b (v mod p) (p div b))
      (map (digit_byte upper) (pos_digits ?b (Suc k) (unat v)))"
    using Suc.IH [of "p div b" "v mod p"] by (simp add: pos_digits_mod del: power_Suc)
  have d: "unat v div unat p < ?b"
    unfolding Suc.prems(1) using Suc.prems(2) assms(1) by (simp add: div_less_iff_less_mult mult.commute)
  then have "pos_digits ?b (Suc (Suc k)) (unat v) = unat v div unat p # pos_digits ?b (Suc k) (unat v)"
    unfolding pos_digits_Suc [of _ "Suc k"] Suc.prems(1) by simp
  then show ?case using d assms(2) p
    by (intro emits_bind [OF emits_put [of "ucast (log_digit upper (ucast (v div p)))"] IH])
      (subst number_loop.simps, simp_all add: ucast_byte number_byte)
qed

lemma emits_integer:
  assumes "2 \<le> unat (fmt_base f)" "unat (fmt_base f) \<le> 16"
  shows "emits (print_integer put f v)
    (int_text (fmt_leading_zero f) (nat (fmt_before f)) (fmt_upper f) (fmt_signed f) (unat (fmt_base f)) v)"
proof -
  let ?b = "unat (fmt_base f)"
  define neg where "neg \<longleftrightarrow> fmt_signed f \<and> 2 ^ 31 \<le> unat v"
  define n where "n = (if neg then NOT v + 1 else v)"
  have un: "unat n = (if neg then 2 ^ 32 - unat v else unat v)"
  proof (cases neg)
    case True
    then have "v \<noteq> 0" unfolding neg_def by auto
    from unat_negate [OF this] show ?thesis unfolding n_def using True by (simp only: if_True)
  qed (simp add: n_def)
  obtain k where k: "place_loop (fmt_base f) n 1 1 = Some (fmt_base f ^ k, 1 + int k)"
      "?b ^ k \<le> unat n \<or> k = 0" "unat n < ?b ^ Suc k"
    using place_loop_ok [OF assms(1), of n 1 1] by auto
  define digits where "digits = map (digit_byte (fmt_upper f)) (digits_of ?b (unat n))"
  have dp: "digits_of ?b (unat n) = pos_digits ?b (Suc k) (unat n)" by (rule digits_of_pos [OF assms(1) k(2,3)])
  then have len: "length digits = Suc k" by (simp add: digits_def pos_digits_def)
  have "?b ^ k < 2 ^ 32"
  proof (cases "k = 0")
    case False
    then show ?thesis using k(2) unat_u32_lt [of n] by linarith
  qed simp
  then have number: "emits (number_loop put (fmt_upper f) (fmt_base f) n (fmt_base f ^ k)) digits"
    unfolding digits_def dp by (intro emits_number [OF assms _ k(3)] unat_power_small)
  define before where "before = fmt_before f - (1 + int k)"
  have fill: "nat before = nat (fmt_before f) - length digits"
    "nat (before - 1) = nat (fmt_before f) - length digits - 1" unfolding before_def len by arith+
  have body: "print_integer put f v s = do {
      s \<leftarrow> (if fmt_leading_zero f then
             (if neg then do { s \<leftarrow> put1 put 0x2d s; alt_log_repchar put 0x30 (before - 1) s }
              else alt_log_repchar put 0x30 before s)
           else do {
             s \<leftarrow> alt_log_repchar put 0x20 (if neg then before - 1 else before) s;
             if neg then put1 put 0x2d s else Some s
           });
      number_loop put (fmt_upper f) (fmt_base f) n (fmt_base f ^ k) s }" for s
    unfolding print_integer_def Let_def sign_bit neg_def [symmetric] n_def [symmetric] k(1) before_def by simp
  have minus: "emits (put1 put 0x2d) [0x2d]" using emits_put [of "0x2d"] by simp
  have field: "int_text (fmt_leading_zero f) (nat (fmt_before f)) (fmt_upper f) (fmt_signed f) ?b v
      = (let sign = (if neg then [0x2d] else []); gap = nat (fmt_before f) - length digits - length sign
         in if fmt_leading_zero f then sign @ replicate gap 0x30 @ digits else replicate gap 0x20 @ sign @ digits)"
    unfolding int_text_def neg_def [symmetric] un [symmetric] digits_def Let_def ..
  show ?thesis
  proof (cases "fmt_leading_zero f"; cases neg)
    assume c: "fmt_leading_zero f" neg
    show ?thesis unfolding field using c fill
      by (intro emits_bind [OF emits_bind [OF minus emits_repchar [of "0x30" "before - 1"] refl refl] number])
        (simp_all add: body)
  next
    assume c: "fmt_leading_zero f" "\<not> neg"
    show ?thesis unfolding field using c fill
      by (intro emits_bind [OF emits_repchar [of "0x30" before] number]) (simp_all add: body)
  next
    assume c: "\<not> fmt_leading_zero f" neg
    show ?thesis unfolding field using c fill
      by (intro emits_bind [OF emits_bind [OF emits_repchar [of "0x20" "before - 1"] minus refl refl] number])
        (simp_all add: body)
  next
    assume c: "\<not> fmt_leading_zero f" "\<not> neg"
    show ?thesis unfolding field using c fill
      by (intro emits_bind [OF emits_repchar [of "0x20" before] number]) (simp_all add: body)
  qed
qed

lemma letter_emits:
  assumes "letter_text (fmt_leading_zero f) (nat (fmt_before f)) c args = Some (t, rest)"
    and "fmt_base f = 10" "fmt_signed f" "\<not> fmt_upper f" "ok s"
  shows "\<exists>s'. fmt_letter put f c args s = Some (rest, s') \<and> ok s' \<and> out s' = out s @ t"
proof -
  have number: "\<exists>s'. print_integer put g v s = Some s' \<and> ok s' \<and> out s' = out s @
      int_text (fmt_leading_zero f) (nat (fmt_before f)) (fmt_upper g) (fmt_signed g) (unat (fmt_base g)) v"
    if "fmt_leading_zero g = fmt_leading_zero f" "fmt_before g = fmt_before f" "fmt_base g \<in> {8, 10, 16}" for g v
    using emits_integer [of g v] that assms(5) unfolding emits_def by auto
  have padded: "\<exists>s1 s2. alt_log_repchar put 0x20 r s = Some s1 \<and> h s1 = Some s2 \<and> ok s2
      \<and> out s2 = out s @ replicate (nat r) 0x20 @ u" if "emits h u" for r h u
    using emits_repchar [of "0x20" r] that assms(5) unfolding emits_def by fastforce
  note defs = fmt_letter_def letter_text_def Let_def
  note split = list.split_asm arg.split_asm
  consider (num) "c \<in> {0x64, 0x69, 0x75, 0x6f, 0x78, 0x58}" | (chr) "c = 0x63" | (str) "c = 0x73"
    | (rest) "c \<notin> {0x64, 0x69, 0x75, 0x6f, 0x78, 0x58, 0x63, 0x73}" by blast
  then show ?thesis
  proof cases
    case num
    then obtain v where "args = Num v # rest"
      using assms(1) by (auto simp: letter_text_def split: split)
    then show ?thesis using num assms(1-4) number [of f v] number [of "f\<lparr>fmt_signed := False\<rparr>" v]
        number [of "f\<lparr>fmt_signed := False, fmt_base := 8\<rparr>" v] number [of "f\<lparr>fmt_signed := False, fmt_base := 16\<rparr>" v]
        number [of "f\<lparr>fmt_signed := False, fmt_base := 16, fmt_upper := True\<rparr>" v]
      by (auto simp: defs)
  next
    case chr
    then obtain v where a: "args = Num v # rest" "t = replicate (nat (fmt_before f) - 1) 0x20 @ [ucast v]"
      using assms(1) by (auto simp: letter_text_def split: split)
    have "nat (fmt_before f - 1) = nat (fmt_before f) - 1" by arith
    with padded [OF emits_put [of v], of "fmt_before f - 1"] show ?thesis
      using chr a by (auto simp: defs)
  next
    case str
    then obtain u where a: "args = Str u # rest" "t = replicate (nat (fmt_before f) - length u) 0x20 @ u"
      using assms(1) by (auto simp: letter_text_def split: split)
    have "nat (fmt_before f - int (length u)) = nat (fmt_before f) - length u" by arith
    with padded [OF emits_str [of u], of "fmt_before f - int (length u)"] show ?thesis
      using str a by (auto simp: defs)
  next
    case rest
    then show ?thesis using assms(1,5) by (auto simp: defs)
  qed
qed

text \<open>Running the automaton from a state, and what is left when the field's flags are read.\<close>

definition runs :: "pf_state \<times> pf \<times> arg list \<Rightarrow> u8 list \<Rightarrow> 's \<Rightarrow> 's option" where
  "runs st w s = (case st of (q, f, args) \<Rightarrow> do { (_, _, _, s) \<leftarrow> log_loop put w (q, f, args, s); Some s })"

lemma runs_flags:
  "list_all flag_char xs \<Longrightarrow> runs (Pf_other_fmt_char, f, args) (xs @ w) = runs (Pf_other_fmt_char, foldl fmt_flag f xs, args) w"
  by (rule ext) (simp add: runs_def log_loop_flags)

lemma runs_field:
  assumes "\<not> flag_char c" "letter_text (fmt_leading_zero f) (nat (fmt_before f)) c args = Some (t, rest)"
    and "fmt_base f = 10" "fmt_signed f" "\<not> fmt_upper f" "emits (runs (Pf_chars, f, rest) w) u"
  shows "emits (runs (Pf_other_fmt_char, f, args) (c # w)) (t @ u)"
  unfolding emits_def
proof (intro allI impI)
  fix s assume "ok s"
  from letter_emits [OF assms(2-5) this] obtain s' where
    s': "fmt_letter put f c args s = Some (rest, s')" "ok s'" "out s' = out s @ t" by blast
  have "runs (Pf_other_fmt_char, f, args) (c # w) s = runs (Pf_chars, f, rest) w s'"
    by (simp add: runs_def log_step_def other_fmt_char_def assms(1) s'(1))
  then show "\<exists>s'. runs (Pf_other_fmt_char, f, args) (c # w) s = Some s' \<and> ok s' \<and> out s' = out s @ t @ u"
    using assms(6) s'(2,3) unfolding emits_def by fastforce
qed

lemma runs_percent:
  assumes zero_def: "zero \<longleftrightarrow> w \<noteq> [] \<and> hd w = 0x30" and tail_def: "tail = (if zero then tl w else w)"
    and "\<not> (\<not> zero \<and> takeWhile flag_char tail = [] \<and> (\<exists>v. dropWhile flag_char tail = 0x25 # v))"
  shows "runs (Pf_chars, f, args) (0x25 # w)
    = runs (Pf_other_fmt_char, foldl fmt_flag (pf_start\<lparr>fmt_leading_zero := zero\<rparr>) (takeWhile flag_char tail), args)
        (dropWhile flag_char tail)"
proof -
  have all: "list_all flag_char (takeWhile flag_char tail)" by (auto simp: list_all_iff dest: set_takeWhileD)
  let ?f = "pf_start\<lparr>fmt_leading_zero := zero\<rparr>"
  have "runs (Pf_chars, f, args) (0x25 # w) = runs (Pf_other_fmt_char, ?f, args) tail"
  proof (cases zero)
    case True
    then obtain v where "w = 0x30 # v" unfolding zero_def by (cases w) auto
    then show ?thesis using True by (intro ext) (simp add: runs_def log_step_def tail_def)
  next
    case False
    then have f: "?f = pf_start" "tail = w" by (simp_all add: pf_start_def tail_def)
    show ?thesis
    proof (cases w)
      case Nil
      then show ?thesis unfolding f by (intro ext) (simp add: runs_def log_step_def)
    next
      case (Cons c v)
      have "c \<noteq> 0x30" using False Cons by (simp add: zero_def)
      moreover have "c \<noteq> 0x25" using assms(3) False Cons unfolding f by (auto simp: flag_char_def)
      ultimately show ?thesis unfolding f Cons
        by (intro ext) (simp add: runs_def log_step_def)
    qed
  qed
  then show ?thesis using runs_flags [OF all, of ?f args "dropWhile flag_char tail"] by simp
qed

lemma runs_emits: "log_text fmt args = Some t \<Longrightarrow> emits (runs (Pf_chars, f, args) fmt) t"
proof (induction fmt args arbitrary: f t rule: log_text.induct)
  case (1 args)
  then show ?case by (simp add: runs_def emits_def)
next
  case (2 c w args)
  show ?case
  proof (cases "c = 0x25")
    case False
    then obtain u where u: "log_text w args = Some u" "t = c # u" using "2.prems" by auto
    show ?thesis
      by (rule emits_bind [OF emits_put [of "ucast c"] "2.IH"(1) [OF False u(1), of f]])
        (use False u(2) in \<open>simp_all add: runs_def log_step_def ucast_byte\<close>)
  next
    case percent: True
    define zero where "zero \<longleftrightarrow> w \<noteq> [] \<and> hd w = 0x30"
    define tail where "tail = (if zero then tl w else w)"
    have nc: "\<not> c \<noteq> 0x25" using percent by simp
    note IH = "2.IH"(2,3) [OF nc zero_def tail_def]
    have t: "log_text (c # w) args = (case dropWhile flag_char tail of [] \<Rightarrow> Some []
        | d # w \<Rightarrow> if d = 0x25 \<and> \<not> zero \<and> takeWhile flag_char tail = [] then map_option ((#) 0x25) (log_text w args)
            else do { (t, args) \<leftarrow> letter_text zero (width_of (takeWhile flag_char tail)) d args; map_option ((@) t) (log_text w args) })"
      by (subst log_text.simps) (simp only: percent Let_def zero_def [symmetric] tail_def [symmetric] simp_thms if_False)
    have all: "list_all flag_char (takeWhile flag_char tail)" by (auto simp: list_all_iff dest: set_takeWhileD)
    let ?f = "foldl fmt_flag (pf_start\<lparr>fmt_leading_zero := zero\<rparr>) (takeWhile flag_char tail)"
    have fields: "fmt_leading_zero ?f = zero" "fmt_base ?f = 10" "fmt_signed ?f" "\<not> fmt_upper ?f"
      by (simp_all add: pf_start_def)
    have width: "nat (fmt_before ?f) = width_of (takeWhile flag_char tail)"
      using fmt_before_width [OF _ all, of "pf_start\<lparr>fmt_leading_zero := zero\<rparr>"] by (simp add: pf_start_def width_of_def)
    show ?thesis
    proof (cases "dropWhile flag_char tail")
      case Nil
      then have "t = []" using "2.prems" unfolding t Nil by simp
      moreover have "runs (Pf_chars, f, args) (c # w) = runs (Pf_other_fmt_char, ?f, args) []"
        using runs_percent [OF zero_def tail_def, of f args] Nil percent by auto
      ultimately show ?thesis by (simp add: runs_def emits_def)
    next
      case (Cons d v)
      show ?thesis
      proof (cases "d = 0x25 \<and> \<not> zero \<and> takeWhile flag_char tail = []")
        case True
        then have "tail = 0x25 # v" using Cons takeWhile_dropWhile_id [of flag_char tail] by simp
        then have w: "w = 0x25 # v" using True by (simp add: tail_def)
        have "map_option ((#) 0x25) (log_text v args) = Some t"
          using "2.prems" unfolding t Cons by (simp only: True if_True list.case simp_thms)
        then obtain u where u: "log_text v args = Some u" "t = 0x25 # u" by auto
        have "emits (runs (Pf_chars, pf_start, args) v) u" by (rule IH(1) [OF Cons True u(1)])
        show ?thesis
          by (rule emits_bind [OF emits_put [of "0x25"] \<open>emits _ u\<close>]) (simp_all add: runs_def log_step_def percent w u(2))
      next
        case False
        have "letter_text zero (width_of (takeWhile flag_char tail)) d args
            \<bind> (\<lambda>(t, args). map_option ((@) t) (log_text v args)) = Some t"
          using "2.prems" unfolding t Cons by (simp only: False if_False list.case)
        then obtain x rest u where u: "letter_text zero (width_of (takeWhile flag_char tail)) d args = Some (x, rest)"
            "log_text v rest = Some u" "t = x @ u" by (auto simp: bind_eq_Some_conv)
        have "runs (Pf_chars, f, args) (c # w) = runs (Pf_other_fmt_char, ?f, args) (d # v)"
          using runs_percent [OF zero_def tail_def, of f args] Cons False percent by auto
        moreover have "\<not> flag_char d" using Cons hd_dropWhile [of flag_char tail] by simp
        moreover have "emits (runs (Pf_chars, ?f, rest) v) u"
          by (rule IH(2) [OF Cons False u(1) refl u(2)])
        ultimately show ?thesis unfolding u(3) by (simp only:) (rule runs_field, simp_all only: fields width u(1) simp_thms)
      qed
    qed
  qed
qed

end

section \<open>What the macros report\<close>

text \<open>The flags, and their settings for a value of \<open>ALT_LOG_FLAGS\<close>.\<close>

record log_flags =
  log_boot_on :: u32
  log_write_on :: u8
  log_sys_clk_on :: u8
  log_jtag_alarm_on :: u8
  log_jtag_startup_on :: u8
  log_jtag_isr_on :: u8

definition log_flag_settings :: "int \<Rightarrow> bool \<Rightarrow> log_flags" where
  "log_flag_settings level jtag = \<lparr>
     log_boot_on = (if level = - 1 then 0 else 1),
     log_write_on = (if level = 2 \<or> level = 3 then 1 else 0),
     log_sys_clk_on = (if level = 1 \<or> level = 2 \<or> level = 3 then 1 else 0),
     log_jtag_alarm_on = (if \<not> jtag then 0 else if level = 2 \<or> level = 3 then 1 else 0),
     log_jtag_startup_on = (if \<not> jtag then 0 else if level = 1 \<or> level = 2 \<or> level = 3 then 1 else 0),
     log_jtag_isr_on = (if \<not> jtag then 0 else if level = 3 then 1 else 0)\<rparr>"

record 'h log_state = log_flags +
  log_sys_clk_count :: u32
  log_clock_in_sec :: u32
  log_write_buf :: "u8 list"
  log_hw :: 'h

abbreviation (input) ALT_LOG_WRITE_ECHO_LEN :: u32 where "ALT_LOG_WRITE_ECHO_LEN \<equiv> 15"

definition log_printf :: "'h uart_hw \<Rightarrow> u8 list \<Rightarrow> arg list \<Rightarrow> ('h, 'm) log_state_scheme \<Rightarrow> ('h, 'm) log_state_scheme option" where
  "log_printf hw fmt args s = do { (_, h) \<leftarrow> alt_log_printf_proc hw fmt args (log_hw s); Some (s\<lparr>log_hw := h\<rparr>) }"

definition log_print_boot :: "'h uart_hw \<Rightarrow> u8 list \<Rightarrow> arg list \<Rightarrow> ('h, 'm) log_state_scheme \<Rightarrow> ('h, 'm) log_state_scheme option" where
  "log_print_boot hw fmt args s = (if log_boot_on s = 1 then log_printf hw fmt args s else Some s)"

text \<open>\<open>small\<close> is the polled variant of the driver; the other prints the fill of its buffer.\<close>

definition alt_log_jtag_uart_print_control_reg ::
  "'h uart_hw \<Rightarrow> bool \<Rightarrow> u32 \<Rightarrow> u32 \<Rightarrow> u8 list \<Rightarrow> ('h, 'm) log_state_scheme \<Rightarrow> ('h, 'm) log_state_scheme option" where
  "alt_log_jtag_uart_print_control_reg hw small out_index in_index header s =
     (let (control, h) = hw_control hw (log_hw s);
          s = s\<lparr>log_hw := h\<rparr>;
          space = drop_bit 16 (control AND 0xFFFF0000);
          we = drop_bit 1 (control AND 0x2);
          re = drop_bit 0 (control AND 0x1);
          ri = drop_bit 8 (control AND 0x100);
          wi = drop_bit 9 (control AND 0x200);
          ac = drop_bit 10 (control AND 0x400)
      in if small then
           log_printf hw (bytes_of ''%s HW FIFO wspace=%d AC=%d WI=%d RI=%d WE=%d RE=%d'' @ [13, 10])
             [Str header, Num space, Num ac, Num wi, Num ri, Num we, Num re] s
         else
           log_printf hw (bytes_of ''%s SW CirBuf = %d, HW FIFO wspace=%d AC=%d WI=%d RI=%d WE=%d RE=%d'' @ [13, 10])
             [Str header, Num (out_index - in_index), Num space, Num ac, Num wi, Num ri, Num we, Num re] s)"

definition altera_avalon_jtag_uart_report_log ::
  "'h uart_hw \<Rightarrow> bool \<Rightarrow> u32 \<Rightarrow> u32 \<Rightarrow> u32 \<Rightarrow> ('h, 'm) log_state_scheme \<Rightarrow> (u32 \<times> ('h, 'm) log_state_scheme) option" where
  "altera_avalon_jtag_uart_report_log hw small out_index in_index ticks_per_second s =
     (if log_jtag_alarm_on s \<noteq> 0 then do {
        s \<leftarrow> alt_log_jtag_uart_print_control_reg hw small out_index in_index (bytes_of ''JTAG Alarm:'') s;
        Some (ticks_per_second div 10, s)
      } else Some (0, s))"

definition alt_log_jtag_uart_startup_info ::
  "'h uart_hw \<Rightarrow> bool \<Rightarrow> u32 \<Rightarrow> u32 \<Rightarrow> ('h, 'm) log_state_scheme \<Rightarrow> ('h, 'm) log_state_scheme option" where
  "alt_log_jtag_uart_startup_info hw small out_index in_index s =
     alt_log_jtag_uart_print_control_reg hw small out_index in_index (bytes_of ''JTAG Startup Info:'') s"

definition alt_log_jtag_uart_isr_proc ::
  "'h uart_hw \<Rightarrow> bool \<Rightarrow> u32 \<Rightarrow> u32 \<Rightarrow> ('h, 'm) log_state_scheme \<Rightarrow> ('h, 'm) log_state_scheme option" where
  "alt_log_jtag_uart_isr_proc hw small out_index in_index s =
     (if log_jtag_isr_on s \<noteq> 0
      then alt_log_jtag_uart_print_control_reg hw small out_index in_index (bytes_of ''JTAG IRQ:'') s else Some s)"

text \<open>\<open>strncpy\<close>: what it writes; \<open>None\<close> if it reads behind the bytes at \<open>ptr\<close>.\<close>

fun strncpy_bytes :: "nat \<Rightarrow> u8 list \<Rightarrow> u8 list option" where
  "strncpy_bytes 0 mem = Some []"
| "strncpy_bytes (Suc n) [] = None"
| "strncpy_bytes (Suc n) (c # mem) =
     (if c = 0 then Some (replicate (Suc n) 0) else map_option ((#) c) (strncpy_bytes n mem))"

definition escape_ctrl_d :: "u8 \<Rightarrow> u8" where
  "escape_ctrl_d c = (if c = 0x4 then 0x44 else c)"

definition alt_log_write :: "'h uart_hw \<Rightarrow> u8 list \<Rightarrow> u32 \<Rightarrow> ('h, 'm) log_state_scheme \<Rightarrow> ('h, 'm) log_state_scheme option" where
  "alt_log_write hw mem len s =
     (if log_write_on s = 0 then Some s
      else let n = unat (if len < ALT_LOG_WRITE_ECHO_LEN then len else ALT_LOG_WRITE_ECHO_LEN) in
        if n < 2 then Some s
        else do {
          copied \<leftarrow> strncpy_bytes n mem;
          let buf = copied @ drop n (log_write_buf s);
          buf \<leftarrow> wr buf (n - 1) 0xa;
          buf \<leftarrow> wr buf n 0xd;
          buf \<leftarrow> wr buf (n + 1) 0;
          let buf = map escape_ctrl_d (take n buf) @ drop n buf;
          log_printf hw (bytes_of ''Write Echo: %s'') [Str (takeWhile (\<lambda>c. c \<noteq> 0) buf)] (s\<lparr>log_write_buf := buf\<rparr>)
        })"

definition alt_log_system_clock :: "'h uart_hw \<Rightarrow> u32 \<Rightarrow> ('h, 'm) log_state_scheme \<Rightarrow> ('h, 'm) log_state_scheme option" where
  "alt_log_system_clock hw interval s =
     (if log_sys_clk_on s = 0 then Some s
      else let s = s\<lparr>log_sys_clk_count := log_sys_clk_count s + 1\<rparr> in
        if interval < log_sys_clk_count s
        then log_printf hw (bytes_of ''System Clock On %u'' @ [13, 10]) [Num (log_clock_in_sec s)]
               (s\<lparr>log_sys_clk_count := 0, log_clock_in_sec := log_clock_in_sec s + 1\<rparr>)
        else Some s)"

text \<open>
  \<open>_exit\<close>, up to the endless loop at its end; telling the simulator is a parameter, and there
  are no other threads to stop.
\<close>

definition alt_exit :: "'h uart_hw \<Rightarrow> (u32 \<Rightarrow> 'h \<Rightarrow> 'h) \<Rightarrow> u32 \<Rightarrow> ('h, 'm) log_state_scheme \<Rightarrow> ('h, 'm) log_state_scheme option" where
  "alt_exit hw sim_halt exit_code s = do {
     s \<leftarrow> log_print_boot hw (bytes_of ''[alt_exit.c] Entering _exit() function.'' @ [13, 10]) [] s;
     s \<leftarrow> log_print_boot hw (bytes_of ''[alt_exit.c] Exit code from main was %d.'' @ [13, 10]) [Num exit_code] s;
     s \<leftarrow> log_print_boot hw (bytes_of ''[alt_exit.c] Calling ALT_OS_STOP().'' @ [13, 10]) [] s;
     s \<leftarrow> log_print_boot hw (bytes_of ''[alt_exit.c] Calling ALT_SIM_HALT().'' @ [13, 10]) [] s;
     let s = s\<lparr>log_hw := sim_halt exit_code (log_hw s)\<rparr>;
     log_print_boot hw (bytes_of ''[alt_exit.c] Spinning forever.'' @ [13, 10]) [] s
   }"

text \<open>Ticks of the timer.\<close>

primrec heartbeats :: "'h uart_hw \<Rightarrow> u32 \<Rightarrow> nat \<Rightarrow> ('h, 'm) log_state_scheme \<Rightarrow> ('h, 'm) log_state_scheme option" where
  "heartbeats hw interval 0 s = Some s"
| "heartbeats hw interval (Suc n) s = do { s \<leftarrow> heartbeats hw interval n s; alt_log_system_clock hw interval s }"

section \<open>Properties\<close>

lemma txchar_ok:
  assumes "device_logs hw taken" "device_grants hw wait"
  shows "\<exists>h'. alt_log_txchar hw c h = Some h' \<and> taken h' = taken h @ [ucast c]"
proof (induction "wait h" arbitrary: h rule: less_induct)
  case less
  obtain v h1 where v: "hw_control hw h = (v, h1)" by (cases "hw_control hw h")
  note l = device_logsD [OF assms(1) v]
  show ?case
  proof (cases "v AND CONTROL_WSPACE = 0")
    case True
    then have "wait h1 < wait h" by (intro device_grantsD [OF assms(2) v]) simp
    from less [OF this] True show ?thesis using v l(1) by (subst alt_log_txchar.simps) simp
  next
    case False
    then show ?thesis using v l(2) by (subst alt_log_txchar.simps) simp
  qed
qed

lemma log_sink: "device_logs hw taken \<Longrightarrow> device_grants hw wait \<Longrightarrow> char_sink (log_put hw) taken (\<lambda>_. True)"
proof
  fix h c assume "device_logs hw taken" "device_grants hw wait"
  from txchar_ok [OF this, of c h] show "\<exists>rc h'. log_put hw c h = Some (rc, h') \<and> True \<and> taken h' = taken h @ [ucast c]"
    by (auto simp: log_put_def)
qed

interpretation log_console: char_sink "log_put demo_slow" snd "\<lambda>_. True"
  by (rule log_sink [OF demo_slow_logs])

lemma private_printf_ok:
  assumes "device_logs hw taken" "device_grants hw wait" "log_text fmt args = Some t"
  shows "\<exists>h'. alt_log_private_printf (log_put hw) fmt args h = Some h' \<and> taken h' = taken h @ t"
proof -
  have "\<exists>h'. char_sink.runs (log_put hw) (Pf_chars, pf_zero, args) fmt h = Some h' \<and> taken h' = taken h @ t"
    using char_sink.runs_emits [OF log_sink [OF assms(1,2)] assms(3), of pf_zero]
    unfolding char_sink.emits_def [OF log_sink [OF assms(1,2)]] by simp
  then show ?thesis by (simp add: alt_log_private_printf_def char_sink.runs_def [OF log_sink [OF assms(1,2)]])
qed

text \<open>
  C20: The log's \<open>printf\<close> over the polled JTAG UART returns for every format whose arguments are
  there, and the device has then taken exactly the text the format stands for: the automaton
  over single characters implements the reading of the format field by field, with the flags,
  widths, signs and bases of its numbers.
\<close>

theorem log_printf_reaches_device:
  assumes "device_logs hw taken" "device_grants hw wait" "log_text fmt args = Some t"
  shows "\<exists>h'. alt_log_printf_proc hw fmt args h = Some (0, h') \<and> taken h' = taken h @ t"
  using private_printf_ok [OF assms, of h] by (auto simp: alt_log_printf_proc_def)

theorem log_printf_reaches_device_witness:
  "\<exists>h'. alt_log_printf_proc demo_slow (bytes_of ''%s=%05d|%X'') [Str (bytes_of ''x''), Num (- 42), Num 0xBEEF] (1, []) = Some (0, h')
    \<and> snd h' = bytes_of ''x=-0042|BEEF''"
proof -
  have two: "replicate 2 x = [x, x]" for x :: u8 by (simp add: numeral_2_eq_2)
  have "log_text (bytes_of ''%s=%05d|%X'') [Str (bytes_of ''x''), Num (- 42), Num 0xBEEF] = Some (bytes_of ''x=-0042|BEEF'')"
    by (simp add: bytes_of_def of_char_def flag_char_def letter_text_def width_of_def int_text_def digits_of.simps digit_byte_def
        Let_def two)
  from log_printf_reaches_device [OF demo_slow_logs this, of "(1, [])"] show ?thesis by simp
qed

lemma log_printf_ok:
  assumes "device_logs hw taken" "device_grants hw wait" "log_text fmt args = Some t"
  shows "\<exists>h. log_printf hw fmt args s = Some (s\<lparr>log_hw := h\<rparr>) \<and> taken h = taken (log_hw s) @ t"
  using private_printf_ok [OF assms, of "log_hw s"] by (auto simp: alt_log_printf_proc_def log_printf_def)

lemma strncpy_bytes_all: "n \<le> length mem \<Longrightarrow> 0 \<notin> set (take n mem) \<Longrightarrow> strncpy_bytes n mem = Some (take n mem)"
proof (induction n arbitrary: mem)
  case (Suc n)
  then obtain c m where "mem = c # m" by (cases mem) auto
  then show ?case using Suc by auto
qed simp

lemma echo_text: "log_text (bytes_of ''Write Echo: %s'') [Str t] = Some (bytes_of ''Write Echo: '' @ t)"
  by (simp add: bytes_of_def of_char_def flag_char_def letter_text_def width_of_def Let_def)

text \<open>
  With the write echo on, a write of two bytes or more, none of them NUL, is logged as its
  first \<open>n - 1\<close> bytes, where \<open>n\<close> is its length or 15 if that is less, with control-D shown as
  \<open>D\<close> and a line end in place of byte \<open>n\<close>; the echo buffer is not overrun.
\<close>

theorem write_is_echoed:
  assumes "device_logs hw taken" "device_grants hw wait" "log_write_on s \<noteq> 0" "length (log_write_buf s) = 17"
    and "n = min (unat len) 15" "2 \<le> n" "n \<le> length mem" "0 \<notin> set (take n mem)"
  shows "\<exists>s'. alt_log_write hw mem len s = Some s' \<and> length (log_write_buf s') = 17
    \<and> taken (log_hw s') = taken (log_hw s)
        @ bytes_of ''Write Echo: '' @ map escape_ctrl_d (take (n - 1) mem) @ [10, 13]"
proof -
  let ?w = "log_write_buf s"
  have n: "unat (if len < 15 then len else 15) = n" using assms(5) by (simp add: word_less_nat_alt)
  obtain m where m: "n = Suc m" using assms(6) by (cases n) auto
  define P where "P = take m mem"
  obtain x where x: "take n mem = P @ [x]" unfolding m P_def using assms(7) m by (simp add: take_Suc_conv_app_nth)
  have P: "length P = m" using assms(7) m by (simp add: P_def)
  have d: "length (drop n ?w) = 17 - n" "n \<le> 15" using assms(4,5) by simp_all
  then obtain a b r where r: "drop n ?w = a # b # r" by (cases "drop n ?w"; cases "tl (drop n ?w)") auto
  let ?buf = "P @ [0xa, 0xd, 0] @ r"
  have copied: "strncpy_bytes n mem = Some (P @ [x])" using strncpy_bytes_all [OF assms(7,8)] x by simp
  have w1: "wr (P @ [x] @ a # b # r) (n - 1) 0xa = Some (P @ [0xa] @ a # b # r)" by (simp add: wr_in m P list_update_append)
  have w2: "wr (P @ [0xa] @ a # b # r) n 0xd = Some (P @ [0xa, 0xd] @ b # r)" by (simp add: wr_in m P list_update_append)
  have w3: "wr (P @ [0xa, 0xd] @ b # r) (n + 1) 0 = Some ?buf" by (simp add: wr_in m P list_update_append)
  have esc: "map escape_ctrl_d (take n ?buf) @ drop n ?buf = map escape_ctrl_d P @ [0xa, 0xd, 0] @ r"
    by (simp add: m P escape_ctrl_d_def)
  have "0 \<notin> set P" using assms(8) unfolding x by simp
  then have no0: "\<forall>c \<in> set (map escape_ctrl_d P). c \<noteq> 0" by (auto simp: escape_ctrl_d_def)
  have tw: "takeWhile (\<lambda>c. c \<noteq> 0) (map escape_ctrl_d P @ [0xa, 0xd, 0] @ r) = map escape_ctrl_d P @ [0xa, 0xd]"
    using no0 by (subst takeWhile_append2) auto
  let ?s = "s\<lparr>log_write_buf := map escape_ctrl_d P @ [0xa, 0xd, 0] @ r\<rparr>"
  have "alt_log_write hw mem len s = log_printf hw (bytes_of ''Write Echo: %s'') [Str (map escape_ctrl_d P @ [0xa, 0xd])] ?s"
    using assms(3,6) copied w1 w2 w3 unfolding alt_log_write_def n Let_def r by (simp add: esc tw del: append_Cons map_append take_append drop_append)
  moreover have "length r = 15 - n" using d(1) r by simp
  moreover obtain h where "log_printf hw (bytes_of ''Write Echo: %s'') [Str (map escape_ctrl_d P @ [0xa, 0xd])] ?s = Some (?s\<lparr>log_hw := h\<rparr>)"
    "taken h = taken (log_hw ?s) @ bytes_of ''Write Echo: '' @ map escape_ctrl_d P @ [0xa, 0xd]"
    using log_printf_ok [where s = ?s, OF assms(1,2) echo_text] by blast
  ultimately show ?thesis using P m d(2) by (auto simp: P_def)
qed

definition demo_log :: "(nat \<times> u8 list) log_state" where
  "demo_log = \<lparr>log_boot_on = 1, log_write_on = 1, log_sys_clk_on = 1, log_jtag_alarm_on = 0, log_jtag_startup_on = 0,
     log_jtag_isr_on = 0, log_sys_clk_count = 0, log_clock_in_sec = 7, log_write_buf = replicate 17 0, log_hw = (0, [])\<rparr>"

theorem write_is_echoed_witness:
  "\<exists>s'. alt_log_write demo_slow [104, 4, 105, 33] 3 demo_log = Some s' \<and> snd (log_hw s') = bytes_of ''Write Echo: hD'' @ [10, 13]"
proof -
  have "snd (log_hw demo_log) = []" "log_write_on demo_log \<noteq> 0" "length (log_write_buf demo_log) = 17"
    by (simp_all add: demo_log_def)
  moreover have "map escape_ctrl_d (take (3 - 1) [104, 4, 105, 33]) = [104, 0x44]"
    by (simp add: escape_ctrl_d_def)
  ultimately show ?thesis
    using write_is_echoed [OF demo_slow_logs, of demo_log 3 3 "[104, 4, 105, 33]"]
    by (auto simp: bytes_of_def of_char_def)
qed

lemma clock_text: "log_text (bytes_of ''System Clock On %u'' @ [13, 10]) [Num v]
    = Some (bytes_of ''System Clock On '' @ int_text False 0 False False 10 v @ [13, 10])"
  by (simp add: bytes_of_def of_char_def flag_char_def letter_text_def width_of_def Let_def)

lemma heartbeats_quiet:
  assumes "log_sys_clk_on s \<noteq> 0" "log_sys_clk_count s = 0" "unat interval + 1 < 2 ^ 32"
  shows "n \<le> unat interval \<Longrightarrow> heartbeats hw interval n s = Some (s\<lparr>log_sys_clk_count := of_nat n\<rparr>)"
proof (induction n)
  case 0
  then show ?case using assms(2) by (cases s) simp
next
  case (Suc n)
  have "unat (of_nat n + 1 :: u32) = n + 1" using Suc.prems assms(3) unat_u32_small [of "Suc n"] by (simp add: add.commute)
  then have "\<not> interval < of_nat n + 1" using Suc.prems by (simp add: word_less_nat_alt)
  then show ?case using Suc assms(1) by (simp add: alt_log_system_clock_def add.commute)
qed

text \<open>
  The system clock's sign of life: from a count of 0 the log is silent for \<open>interval\<close> ticks,
  and tick \<open>interval + 1\<close> logs the seconds counted so far, counts one more and starts again:
  the messages come every \<open>interval + 1\<close> ticks.
\<close>

theorem log_clock_period:
  assumes "device_logs hw taken" "device_grants hw wait" "log_sys_clk_on s \<noteq> 0" "log_sys_clk_count s = 0"
    and "unat interval + 1 < 2 ^ 32"
  shows "(\<forall>n \<le> unat interval. heartbeats hw interval n s = Some (s\<lparr>log_sys_clk_count := of_nat n\<rparr>))
    \<and> (\<exists>s'. heartbeats hw interval (unat interval + 1) s = Some s' \<and> log_sys_clk_count s' = 0
        \<and> log_clock_in_sec s' = log_clock_in_sec s + 1
        \<and> taken (log_hw s') = taken (log_hw s) @ bytes_of ''System Clock On ''
            @ int_text False 0 False False 10 (log_clock_in_sec s) @ [13, 10])"
proof -
  note quiet = heartbeats_quiet [OF assms(3-5)]
  have "unat (interval + 1) = unat interval + 1" using assms(5) by (subst unat_plus_if_small) auto
  then have over: "interval < interval + 1" by (simp add: word_less_nat_alt)
  let ?s = "s\<lparr>log_sys_clk_count := 0, log_clock_in_sec := log_clock_in_sec s + 1\<rparr>"
  have "heartbeats hw interval (unat interval + 1) s
      = log_printf hw (bytes_of ''System Clock On %u'' @ [13, 10]) [Num (log_clock_in_sec s)] ?s"
    using quiet [of "unat interval" hw] over assms(3) by (simp add: alt_log_system_clock_def Let_def)
  moreover obtain h where "log_printf hw (bytes_of ''System Clock On %u'' @ [13, 10]) [Num (log_clock_in_sec s)] ?s = Some (?s\<lparr>log_hw := h\<rparr>)"
    "taken h = taken (log_hw s) @ bytes_of ''System Clock On '' @ int_text False 0 False False 10 (log_clock_in_sec s) @ [13, 10]"
    using log_printf_ok [where s = ?s, OF assms(1,2) clock_text] by auto
  ultimately show ?thesis using quiet by simp
qed

theorem log_clock_period_witness:
  "\<exists>s'. heartbeats demo_slow 100 101 demo_log = Some s' \<and> log_clock_in_sec s' = 8
    \<and> snd (log_hw s') = bytes_of ''System Clock On 7'' @ [13, 10]"
proof -
  have "log_sys_clk_on demo_log \<noteq> 0" "log_sys_clk_count demo_log = 0" "log_clock_in_sec demo_log = 7" "snd (log_hw demo_log) = []"
    by (simp_all add: demo_log_def)
  moreover have "int_text False 0 False False 10 7 = [0x37]" by (simp add: int_text_def digits_of.simps digit_byte_def)
  ultimately show ?thesis
    using log_clock_period [OF demo_slow_logs, of demo_log 100] by (auto simp: bytes_of_def of_char_def)
qed

end
