(* ===== verification/Console.thy ===== *)
theory Console
  imports Files Log
begin

text \<open>
  Where the parts of the console meet: a program's output from the C library's \<open>write\<close> through
  the descriptor table (theory Files), the registered device (theory Devices) and the polled
  UART driver (theory Uart) to the device; and the two formatted-output functions, \<open>alt_printf\<close>
  (theory Stdio) and the log's (theory Log), against each other.
\<close>

section \<open>Output through the descriptor table\<close>

text \<open>
  The environment of the file layer is the memory and the UART's hardware.  A device whose
  \<open>write\<close> is the polled driver hands it the bytes of the caller's buffer.
\<close>

type_synonym mem = "u32 \<Rightarrow> u8"

definition bytes_at :: "mem \<Rightarrow> addr \<Rightarrow> nat \<Rightarrow> u8 list" where
  "bytes_at mem ptr n = map (\<lambda>i. mem (ptr + of_nat i)) [0..<n]"

definition uart_writes :: "'h uart_hw \<Rightarrow> u32 \<Rightarrow> (mem \<times> 'h, 'm) file_state_scheme drivers \<Rightarrow> bool" where
  "uart_writes hw write_fn drv \<longleftrightarrow> (\<forall>fd ptr len s rc h.
     altera_avalon_jtag_uart_write_small hw (bytes_at (fst (io_env s)) ptr (nat (sint len))) (snd (io_env s)) = Some (rc, h)
     \<longrightarrow> call_write drv write_fn fd ptr len s = (rc, s\<lparr>io_env := (fst (io_env s), h)\<rparr>))"

text \<open>An open descriptor for writing, and what writing on it does.\<close>

definition writes_to :: "nat \<Rightarrow> addr \<Rightarrow> alt_dev \<Rightarrow> ('e, 'm) file_state_scheme \<Rightarrow> bool" where
  "writes_to fd dev d s \<longleftrightarrow> fd < length (alt_fd_list s) \<and> fd_dev (alt_fd_list s ! fd) = dev \<and> dev \<noteq> NULL
     \<and> fd_flags (alt_fd_list s ! fd) AND 3 \<noteq> 0 \<and> devs s dev = Some d"

lemma write_calls_driver:
  assumes "writes_to fd dev d s" "d_write d \<noteq> 0"
  shows "alt_write drv (int fd) ptr len s = Some (let (rval, s') = call_write drv (d_write d) fd ptr len s
    in if rval < 0 then (- 1, s'\<lparr>errno := - rval\<rparr>) else (rval, s'))"
  using assms by (simp add: writes_to_def alt_write_def get_descr_def descr_dev_def rd_in split: prod.split)

lemma write_sends:
  assumes "writes_to fd dev d s" "d_write d \<noteq> 0" "uart_writes hw (d_write d) drv"
    and "device_logs hw taken" "device_grants hw wait" "unat len < 2 ^ 31"
  shows "\<exists>h. alt_write drv (int fd) ptr len s = Some (int (unat len), s\<lparr>io_env := (fst (io_env s), h)\<rparr>)
    \<and> taken h = taken (snd (io_env s)) @ bytes_at (fst (io_env s)) ptr (unat len)"
proof -
  have n: "nat (sint len) = unat len" "length (bytes_at (fst (io_env s)) ptr (unat len)) = unat len"
    using assms(6) by (simp_all add: bytes_at_def sint_u32_small)
  obtain h where h: "altera_avalon_jtag_uart_write_small hw (bytes_at (fst (io_env s)) ptr (unat len)) (snd (io_env s))
      = Some (int (unat len), h)" "taken h = taken (snd (io_env s)) @ bytes_at (fst (io_env s)) ptr (unat len)"
    using write_small_ok [OF assms(4,5)] n(2) by metis
  then have "call_write drv (d_write d) fd ptr len s = (int (unat len), s\<lparr>io_env := (fst (io_env s), h)\<rparr>)"
    using assms(3) unfolding uart_writes_def n(1) [symmetric] by blast
  then show ?thesis using write_calls_driver [OF assms(1,2), of drv ptr len] h(2) by (intro exI [of _ h]) simp
qed

section \<open>From registration to the device\<close>

text \<open>
  Start-up registers the UART and puts the standard streams on it: the streams then stand on
  the device that was registered, and nothing has been sent.
\<close>

lemma redirected_streams:
  fixes s :: "('e, 'm) file_state_scheme"
  assumes "ring (dev_links s) (alt_dev_list s) xs" and "named s (u # xs)" and "u \<noteq> NULL"
    and "valid (dev_links s) u" and "u \<notin> set (alt_dev_list s # xs)"
    and "streams_ready s" and "devs s u = Some d" and "d_open d = 0"
  shows "\<exists>s1 s2. alt_dev_reg u s = Some (0, s1)
    \<and> alt_io_redirect beyond drv (name_of s u) (name_of s u) (name_of s u) s1 = Some s2
    \<and> writes_to 1 u d s2 \<and> writes_to 2 u d s2 \<and> (\<forall>p n. alt_write drv 0 p n s2 = Some (- 1, s2\<lparr>errno := EACCES\<rparr>)) \<and> io_env s2 = io_env s"
proof -
  have "CHR 0x00 \<notin> set (name_of s u)" using assms(2) by (auto simp: named_def name_of_def)
  from register_ok [OF assms(1-5) this, of beyond] obtain h where
    h: "alt_dev_reg u s = Some (0, s\<lparr>dev_links := h\<rparr>)"
      "alt_find_dev beyond (name_of s u) (alt_dev_list s) (s\<lparr>dev_links := h\<rparr>) = Some u" by auto
  let ?s1 = "s\<lparr>dev_links := h\<rparr>"
  have ready: "streams_ready ?s1" using assms(6) by (simp add: streams_ready_def wf_table_def)
  have f: "alt_find_dev beyond (name_of s u) (alt_dev_list ?s1) ?s1 = Some u" "devs ?s1 u = Some d"
    using h(2) assms(7) by simp_all
  obtain s2 where s2: "alt_io_redirect beyond drv (name_of s u) (name_of s u) (name_of s u) ?s1 = Some s2"
      "io_env s2 = io_env ?s1" "devs s2 = devs ?s1"
      "map (\<lambda>f. (fd_dev f, fd_flags f)) (alt_fd_list s2) = [(u, 0 OR 0x40000000), (u, 1 OR 0x40000000), (u, 1 OR 0x40000000), (NULL, 0)]"
    using io_redirect_ok [OF ready f(1) assms(3) f(2) assms(8) f(1) assms(3) f(2) assms(8) f(1) assms(3) f(2) assms(8), of drv]
    by (elim exE conjE)
  have l: "length (alt_fd_list s2) = 4" using arg_cong [OF s2(4), of length] by simp
  have k: "(fd_dev (alt_fd_list s2 ! i), fd_flags (alt_fd_list s2 ! i))
      = [(u, 0 OR 0x40000000), (u, 1 OR 0x40000000), (u, 1 OR 0x40000000), (NULL, 0)] ! i" if "i < 4" for i
    using that l by (subst s2(4) [symmetric]) simp
  have "writes_to 1 u d s2" "writes_to 2 u d s2"
    using k [of 1] k [of 2] l assms(3,7) s2(3) by (simp_all add: writes_to_def)
  moreover have "alt_write drv 0 p n s2 = Some (- 1, s2\<lparr>errno := EACCES\<rparr>)" for p n
    using k [of 0] l by (simp add: alt_write_def get_descr_def rd_in)
  ultimately show ?thesis using h(1) s2(1,2) by (intro exI [of _ ?s1] exI [of _ s2]) simp
qed

text \<open>
  C23: a program's output reaches the host.  After the start-up code has registered the UART
  and redirected the standard streams to it by name, \<open>write\<close> on descriptor 1 and then on
  descriptor 2 both return the full length, and the device has taken exactly the two buffers'
  bytes, one after the other; a \<open>write\<close> on descriptor 0 is refused with \<open>EACCES\<close>.
\<close>

theorem streams_reach_uart:
  fixes s :: "(mem \<times> 'h, 'm) file_state_scheme"
  assumes "ring (dev_links s) (alt_dev_list s) xs" and "named s (u # xs)" and "u \<noteq> NULL"
    and "valid (dev_links s) u" and "u \<notin> set (alt_dev_list s # xs)"
    and "streams_ready s" and "devs s u = Some d" and "d_open d = 0"
    and "d_write d \<noteq> 0" and "uart_writes hw (d_write d) drv" and "device_logs hw taken" and "device_grants hw wait"
    and "unat n1 < 2 ^ 31" and "unat n2 < 2 ^ 31" and "io_env s = (mem, hw0)"
  shows "\<exists>s1 s2 s3 s4. alt_dev_reg u s = Some (0, s1)
    \<and> alt_io_redirect beyond drv (name_of s u) (name_of s u) (name_of s u) s1 = Some s2
    \<and> alt_write drv 0 p0 n0 s2 = Some (- 1, s2\<lparr>errno := EACCES\<rparr>)
    \<and> alt_write drv 1 p1 n1 s2 = Some (int (unat n1), s3)
    \<and> alt_write drv 2 p2 n2 s3 = Some (int (unat n2), s4)
    \<and> taken (snd (io_env s4)) = taken hw0 @ bytes_at mem p1 (unat n1) @ bytes_at mem p2 (unat n2)"
proof -
  obtain s1 s2 where s: "alt_dev_reg u s = Some (0, s1)"
      "alt_io_redirect beyond drv (name_of s u) (name_of s u) (name_of s u) s1 = Some s2"
      "writes_to 1 u d s2" "writes_to 2 u d s2" "\<forall>p n. alt_write drv 0 p n s2 = Some (- 1, s2\<lparr>errno := EACCES\<rparr>)" "io_env s2 = io_env s"
    using redirected_streams [OF assms(1-8), of beyond drv] by (elim exE conjE)
  obtain h where h: "alt_write drv (int 1) p1 n1 s2 = Some (int (unat n1), s2\<lparr>io_env := (mem, h)\<rparr>)"
      "taken h = taken hw0 @ bytes_at mem p1 (unat n1)"
    using write_sends [OF s(3) assms(9-13), of p1] unfolding s(6) assms(15) by auto
  have "writes_to 2 u d (s2\<lparr>io_env := (mem, h)\<rparr>)" using s(4) by (simp add: writes_to_def)
  from write_sends [OF this assms(9-12,14), of p2] obtain h' where
    h': "alt_write drv (int 2) p2 n2 (s2\<lparr>io_env := (mem, h)\<rparr>) = Some (int (unat n2), s2\<lparr>io_env := (mem, h')\<rparr>)"
      "taken h' = taken h @ bytes_at mem p2 (unat n2)" by auto
  show ?thesis
    by (rule exI [of _ s1], rule exI [of _ s2], rule exI [of _ "s2\<lparr>io_env := (mem, h)\<rparr>"],
      rule exI [of _ "s2\<lparr>io_env := (mem, h')\<rparr>"]) (use s(1,2,5) h h' in simp)
qed

text \<open>\<open>/dev/null\<close> at 12 is registered, the UART at 16 is not yet; memory is full of \<open>A\<close>.\<close>

definition demo_console :: "(mem \<times> nat \<times> u8 list) file_state" where
  "demo_console = \<lparr>dev_links = dev_links demo_devs,
     devs = [12 \<mapsto> demo_device ''/dev/null'', 16 \<mapsto> (demo_device ''/dev/jtag_uart'')\<lparr>d_write := 0x200\<rparr>],
     alt_dev_list = 8, alt_fs_list = 4, errno = 0, alt_fd_list = init_fd_list 12, alt_max_fd = - 1,
     io_env = (\<lambda>_. 0x41, 2, [])\<rparr>"

definition demo_console_drivers :: "(mem \<times> nat \<times> u8 list) file_state drivers" where
  "demo_console_drivers = \<lparr>call_open = (\<lambda>f i n fl m s. (0, s)), call_close = (\<lambda>f i s. (0, s)), call_read = (\<lambda>f i p n s. (0, s)),
     call_write = (\<lambda>f i p n s.
       case altera_avalon_jtag_uart_write_small demo_slow (bytes_at (fst (io_env s)) p (nat (sint n))) (snd (io_env s)) of
         Some (rc, h) \<Rightarrow> (rc, s\<lparr>io_env := (fst (io_env s), h)\<rparr>) | None \<Rightarrow> (0, s)),
     call_lseek = (\<lambda>f i p d s. (0, s)), call_fstat = (\<lambda>f i st s. (0, st, s)), call_ioctl = (\<lambda>f i r a s. (0, s))\<rparr>"

theorem streams_reach_uart_witness:
  "\<exists>s1 s2 s3 s4. alt_dev_reg 16 demo_console = Some (0, s1)
    \<and> alt_io_redirect (\<lambda>_ _. CHR ''x'') demo_console_drivers ''/dev/jtag_uart'' ''/dev/jtag_uart'' ''/dev/jtag_uart'' s1 = Some s2
    \<and> alt_write demo_console_drivers 1 0x100 2 s2 = Some (2, s3)
    \<and> alt_write demo_console_drivers 2 0x200 1 s3 = Some (1, s4)
    \<and> snd (snd (io_env s4)) = [0x41, 0x41, 0x41]"
proof -
  let ?s = demo_console and ?d = "(demo_device ''/dev/jtag_uart'')\<lparr>d_write := 0x200\<rparr>"
  have ring: "ring (dev_links ?s) (alt_dev_list ?s) [12]" "valid (dev_links ?s) 16"
    using demo_devs_ring by (simp_all add: demo_console_def)
  have names: "named ?s [16, 12]" "name_of ?s 16 = ''/dev/jtag_uart''"
    by (simp_all add: demo_console_def named_def name_of_def demo_device_def)
  have ready: "streams_ready ?s"
    by (simp add: demo_console_def streams_ready_def wf_table_def init_fd_list_def all_less_3 all_less_4 nth_append)
  have d: "devs ?s 16 = Some ?d" "(16 :: addr) \<noteq> 0" "16 \<notin> set (alt_dev_list ?s # [12])" "d_open ?d = 0" "d_write ?d \<noteq> 0"
    "unat (2 :: u32) < 2 ^ 31" "unat (1 :: u32) < 2 ^ 31" "io_env ?s = (\<lambda>_. 0x41, 2, [])"
    by (simp_all add: demo_console_def demo_device_def)
  have w: "uart_writes demo_slow (d_write ?d) demo_console_drivers"
    by (simp add: uart_writes_def demo_console_drivers_def)
  from streams_reach_uart [OF ring(1) names(1) d(2) ring(2) d(3) ready d(1,4,5) w demo_slow_logs d(6,7,8),
      of "\<lambda>_ _. CHR ''x''" 0 0 "0x100" "0x200"]
  obtain s1 s2 s3 s4 where run: "alt_dev_reg 16 ?s = Some (0, s1)"
    "alt_io_redirect (\<lambda>_ _. CHR ''x'') demo_console_drivers ''/dev/jtag_uart'' ''/dev/jtag_uart'' ''/dev/jtag_uart'' s1 = Some s2"
    "alt_write demo_console_drivers 1 0x100 2 s2 = Some (int (unat (2 :: u32)), s3)"
    "alt_write demo_console_drivers 2 0x200 1 s3 = Some (int (unat (1 :: u32)), s4)"
    "snd (snd (io_env s4)) = snd (2 :: nat, []) @ bytes_at (\<lambda>_. 0x41) 0x100 (unat (2 :: u32)) @ bytes_at (\<lambda>_. 0x41) 0x200 (unat (1 :: u32))"
    unfolding names(2) by (elim exE conjE)
  have "snd (snd (io_env s4)) = [0x41, 0x41, 0x41]" unfolding run(5) by (simp add: bytes_at_def upt_rec)
  then show ?thesis using run(1-4)
    by - (rule exI [of _ s1], rule exI [of _ s2], rule exI [of _ s3], rule exI [of _ s4], simp)
qed

section \<open>The two formatted-output functions\<close>

text \<open>Formats that both know: after a percent sign stands one of \<open>c\<close>, \<open>x\<close>, \<open>s\<close> and \<open>%\<close>.\<close>

fun plain_format :: "u8 list \<Rightarrow> bool" where
  "plain_format [] = True"
| "plain_format (c # w) =
     (if c \<noteq> 0x25 then plain_format w
      else case w of [] \<Rightarrow> True | d # w \<Rightarrow> (d = 0x63 \<or> d = 0x78 \<or> d = 0x73 \<or> d = 0x25) \<and> plain_format w)"

lemma hex_digits_of: "hex_digits n = map (digit_byte False) (digits_of 16 n)"
proof (induction n rule: hex_digits.induct)
  case (1 n)
  have d: "hex_digit k = digit_byte False k" if "k < 16" for k
    using that by (auto simp: hex_digit_def digit_byte_def)
  show ?case
  proof (cases "n < 16")
    case True
    then show ?thesis using d by (subst hex_digits.simps, subst digits_of.simps) simp
  next
    case False
    then show ?thesis using 1 d [of "n mod 16"]
      by (subst hex_digits.simps, subst digits_of.simps) simp
  qed
qed

lemma not_flags: "\<not> flag_char 0x63" "\<not> flag_char 0x78" "\<not> flag_char 0x73" "\<not> flag_char 0x25"
  by (simp_all add: flag_char_def)

text \<open>A field of one letter, in the text of the log.\<close>

lemma log_text_field:
  assumes "\<not> flag_char d" "d \<noteq> 0x30" "d \<noteq> 0x25"
  shows "log_text (0x25 # d # w) args
    = do { (t, args) \<leftarrow> letter_text False 0 d args; map_option ((@) t) (log_text w args) }"
  using assms by (subst log_text.simps) (simp add: width_of_def Let_def)

lemma log_text_letters:
  "log_text (0x25 # 0x63 # w) args
    = (case args of Num v # args \<Rightarrow> map_option ((#) (ucast v)) (log_text w args) | _ \<Rightarrow> None)"
  "log_text (0x25 # 0x78 # w) args
    = (case args of Num v # args \<Rightarrow> map_option ((@) (hex_text v)) (log_text w args) | _ \<Rightarrow> None)"
  "log_text (0x25 # 0x73 # w) args
    = (case args of Str str # args \<Rightarrow> map_option ((@) str) (log_text w args) | _ \<Rightarrow> None)"
  "log_text (0x25 # 0x25 # w) args = map_option ((#) 0x25) (log_text w args)"
proof -
  have one: "(@) [x] = (#) x" for x :: u8 by (rule ext) simp
  show "log_text (0x25 # 0x63 # w) args
    = (case args of Num v # args \<Rightarrow> map_option ((#) (ucast v)) (log_text w args) | _ \<Rightarrow> None)"
    by (subst log_text_field) (simp_all add: not_flags letter_text_def one split: list.split arg.split)
  show "log_text (0x25 # 0x78 # w) args
    = (case args of Num v # args \<Rightarrow> map_option ((@) (hex_text v)) (log_text w args) | _ \<Rightarrow> None)"
    by (subst log_text_field)
      (simp_all add: not_flags letter_text_def int_text_def hex_text_def hex_digits_of split: list.split arg.split)
  show "log_text (0x25 # 0x73 # w) args
    = (case args of Str str # args \<Rightarrow> map_option ((@) str) (log_text w args) | _ \<Rightarrow> None)"
    by (subst log_text_field) (simp_all add: not_flags letter_text_def split: list.split arg.split)
  show "log_text (0x25 # 0x25 # w) args = map_option ((#) 0x25) (log_text w args)"
    by (subst log_text.simps) (simp add: not_flags Let_def)
qed

declare log_text.simps(2) [simp del] printf_text.simps(2) [simp del]

lemma printf_text_letters:
  "printf_text (0x25 # 0x63 # w) args
    = (case args of Num v # args \<Rightarrow> map_option ((#) (ucast v)) (printf_text w args) | _ \<Rightarrow> None)"
  "printf_text (0x25 # 0x78 # w) args
    = (case args of Num v # args \<Rightarrow> map_option ((@) (hex_text v)) (printf_text w args) | _ \<Rightarrow> None)"
  "printf_text (0x25 # 0x73 # w) args
    = (case args of Str str # args \<Rightarrow> map_option ((@) str) (printf_text w args) | _ \<Rightarrow> None)"
  "printf_text (0x25 # 0x25 # w) args = map_option ((#) 0x25) (printf_text w args)"
  by (simp_all add: printf_text.simps(2))

lemma log_text_plain: "plain_format fmt \<Longrightarrow> log_text fmt args = printf_text fmt args"
proof (induction fmt arbitrary: args rule: plain_format.induct)
  case 1
  show ?case by simp
next
  case (2 c w)
  show ?case
  proof (cases "c = 0x25")
    case False
    then show ?thesis using 2 by (simp add: log_text.simps(2) printf_text.simps(2))
  next
    case percent: True
    show ?thesis
    proof (cases w)
      case Nil
      then show ?thesis using percent by (simp add: log_text.simps(2) printf_text.simps(2))
    next
      case (Cons d w')
      then have d: "d = 0x63 \<or> d = 0x78 \<or> d = 0x73 \<or> d = 0x25" and w': "plain_format w'"
        using "2.prems" percent by auto
      have IH: "log_text w' args = printf_text w' args" for args
        using "2.IH"(2) [of d w'] percent Cons d w' by simp
      from d show ?thesis
        unfolding Cons percent by (elim disjE) (simp_all only: log_text_letters printf_text_letters IH)
    qed
  qed
qed

text \<open>
  C21: the two formatted-output functions agree.  On a format that uses nothing but \<open>%c\<close>,
  \<open>%x\<close>, \<open>%s\<close> and \<open>%%\<close>, with its arguments there, \<open>alt_printf\<close> through \<open>alt_putchar\<close> and the
  log's automaton through its own output function both return and leave the device with
  the same bytes, though one finds the digits of a number by shifting and the other by
  dividing.
\<close>

theorem printf_variants_agree:
  assumes "device_logs hw taken" and "device_grants hw wait"
    and "plain_format fmt" and "printf_text fmt args \<noteq> None"
  shows "\<exists>h1 h2. alt_printf (alt_putchar hw) fmt args h = Some h1
    \<and> alt_log_private_printf (log_put hw) fmt args h = Some h2 \<and> taken h1 = taken h2"
proof -
  obtain t where t: "printf_text fmt args = Some t" "log_text fmt args = Some t"
    using assms(4) log_text_plain [OF assms(3)] by auto
  obtain h1 where "alt_printf (alt_putchar hw) fmt args h = Some h1" "taken h1 = taken h @ t"
    using char_sink.printf_emits [OF putchar_sink [OF assms(1,2)] t(1)]
    by (auto simp: char_sink.emits_def [OF putchar_sink [OF assms(1,2)]])
  moreover obtain h2 where "alt_log_private_printf (log_put hw) fmt args h = Some h2" "taken h2 = taken h @ t"
    using private_printf_ok [OF assms(1,2) t(2)] by blast
  ultimately show ?thesis by (metis)
qed

theorem printf_variants_agree_witness:
  "\<exists>h1 h2. alt_printf (alt_putchar demo_slow) [0x25, 0x78, 0x25, 0x63, 0x21] [Num 0x1F, Num 0x41] (0, []) = Some h1
    \<and> alt_log_private_printf (log_put demo_slow) [0x25, 0x78, 0x25, 0x63, 0x21] [Num 0x1F, Num 0x41] (0, []) = Some h2
    \<and> snd h1 = snd h2"
proof -
  have "plain_format [0x25, 0x78, 0x25, 0x63, 0x21]" by simp
  moreover have "printf_text [0x25, 0x78, 0x25, 0x63, 0x21] [Num 0x1F, Num 0x41] \<noteq> None"
    by (simp add: printf_text.simps(2))
  ultimately show ?thesis by (rule printf_variants_agree [OF demo_slow_logs])
qed

end
