(* ===== verification/Timing.thy ===== *)
theory Timing
  imports Prelude
begin

text \<open>
  Measuring time: the timestamp timer (\<open>altera_avalon_timer_ts.c\<close>, \<open>altera_avalon_timer_vars.c\<close>,
  the initialisation macro of \<open>altera_avalon_timer.h\<close>) and the performance counter
  (\<open>altera_avalon_performance_counter.c\<close> and its header, and the report of
  \<open>perf_print_formatted_report.c\<close> in its variant for the small C library).

  The peripherals are parameters: reading and writing register \<open>r\<close> of the device at \<open>base\<close>.
\<close>

section \<open>The timestamp timer\<close>

record 'h regs =
  reg_read :: "u32 \<Rightarrow> nat \<Rightarrow> 'h \<Rightarrow> u32 \<times> 'h"
  reg_write :: "u32 \<Rightarrow> nat \<Rightarrow> u32 \<Rightarrow> 'h \<Rightarrow> 'h"

record 'h ts_state =
  ts_base :: u32
  ts_freq :: u32
  ts_hw :: 'h

definition ts_reset :: "'h \<Rightarrow> 'h ts_state" where
  "ts_reset h = \<lparr>ts_base = 0, ts_freq = 0, ts_hw = h\<rparr>"

text \<open>
  \<open>ALTERA_AVALON_TIMER_FREQ\<close>, the interrupts of the system clock per second; the unit of the
  period is a string, and any but the three named means clock cycles.
\<close>

datatype period_unit = Microseconds | Milliseconds | Seconds | Clocks

definition timer_freq :: "u32 \<Rightarrow> u32 \<Rightarrow> period_unit \<Rightarrow> u32" where
  "timer_freq freq period units =
     (case units of
        Microseconds \<Rightarrow> (1000000 + (period - 1)) div period
      | Milliseconds \<Rightarrow> (1000 + (period - 1)) div period
      | Seconds \<Rightarrow> 1
      | Clocks \<Rightarrow> (freq + (period - 1)) div period)"

text \<open>
  \<open>ALTERA_AVALON_TIMER_INIT\<close> for one timer: it is the system clock, which \<open>start_clock\<close> starts
  (\<open>alt_avalon_timer_sc_init\<close> of the clock), or the timestamp timer, or not used.  \<open>None\<close>: the
  program does not link, for want of the interrupt or of the snapshot register.
\<close>

record timer_params =
  timer_base :: u32
  timer_irq :: "u32 option"
  timer_hz :: u32
  timer_period :: u32
  timer_units :: period_unit
  timer_snapshot :: bool

definition timer_init ::
  "u32 \<Rightarrow> u32 \<Rightarrow> (u32 \<Rightarrow> u32 \<Rightarrow> u32 \<Rightarrow> ('h, 'm) ts_state_scheme \<Rightarrow> ('h, 'm) ts_state_scheme) \<Rightarrow> timer_params
    \<Rightarrow> ('h, 'm) ts_state_scheme \<Rightarrow> ('h, 'm) ts_state_scheme option" where
  "timer_init sys_clk_base timestamp_base start_clock t s =
     (if timer_base t = sys_clk_base then
        map_option (\<lambda>irq. start_clock (timer_base t) irq (timer_freq (timer_hz t) (timer_period t) (timer_units t)) s)
          (timer_irq t)
      else if timer_base t = timestamp_base then
        if timer_snapshot t then Some (s\<lparr>ts_base := timer_base t, ts_freq := timer_hz t\<rparr>) else None
      else Some s)"

text \<open>The rate is rounded up, so a clock interrupt comes at least as often as the period asks.\<close>

lemma timer_freq_clocks:
  assumes "period \<noteq> 0" "unat freq + unat period \<le> 2 ^ 32"
  shows "unat (timer_freq freq period Clocks) = (unat freq + unat period - 1) div unat period"
proof -
  have "0 < unat period" using assms(1) by (simp only: unat_gt_0 not_False_eq_True)
  then have p: "unat (period - 1) = unat period - 1" using unat_minus_one [OF assms(1)] by simp
  then have "unat (freq + (period - 1)) = unat freq + unat period - 1"
    using assms(2) \<open>0 < unat period\<close> by (subst unat_plus_if_small) auto
  then show ?thesis by (simp add: timer_freq_def unat_div)
qed

text \<open>\<open>wide\<close>: the counter has 64 bits.  Control 8 stops the timer, 4 starts it.\<close>

definition alt_timestamp_start :: "bool \<Rightarrow> 'h regs \<Rightarrow> ('h, 'm) ts_state_scheme \<Rightarrow> int \<times> ('h, 'm) ts_state_scheme" where
  "alt_timestamp_start wide io s =
     (let put = reg_write io (ts_base s); h = ts_hw s in
      if ts_freq s = 0 then (- 1, s)
      else if wide then
        (let h = put 1 8 h;
             h = put 2 0xFFFF h;
             h = put 3 0xFFFF h;
             h = put 4 0xFFFF h;
             h = put 5 0xFFFF h;
             h = put 1 4 h
         in (0, s\<lparr>ts_hw := h\<rparr>))
      else
        (let h = put 1 8 h;
             h = put 2 0xFFFF h;
             h = put 3 0xFFFF h;
             h = put 1 4 h
         in (0, s\<lparr>ts_hw := h\<rparr>)))"

text \<open>The narrow variant computes in 32 bits.\<close>

definition alt_timestamp :: "bool \<Rightarrow> 'h regs \<Rightarrow> ('h, 'm) ts_state_scheme \<Rightarrow> u64 \<times> ('h, 'm) ts_state_scheme" where
  "alt_timestamp wide io s =
     (let get = reg_read io (ts_base s); put = reg_write io (ts_base s); h = ts_hw s in
      if ts_freq s = 0 then (if wide then 0xFFFFFFFFFFFFFFFF else 0xFFFFFFFF, s)
      else if wide then
        (let h = put 6 0 h;
             (snap_0, h) = get 6 h;
             (snap_1, h) = get 7 h;
             (snap_2, h) = get 8 h;
             (snap_3, h) = get 9 h;
             snap = (\<lambda>v. ucast (v AND 0xFFFF) :: u64)
         in (0xFFFFFFFFFFFFFFFF - (push_bit 48 (snap snap_3) OR push_bit 32 (snap snap_2) OR push_bit 16 (snap snap_1) OR snap snap_0),
             s\<lparr>ts_hw := h\<rparr>))
      else
        (let h = put 4 0 h;
             (lower, h) = get 4 h;
             (upper, h) = get 5 h
         in (ucast (0xFFFFFFFF - (push_bit 16 (upper AND 0xFFFF) OR (lower AND 0xFFFF))), s\<lparr>ts_hw := h\<rparr>)))"

definition alt_timestamp_freq :: "('h, 'm) ts_state_scheme \<Rightarrow> u32" where
  "alt_timestamp_freq s = ts_freq s"

section \<open>The performance counter\<close>

definition PERF_BEGIN :: "'h regs \<Rightarrow> u32 \<Rightarrow> nat \<Rightarrow> 'h \<Rightarrow> 'h" where
  "PERF_BEGIN io p n h = reg_write io p (n * 4 + 1) 0 h"

definition PERF_END :: "'h regs \<Rightarrow> u32 \<Rightarrow> nat \<Rightarrow> 'h \<Rightarrow> 'h" where
  "PERF_END io p n h = reg_write io p (n * 4) 0 h"

definition PERF_RESET :: "'h regs \<Rightarrow> u32 \<Rightarrow> 'h \<Rightarrow> 'h" where
  "PERF_RESET io p h = reg_write io p 0 1 h"

definition PERF_START_MEASURING :: "'h regs \<Rightarrow> u32 \<Rightarrow> 'h \<Rightarrow> 'h" where
  "PERF_START_MEASURING io p h = PERF_BEGIN io p 0 h"

definition PERF_STOP_MEASURING :: "'h regs \<Rightarrow> u32 \<Rightarrow> 'h \<Rightarrow> 'h" where
  "PERF_STOP_MEASURING io p h = PERF_END io p 0 h"

definition perf_get_section_time :: "'h regs \<Rightarrow> u32 \<Rightarrow> nat \<Rightarrow> 'h \<Rightarrow> u64 \<times> 'h" where
  "perf_get_section_time io p which_section h =
     (let h = PERF_STOP_MEASURING io p h;
          (lo, h) = reg_read io p (which_section * 4) h;
          (hi, h) = reg_read io p (which_section * 4 + 1) h
      in (push_bit 32 (ucast hi) OR ucast lo, h))"

definition perf_get_total_time :: "'h regs \<Rightarrow> u32 \<Rightarrow> 'h \<Rightarrow> u64 \<times> 'h" where
  "perf_get_total_time io p h = perf_get_section_time io p 0 h"

definition perf_get_num_starts :: "'h regs \<Rightarrow> u32 \<Rightarrow> nat \<Rightarrow> 'h \<Rightarrow> u32 \<times> 'h" where
  "perf_get_num_starts io p which_section h = reg_read io p (which_section * 4 + 2) h"

text \<open>
  The report.  \<open>out\<close> is the C library's \<open>printf\<close>, given the format and its argument; the names are
  the variable arguments, read one more time than there are sections.
\<close>

datatype pval = P_none | P_name "u8 list" | P_u32 u32 | P_u64 u64

type_synonym 'h printer = "string \<Rightarrow> pval \<Rightarrow> 'h \<Rightarrow> 'h"

definition separator :: string where
  "separator = ''+---------------+-----+------------+---------------+------------+'' @ [CHR 0x0A]"

definition column_header :: string where
  "column_header = ''| Section       |  %  | Time (usec)|  Time (clocks)|Occurrences |'' @ [CHR 0x0A]"

definition report_section :: "'h regs \<Rightarrow> 'h printer \<Rightarrow> u32 \<Rightarrow> u32 \<Rightarrow> u64 \<Rightarrow> u8 list \<Rightarrow> nat \<Rightarrow> 'h \<Rightarrow> 'h" where
  "report_section io out p clock_freq total_clocks section_name n h =
     (let (section_clocks, h) = perf_get_section_time io p n h;
          h = out ''|%15s'' (P_name section_name) h;
          h = (if total_clocks \<noteq> 0 then out ''|%4u '' (P_u32 (ucast (section_clocks * 100 div total_clocks))) h
               else out ''|%4u '' (P_u32 0) h);
          h = out ''|%11llu '' (P_u64 (section_clocks * 1000000 div ucast clock_freq)) h;
          h = out ''|%14u '' (P_u32 (ucast section_clocks)) h;
          (starts, h) = perf_get_num_starts io p n h;
          h = out (''|%10u  |'' @ [CHR 0x0A]) (P_u32 starts) h
      in out ''%s'' (P_name (bytes_of separator)) h)"

text \<open>Sections \<open>n\<close> to \<open>num_sections\<close>; \<open>name k\<close> is the \<open>k\<close>th name argument.\<close>

function report_loop :: "'h regs \<Rightarrow> 'h printer \<Rightarrow> u32 \<Rightarrow> u32 \<Rightarrow> (nat \<Rightarrow> u8 list) \<Rightarrow> u64 \<Rightarrow> nat \<Rightarrow> nat \<Rightarrow> 'h \<Rightarrow> 'h" where
  "report_loop io out p clock_freq name total_clocks num_sections n h =
     (if n \<le> num_sections
      then report_loop io out p clock_freq name total_clocks num_sections (n + 1)
             (report_section io out p clock_freq total_clocks (name n) n h)
      else h)"
  by pat_completeness auto
termination by (relation "measure (\<lambda>(_, _, _, _, _, _, m, n, _). m + 1 - n)") auto

declare report_loop.simps [simp del]

definition perf_print_formatted_report ::
  "'h regs \<Rightarrow> 'h printer \<Rightarrow> u32 \<Rightarrow> u32 \<Rightarrow> nat \<Rightarrow> (nat \<Rightarrow> u8 list) \<Rightarrow> 'h \<Rightarrow> int \<times> 'h" where
  "perf_print_formatted_report io out p clock_freq num_sections name h =
     (let h = PERF_STOP_MEASURING io p h;
          (total_clocks, h) = perf_get_total_time io p h;
          total_usec = total_clocks * 1000000 div ucast clock_freq;
          h = out (''--Performance Counter Report--'' @ [CHR 0x0A]) P_none h;
          h = out ''Total Time : %llu usec '' (P_u64 total_usec) h;
          h = out (''(%llu clock-cycles)'' @ [CHR 0x0A]) (P_u64 total_clocks) h;
          h = out ''%s'' (P_name (bytes_of separator)) h;
          h = out ''%s'' (P_name (bytes_of column_header)) h;
          h = out ''%s'' (P_name (bytes_of separator)) h
      in (0, report_loop io out p clock_freq name total_clocks num_sections 1 h))"

section \<open>The timestamp counts the ticks since the start\<close>

text \<open>
  Writing the snapshot register latches the counter, and the snapshot registers from \<open>r\<close> on show
  it 16 bits at a time.
\<close>

definition latches :: "'h regs \<Rightarrow> u32 \<Rightarrow> nat \<Rightarrow> nat \<Rightarrow> ('h \<Rightarrow> u64) \<Rightarrow> ('h \<Rightarrow> u64) \<Rightarrow> bool" where
  "latches io base r parts counter snapshot \<longleftrightarrow>
     (\<forall>v h. snapshot (reg_write io base r v h) = counter h)
   \<and> (\<forall>h. \<forall>i < parts. fst (reg_read io base (r + i) h) = ucast (take_bit 16 (drop_bit (16 * i) (snapshot h)))
        \<and> snapshot (snd (reg_read io base (r + i) h)) = snapshot h)"

lemma and_16: "v AND 0xFFFF = take_bit 16 v" for v :: u32
  by (simp add: take_bit_eq_mask mask_eq_exp_minus_1)

lemma chunk_bit: "bit (ucast (ucast (take_bit 16 (drop_bit i c)) AND 0xFFFF :: u32) :: u64) n \<longleftrightarrow> n < 16 \<and> bit c (i + n)"
  for c :: u64
  unfolding and_16 by (auto simp: bit_simps)

lemma join_four:
  fixes c :: u64
  defines "chunk \<equiv> \<lambda>i. ucast (ucast (take_bit 16 (drop_bit i c)) AND 0xFFFF :: u32) :: u64"
  shows "push_bit 48 (chunk 48) OR push_bit 32 (chunk 32) OR push_bit 16 (chunk 16) OR chunk 0 = c"
proof (rule bit_word_eqI)
  fix n assume "n < LENGTH(64)"
  then have n: "n < 64" by simp
  have c: "bit (chunk i) k \<longleftrightarrow> k < 16 \<and> bit c (i + k)" for i k unfolding chunk_def by (rule chunk_bit)
  consider "n < 16" | "16 \<le> n" "n < 32" | "32 \<le> n" "n < 48" | "48 \<le> n" by linarith
  then show "bit (push_bit 48 (chunk 48) OR push_bit 32 (chunk 32) OR push_bit 16 (chunk 16) OR chunk 0) n = bit c n"
    by cases (use n in \<open>auto simp: bit_or_iff bit_push_bit_iff c\<close>)
qed

lemma join_two:
  "push_bit 16 (ucast (take_bit 16 (drop_bit 16 c)) AND 0xFFFF) OR (ucast (take_bit 16 (drop_bit 0 c)) AND 0xFFFF) = (ucast c :: u32)"
  for c :: u64
  unfolding and_16 by (intro bit_word_eqI) (auto simp: bit_simps)

lemma narrow_elapsed:
  fixes c k :: u64
  assumes "c = 0xFFFFFFFF - k" "k \<le> 0xFFFFFFFF"
  shows "ucast (0xFFFFFFFF - ucast c :: u32) = k"
proof -
  have c: "unat c = 0xFFFFFFFF - unat k" "unat k \<le> 0xFFFFFFFF"
    using assms by (simp_all add: unat_le_sub word_le_nat_alt)
  have u: "unat (ucast c :: u32) = unat c" using c by (simp add: unsigned_ucast_eq take_bit_nat_eq_self)
  have "unat (0xFFFFFFFF - ucast c :: u32) = unat (0xFFFFFFFF :: u32) - unat (ucast c :: u32)"
    by (rule unat_le_sub) (use u c in \<open>simp add: word_le_nat_alt\<close>)
  then have "unat (0xFFFFFFFF - ucast c :: u32) = unat k" using u c by simp
  then show ?thesis using c(2) by (intro word_unat_eq_iff [THEN iffD2]) (simp add: unsigned_ucast_eq take_bit_nat_eq_self)
qed

text \<open>
  With a timestamp device whose counter stands \<open>k\<close> below its full scale, \<open>alt_timestamp\<close> returns
  \<open>k\<close>, the ticks since it was started, in the 64-bit and in the 32-bit variant.
\<close>

theorem timestamp_elapsed:
  assumes "ts_freq s \<noteq> 0" "latches io (ts_base s) (if wide then 6 else 4) (if wide then 4 else 2) counter snapshot"
    and "counter (ts_hw s) = (if wide then - 1 else 0xFFFFFFFF) - k" "wide \<or> k \<le> 0xFFFFFFFF"
  shows "fst (alt_timestamp wide io s) = k"
proof -
  have l: "snapshot (reg_write io (ts_base s) (if wide then 6 else 4) v h) = counter h" for v h
    using assms(2) by (simp add: latches_def)
  have g: "fst (reg_read io (ts_base s) ((if wide then 6 else 4) + i) h) = ucast (take_bit 16 (drop_bit (16 * i) (snapshot h)))"
    and k: "snapshot (snd (reg_read io (ts_base s) ((if wide then 6 else 4) + i) h)) = snapshot h"
    if "i < (if wide then 4 else 2)" for i h
    using assms(2) that by (auto simp: latches_def)
  let ?c = "counter (ts_hw s)"
  show ?thesis
  proof (cases wide)
    case True
    have g: "fst (reg_read io (ts_base s) 6 h) = ucast (take_bit 16 (drop_bit 0 (snapshot h)))"
      "fst (reg_read io (ts_base s) 7 h) = ucast (take_bit 16 (drop_bit 16 (snapshot h)))"
      "fst (reg_read io (ts_base s) 8 h) = ucast (take_bit 16 (drop_bit 32 (snapshot h)))"
      "fst (reg_read io (ts_base s) 9 h) = ucast (take_bit 16 (drop_bit 48 (snapshot h)))" for h
      using g [of 0 h] g [of 1 h] g [of 2 h] g [of 3 h] True by simp_all
    have k: "snapshot (snd (reg_read io (ts_base s) 6 h)) = snapshot h" "snapshot (snd (reg_read io (ts_base s) 7 h)) = snapshot h"
      "snapshot (snd (reg_read io (ts_base s) 8 h)) = snapshot h" for h
      using k [of 0 h] k [of 1 h] k [of 2 h] True by simp_all
    have "fst (alt_timestamp wide io s) = 0xFFFFFFFFFFFFFFFF - ?c"
      using True l assms(1) join_four [of ?c] by (simp add: alt_timestamp_def Let_def split_beta g k)
    then show ?thesis using assms(3) True by simp
  next
    case False
    have g: "fst (reg_read io (ts_base s) 4 h) = ucast (take_bit 16 (drop_bit 0 (snapshot h)))"
      "fst (reg_read io (ts_base s) 5 h) = ucast (take_bit 16 (drop_bit 16 (snapshot h)))" for h
      using g [of 0 h] g [of 1 h] False by simp_all
    have k: "snapshot (snd (reg_read io (ts_base s) 4 h)) = snapshot h" for h using k [of 0 h] False by simp
    have "fst (alt_timestamp wide io s) = ucast (0xFFFFFFFF - ucast ?c :: u32)"
      using False l assms(1) join_two [of ?c] by (simp add: alt_timestamp_def Let_def split_beta g k)
    moreover have "ucast (0xFFFFFFFF - ucast ?c :: u32) = k"
      by (rule narrow_elapsed) (use assms(3,4) False in simp_all)
    ultimately show ?thesis by simp
  qed
qed

text \<open>A 32-bit timer on its own: the counter, and the latched value.\<close>

definition demo_timer :: "(u64 \<times> u64) regs" where
  "demo_timer = \<lparr>
     reg_read = (\<lambda>_ r (counter, snapshot). (ucast (take_bit 16 (drop_bit (16 * (r - 4)) snapshot)), (counter, snapshot))),
     reg_write = (\<lambda>_ r v (counter, snapshot). (counter, if r = 4 then counter else snapshot))\<rparr>"

theorem timestamp_elapsed_witness:
  "fst (alt_timestamp False demo_timer \<lparr>ts_base = 0x5000, ts_freq = 50000000, ts_hw = (0xFFFFFFFF - 1000, 0)\<rparr>) = 1000"
  by (rule timestamp_elapsed [of _ _ _ fst snd]) (auto simp: latches_def demo_timer_def)

text \<open>Reading a section's time stops the measurement first, and joins the two halves.\<close>

lemma join_halves:
  "ucast (push_bit 32 (ucast hi) OR ucast lo :: u64) = lo" "ucast (drop_bit 32 (push_bit 32 (ucast hi) OR ucast lo :: u64)) = hi"
  for lo hi :: u32
  by (rule bit_word_eqI; auto simp: bit_simps dest: bit_imp_le_length)+

lemma section_time_halves:
  assumes "perf_get_section_time io p n h = (t, h')"
  shows "ucast t = fst (reg_read io p (n * 4) (reg_write io p 0 0 h))"
    and "ucast (drop_bit 32 t) = fst (reg_read io p (n * 4 + 1) (snd (reg_read io p (n * 4) (reg_write io p 0 0 h))))"
proof -
  let ?h = "reg_write io p 0 0 h"
  let ?lo = "reg_read io p (n * 4) ?h"
  have "t = push_bit 32 (ucast (fst (reg_read io p (n * 4 + 1) (snd ?lo)))) OR ucast (fst ?lo)"
    using assms by (simp add: perf_get_section_time_def PERF_STOP_MEASURING_def PERF_END_def split_beta Let_def)
  then show "ucast t = fst ?lo" "ucast (drop_bit 32 t) = fst (reg_read io p (n * 4 + 1) (snd ?lo))"
    by (simp_all only: join_halves)
qed

end
