(* ===== verification/Channels.thy ===== *)
theory Channels
  imports Devices
begin

text \<open>
  DMA channels and flash devices: the inline functions of \<open>sys/alt_dma.h\<close>, \<open>sys/alt_dma_dev.h\<close>,
  \<open>sys/alt_flash.h\<close> and \<open>sys/alt_flash_dev.h\<close>, over the device lists of \<open>Devices\<close>.

  The structures share their first members, the list entry and the name, with \<open>alt_dev\<close>; the
  rest of each is kept beside it, by address; the members of a flash device that only its driver
  reads (base address, length, regions) belong to the driver.  The functions of the drivers are parameters that
  run the function at an address.  \<open>None\<close> is a call through a structure that is not there.
\<close>

section \<open>State\<close>

record txchan_dev =
  tx_space :: u32
  tx_dma_send :: u32
  tx_ioctl :: u32

record rxchan_dev =
  rx_depth :: u32
  rx_prepare :: u32
  rx_ioctl :: u32

record flash_dev =
  fl_write :: u32
  fl_read :: u32
  fl_get_info :: u32
  fl_erase_block :: u32
  fl_write_block :: u32
  fl_lock :: u32

record chan_state = dev_state +
  tx_chans :: "addr \<Rightarrow> txchan_dev option"
  rx_chans :: "addr \<Rightarrow> rxchan_dev option"
  flash_devs :: "addr \<Rightarrow> flash_dev option"
  alt_dma_txchan_list :: addr
  alt_dma_rxchan_list :: addr
  alt_flash_dev_list :: addr

text \<open>A driver's function: its address, the device, and the remaining arguments.\<close>

record 's chan_drivers =
  run_space :: "u32 \<Rightarrow> addr \<Rightarrow> 's \<Rightarrow> int \<times> 's"
  run_post :: "u32 \<Rightarrow> addr \<Rightarrow> addr \<Rightarrow> u32 \<Rightarrow> u32 \<Rightarrow> u32 \<Rightarrow> 's \<Rightarrow> int \<times> 's"
  run_ioctl :: "u32 \<Rightarrow> addr \<Rightarrow> int \<Rightarrow> u32 \<Rightarrow> 's \<Rightarrow> int \<times> 's"
  run_lock :: "u32 \<Rightarrow> addr \<Rightarrow> u32 \<Rightarrow> 's \<Rightarrow> int \<times> 's"
  run_transfer :: "u32 \<Rightarrow> addr \<Rightarrow> int \<Rightarrow> addr \<Rightarrow> int \<Rightarrow> 's \<Rightarrow> int \<times> 's"
  run_get_info :: "u32 \<Rightarrow> addr \<Rightarrow> addr \<Rightarrow> addr \<Rightarrow> 's \<Rightarrow> int \<times> 's"
  run_erase :: "u32 \<Rightarrow> addr \<Rightarrow> int \<Rightarrow> 's \<Rightarrow> int \<times> 's"
  run_write_block :: "u32 \<Rightarrow> addr \<Rightarrow> int \<Rightarrow> int \<Rightarrow> addr \<Rightarrow> int \<Rightarrow> 's \<Rightarrow> int \<times> 's"

section \<open>Registration\<close>

definition alt_dma_txchan_reg :: "addr \<Rightarrow> 'm chan_state_scheme \<Rightarrow> (int \<times> 'm chan_state_scheme) option" where
  "alt_dma_txchan_reg dev s = alt_dev_llist_insert dev (alt_dma_txchan_list s) s"

definition alt_dma_rxchan_reg :: "addr \<Rightarrow> 'm chan_state_scheme \<Rightarrow> (int \<times> 'm chan_state_scheme) option" where
  "alt_dma_rxchan_reg dev s = alt_dev_llist_insert dev (alt_dma_rxchan_list s) s"

definition alt_flash_device_register :: "addr \<Rightarrow> 'm chan_state_scheme \<Rightarrow> (int \<times> 'm chan_state_scheme) option" where
  "alt_flash_device_register fd s = alt_dev_llist_insert fd (alt_flash_dev_list s) s"

section \<open>Transmit channels\<close>

definition alt_dma_txchan_close :: "addr \<Rightarrow> int" where
  "alt_dma_txchan_close dma = 0"

definition alt_dma_txchan_send ::
  "'m chan_state_scheme chan_drivers \<Rightarrow> addr \<Rightarrow> addr \<Rightarrow> u32 \<Rightarrow> u32 \<Rightarrow> u32 \<Rightarrow> 'm chan_state_scheme
    \<Rightarrow> (int \<times> 'm chan_state_scheme) option" where
  "alt_dma_txchan_send drv dma src len done_fn hdl s =
     (if dma \<noteq> NULL then do { c \<leftarrow> tx_chans s dma; Some (run_post drv (tx_dma_send c) dma src len done_fn hdl s) }
      else Some (- ENODEV, s))"

definition alt_dma_txchan_space ::
  "'m chan_state_scheme chan_drivers \<Rightarrow> addr \<Rightarrow> 'm chan_state_scheme \<Rightarrow> (int \<times> 'm chan_state_scheme) option" where
  "alt_dma_txchan_space drv dma s =
     (if dma \<noteq> NULL then do { c \<leftarrow> tx_chans s dma; Some (run_space drv (tx_space c) dma s) } else Some (- ENODEV, s))"

definition alt_dma_txchan_ioctl ::
  "'m chan_state_scheme chan_drivers \<Rightarrow> addr \<Rightarrow> int \<Rightarrow> u32 \<Rightarrow> 'm chan_state_scheme \<Rightarrow> (int \<times> 'm chan_state_scheme) option" where
  "alt_dma_txchan_ioctl drv dma req arg s =
     (if dma \<noteq> NULL then do { c \<leftarrow> tx_chans s dma; Some (run_ioctl drv (tx_ioctl c) dma req arg s) } else Some (- ENODEV, s))"

section \<open>Receive channels\<close>

definition alt_dma_rxchan_close :: "addr \<Rightarrow> int" where
  "alt_dma_rxchan_close dma = 0"

definition alt_dma_rxchan_prepare ::
  "'m chan_state_scheme chan_drivers \<Rightarrow> addr \<Rightarrow> addr \<Rightarrow> u32 \<Rightarrow> u32 \<Rightarrow> u32 \<Rightarrow> 'm chan_state_scheme
    \<Rightarrow> (int \<times> 'm chan_state_scheme) option" where
  "alt_dma_rxchan_prepare drv dma dst len done_fn hdl s =
     (if dma \<noteq> NULL then do { c \<leftarrow> rx_chans s dma; Some (run_post drv (rx_prepare c) dma dst len done_fn hdl s) }
      else Some (- ENODEV, s))"

definition alt_dma_rxchan_ioctl ::
  "'m chan_state_scheme chan_drivers \<Rightarrow> addr \<Rightarrow> int \<Rightarrow> u32 \<Rightarrow> 'm chan_state_scheme \<Rightarrow> (int \<times> 'm chan_state_scheme) option" where
  "alt_dma_rxchan_ioctl drv dma req arg s =
     (if dma \<noteq> NULL then do { c \<leftarrow> rx_chans s dma; Some (run_ioctl drv (rx_ioctl c) dma req arg s) } else Some (- ENODEV, s))"

text \<open>The only one that does not look for the null channel.\<close>

definition alt_dma_rxchan_depth :: "addr \<Rightarrow> 'm chan_state_scheme \<Rightarrow> u32 option" where
  "alt_dma_rxchan_depth dma s = do { c \<leftarrow> (if dma \<noteq> NULL then rx_chans s dma else None); Some (rx_depth c) }"

section \<open>Flash\<close>

definition alt_lock_flash ::
  "'m chan_state_scheme chan_drivers \<Rightarrow> addr \<Rightarrow> u32 \<Rightarrow> 'm chan_state_scheme \<Rightarrow> (int \<times> 'm chan_state_scheme) option" where
  "alt_lock_flash drv fd sectors s = do { f \<leftarrow> flash_devs s fd; Some (run_lock drv (fl_lock f) fd sectors s) }"

definition alt_write_flash ::
  "'m chan_state_scheme chan_drivers \<Rightarrow> addr \<Rightarrow> int \<Rightarrow> addr \<Rightarrow> int \<Rightarrow> 'm chan_state_scheme \<Rightarrow> (int \<times> 'm chan_state_scheme) option" where
  "alt_write_flash drv fd offset src len s = do { f \<leftarrow> flash_devs s fd; Some (run_transfer drv (fl_write f) fd offset src len s) }"

definition alt_read_flash ::
  "'m chan_state_scheme chan_drivers \<Rightarrow> addr \<Rightarrow> int \<Rightarrow> addr \<Rightarrow> int \<Rightarrow> 'm chan_state_scheme \<Rightarrow> (int \<times> 'm chan_state_scheme) option" where
  "alt_read_flash drv fd offset dst len s = do { f \<leftarrow> flash_devs s fd; Some (run_transfer drv (fl_read f) fd offset dst len s) }"

definition alt_get_flash_info ::
  "'m chan_state_scheme chan_drivers \<Rightarrow> addr \<Rightarrow> addr \<Rightarrow> addr \<Rightarrow> 'm chan_state_scheme \<Rightarrow> (int \<times> 'm chan_state_scheme) option" where
  "alt_get_flash_info drv fd info number s = do { f \<leftarrow> flash_devs s fd; Some (run_get_info drv (fl_get_info f) fd info number s) }"

text \<open>The length of the block is not used.\<close>

definition alt_erase_flash_block ::
  "'m chan_state_scheme chan_drivers \<Rightarrow> addr \<Rightarrow> int \<Rightarrow> int \<Rightarrow> 'm chan_state_scheme \<Rightarrow> (int \<times> 'm chan_state_scheme) option" where
  "alt_erase_flash_block drv fd offset len s = do { f \<leftarrow> flash_devs s fd; Some (run_erase drv (fl_erase_block f) fd offset s) }"

definition alt_write_flash_block ::
  "'m chan_state_scheme chan_drivers \<Rightarrow> addr \<Rightarrow> int \<Rightarrow> int \<Rightarrow> addr \<Rightarrow> int \<Rightarrow> 'm chan_state_scheme \<Rightarrow> (int \<times> 'm chan_state_scheme) option" where
  "alt_write_flash_block drv fd block_offset data_offset src len s = do {
     f \<leftarrow> flash_devs s fd;
     Some (run_write_block drv (fl_write_block f) fd block_offset data_offset src len s)
   }"

section \<open>Properties\<close>

text \<open>
  C34: opening a transmit channel by name and sending on it.  The channel opened is the first of
  the list with that name, and the request goes with its arguments to that channel's driver in
  the state as it was; a name that is not in the list gives the null channel and \<open>ENODEV\<close>, and
  sending on it is refused with \<open>-ENODEV\<close> and changes nothing.
\<close>

theorem dma_open_then_send:
  assumes "ring (dev_links s) (alt_dma_txchan_list s) xs" and "named s xs" and "CHR 0x00 \<notin> set name"
    and "NULL \<notin> set xs" and "\<forall>p \<in> set xs. tx_chans s p \<noteq> None"
  shows "\<exists>dev s'. alt_dma_txchan_open beyond name (alt_dma_txchan_list s) s = Some (dev, s')
    \<and> (case List.find (\<lambda>p. name_of s p = name) xs of
         Some p \<Rightarrow> dev = p \<and> s' = s \<and> (\<exists>c. tx_chans s p = Some c
             \<and> alt_dma_txchan_send drv dev src len done_fn hdl s'
               = Some (run_post drv (tx_dma_send c) p src len done_fn hdl s))
       | None \<Rightarrow> dev = NULL \<and> s' = s\<lparr>errno := ENODEV\<rparr>
             \<and> alt_dma_txchan_send drv dev src len done_fn hdl s' = Some (- ENODEV, s'))"
proof (cases "List.find (\<lambda>p. name_of s p = name) xs")
  case None
  then show ?thesis
    by (simp add: alt_dma_txchan_open_def alt_dma_txchan_send_def find_dev_ok [OF assms(1-3)])
next
  case (Some p)
  then have p: "p \<in> set xs" by (auto simp: find_Some_iff)
  then have "p \<noteq> NULL" "tx_chans s p \<noteq> None" using assms(4,5) by auto
  with Some show ?thesis
    by (auto simp: alt_dma_txchan_open_def alt_dma_txchan_send_def find_dev_ok [OF assms(1-3)])
qed

text \<open>One channel at 12 on the list at 8; its driver counts the bytes in \<open>errno\<close>.\<close>

definition demo_chans :: chan_state where
  "demo_chans = \<lparr>dev_links = the (alt_llist_insert 8 12 (llist_entry 12 (llist_head 8 (\<lambda>_. None)))),
     devs = [12 \<mapsto> demo_device ''/dev/dma''], alt_dev_list = 4, alt_fs_list = 4, errno = 0,
     tx_chans = [12 \<mapsto> \<lparr>tx_space = 0, tx_dma_send = 0x100, tx_ioctl = 0\<rparr>], rx_chans = Map.empty,
     flash_devs = Map.empty, alt_dma_txchan_list = 8, alt_dma_rxchan_list = 4, alt_flash_dev_list = 4\<rparr>"

definition demo_chan_drivers :: "chan_state chan_drivers" where
  "demo_chan_drivers = \<lparr>run_space = (\<lambda>f d s. (4, s)),
     run_post = (\<lambda>f d src len done_fn hdl s. (0, s\<lparr>errno := errno s + int (unat len)\<rparr>)),
     run_ioctl = (\<lambda>f d req arg s. (0, s)), run_lock = (\<lambda>f d n s. (0, s)),
     run_transfer = (\<lambda>f d off p len s. (0, s)), run_get_info = (\<lambda>f d i n s. (0, s)),
     run_erase = (\<lambda>f d off s. (0, s)), run_write_block = (\<lambda>f d b off p len s. (0, s))\<rparr>"

theorem dma_open_then_send_witness:
  "alt_dma_txchan_open (\<lambda>_ _. CHR ''x'') ''/dev/dma'' 8 demo_chans = Some (12, demo_chans)
   \<and> alt_dma_txchan_send demo_chan_drivers 12 0x2000 64 0 0 demo_chans = Some (0, demo_chans\<lparr>errno := 64\<rparr>)"
proof -
  have "ring (dev_links demo_chans) (alt_dma_txchan_list demo_chans) [12]"
    by (simp add: demo_chans_def ring_def edge_def llist_head_def llist_entry_def alt_llist_insert_def
      set_next_def set_previous_def next_of_def previous_of_def)
  moreover have "named demo_chans [12]" "name_of demo_chans 12 = ''/dev/dma''"
    by (simp_all add: demo_chans_def named_def name_of_def demo_device_def)
  moreover have "alt_dma_txchan_list demo_chans = 8"
    "tx_chans demo_chans 12 = Some \<lparr>tx_space = 0, tx_dma_send = 0x100, tx_ioctl = 0\<rparr>" "errno demo_chans = 0"
    by (simp_all add: demo_chans_def)
  ultimately show ?thesis
    using dma_open_then_send [where s = demo_chans and xs = "[12]" and name = "''/dev/dma''" and beyond = "\<lambda>_ _. CHR ''x''"
        and drv = demo_chan_drivers and src = "0x2000" and len = "64" and done_fn = "0" and hdl = "0"]
    by (auto simp: demo_chan_drivers_def)
qed

end
