(* ===== verification/Spec2Isabelle.thy ===== *)
theory Spec2Isabelle
  imports Rand CQueue CPrograms Dtn Irq Alarm Clock Heap Devices Files UartRace UartSession CoreCsr Silent Support Boot Console Timing Channels
begin

text \<open>
  Verification of the C code of a fault-injection platform.  A softcore (RISC-V, RV64I) runs a
  benchmark program; a second processor (Nios II) beside it runs the injection program, which
  stops the core after a given number of instructions, flips bits in one of its registers
  through a debug port, lets it run on under a watchdog, and prints its results and memory
  over a JTAG UART.  The code has three layers, and the theories follow them.

  \<^bold>\<open>Programs for the softcore\<close> (\<open>src/software/c_progs\<close>).
  \<^item> \<open>Rand\<close>: the generator of \<open>lib/rand.c\<close>.  A step is shown to be a permutation of the 64-bit
    states (each of its three shift-and-xor rounds has an inverse), so no seed but 0 ever
    leads to 0 and every seed comes back (locale \<open>permuting_generator\<close>).
  \<^item> \<open>Fifo\<close>, \<open>CQueue\<close>: the queue of \<open>lib/queue.c\<close>.  \<open>Fifo\<close> is the contract \<open>bounded_fifo\<close> that
    the queue and the rings of the UART driver provide and the first-in first-out order that
    follows from it.  \<open>CQueue\<close> adds that \<open>sort\<close> sorts the pairs stably and what \<open>find\<close> finds.
  \<^item> \<open>CPrograms\<close>: \<open>csum/csum.c\<close>, \<open>cmatmul/cmatmul.c\<close> and \<open>memcpy\<close> of \<open>lib/compile_helpers.c\<close>.
  \<^item> \<open>Dtn\<close>: the network simulation \<open>dtn/dtn.c\<close> over \<open>Rand\<close>.  The network keeps its shape; routing
    stays inside its arrays and ends for every state of the generator, at the latest when the
    caller's path array is full; in a network without obstacles it is the greedy route, and when
    no node of the first level is up it ends with nothing delivered; an iteration of the main loop
    stores the cost and the path that it got.

  \<^bold>\<open>The hardware abstraction layer\<close> (\<open>hw_io_bsp/HAL\<close>, \<open>hw_io_bsp/drivers\<close>).
  \<^item> \<open>Llist\<close>: the intrusive lists of \<open>sys/alt_llist.h\<close> as a heap of links; locale
    \<open>intrusive_list\<close> refines them to HOL lists and is what alarms, devices and file systems use.
  \<^item> \<open>Irq\<close>: interrupt enabling, registration and the dispatcher; a disabled region restores what
    it found (\<open>critical_section\<close>), and every pending line is served once, lowest number first.
  \<^item> \<open>Alarm\<close>, \<open>Clock\<close>: \<open>alt_tick\<close> and the alarms, which a tick treats like a list, and when an
    alarm among others fires, for callbacks that leave the alarms alone; the wall clock of \<open>alt_gettod.c\<close>, \<open>alt_settod.c\<close> and \<open>alt_times.c\<close> in 32-bit words.
  \<^item> \<open>Heap\<close>: \<open>alt_sbrk.c\<close> (contract \<open>block_source\<close>) and the profiler \<open>alt_gmon.c\<close>, its client.
  \<^item> \<open>Devices\<close>, \<open>Files\<close>, \<open>Channels\<close>: the device and file system lists; descriptors, exclusive
    access and the system calls; DMA channels and flash devices.
  \<^item> \<open>Uart\<close>, \<open>UartRing\<close>, \<open>UartIO\<close>, \<open>UartRace\<close>, \<open>UartType\<close>, \<open>UartSession\<close>: the JTAG UART driver,
    polled and driven by interrupts.  \<open>UartRing\<close> shows that its rings are a \<open>bounded_fifo\<close>,
    \<open>UartIO\<close> what each operation does to the two byte streams, \<open>UartRace\<close> that no
    interleaving of a copy loop with the handler damages them, also when a call gives up, \<open>UartType\<close> that every operation
    keeps the state well formed, \<open>UartSession\<close> that a whole session carries both streams
    unharmed.
  \<^item> \<open>Stdio\<close>, \<open>Log\<close>, \<open>Console\<close>: the two formatted-output functions \<open>alt_printf\<close> and
    \<open>alt_log_private_printf\<close> over any character output with the contract \<open>char_sink\<close>; both
    are refinements of a reading of the format, both reach the device, and they agree where
    their formats meet; a program's \<open>write\<close> arrives at the UART through the descriptors.
  \<^item> \<open>Cache\<close>, \<open>Boot\<close>, \<open>Support\<close>, \<open>Timing\<close>: cache maintenance and uncached memory; section
    loading, start-up, exceptions, stubs and the calibrated delay; stack limit, arguments,
    \<open>errno\<close> and the end of a simulation; the timestamp timer and the performance counter.

  \<^bold>\<open>The platform\<close> (\<open>hw_io/inject.c\<close> and the softcore, \<open>components/*.sv\<close>).
  \<^item> \<open>Inject\<close>: the injection program and the template it is made from, over any board.
  \<^item> \<open>Board\<close>: parallel ports, cycle counter and debug port of the softcore and a console that can
    be full, and the properties of the whole: the core runs exactly the loaded delay, each half of
    the mask flips if an odd number of clock edges passes while it is set and nothing else does,
    and the program comes to its end unless its limit is the largest word.  The core is a parameter there
    (\<open>core_fns\<close>); its instance \<open>core_board\<close> is the next theory's.
  \<^item> \<open>Core\<close>: the single-cycle core, module by module: \<open>maindec\<close>, \<open>aludec\<close>, \<open>signext\<close>, \<open>alu\<close>,
    \<open>execute\<close>, \<open>branching\<close>, the masks of the data memory, \<open>core_status\<close> and
    \<open>except_controller\<close> under the names of the source, wired by \<open>decode_execute\<close>; \<open>core_exec\<close> is
    one clock edge of registers, program counter, status registers and data memory.
  \<^item> \<open>Isa\<close>, \<open>CoreIsa\<close>: the instructions as the RISC-V manual has them (\<open>isa_decode\<close>,
    \<open>isa_compute\<close>), a specification and not a model of the code; a clock edge computes what they
    say, with the exact condition for the two places where the core differs (\<open>exact_op\<close>,
    \<open>exact_branch\<close>).
  \<^item> \<open>CoreMem\<close>: loads and stores over a data memory that behaves as its parameters say
    (\<open>sync_ram\<close>): the doubled loads that the build inserts read memory, and stores are read back.
  \<^item> \<open>CoreTrap\<close>, \<open>CoreCsr\<close>: entry to the handler, and return to the instruction that trapped; the
    status register instructions and the few fields they can write.
  \<^item> \<open>Faults\<close>: the injection program and the core together: a fault in a register that the
    program overwrites before it reads it has no effect on the rest of the run.  What an
    instruction word reads and writes is defined by its format, and \<open>exec_changed\<close> shows of every
    word that the core uses no other register.
  \<^item> \<open>Report\<close>: what the injection program prints at the end of every run, the memory dump
    included, is the state of the core when its time was over.
  \<^item> \<open>Silent\<close>: the two together: a run whose fault is masked waits as long as a run without a
    fault and ends its output with the same report.

  \<^bold>\<open>Conventions\<close> (\<open>Prelude\<close>).  Machine integers are words of their width (the C programs of the
  softcore have 64-bit \<open>long\<close>, the Nios II code 32-bit \<open>int\<close> and pointers).  State is passed
  explicitly in records, which the states of larger components extend.  What C leaves undefined
  is \<open>None\<close>; so is a loop that never ends, for loops whose end is not evident are
  \<open>partial_function (option)\<close> and have no fuel or bound: a theorem with a result \<open>Some\<close> shows
  that the code returns.  Function pointers are addresses with a parameter that calls them,
  and what hardware does is a parameter (registers of the UART and of the timers, the pending
  lines, the core's two memories), with what the code relies on as named predicates
  (\<open>device_grants\<close>, \<open>jtag_device\<close>, \<open>device_logs\<close>, \<open>host_listens\<close>, \<open>sync_ram\<close>, \<open>idle_ram\<close>, \<open>reads_alone\<close>)
  that concrete devices are shown to satisfy.  A device loses what is written to it while it is
  full (\<open>device_logs\<close>), and every access of the injection program takes at least one clock edge.

  \<^bold>\<open>Not modelled.\<close>  Modules that the core does not instantiate (\<open>memControl.sv\<close>, \<open>mul\<close>,
  \<open>pipeline_optimizations\<close>) or whose inputs it ties to 0 (\<open>interruptDecode.sv\<close>), the clocks of the
  board and the generated blocks of the Nios II system; the start-up and
  exception assembly (\<open>crt0.S\<close>, \<open>alt_exception_entry.S\<close>, \<open>alt_mcount.S\<close> and others), which needs
  an instruction set semantics of the Nios II; the generated headers (\<open>system.h\<close>, \<open>linker.h\<close>)
  and register headers, whose constants are written out where they are used; the lock stubs
  for \<open>malloc\<close> and the environment, which are empty without an operating system; the
  floating-point variant of the performance report; the Python scripts and the assembly tests.
\<close>

end
